theory Spec2Isabelle
  imports Complex_Main "HOL-Library.Numeral_Type"
begin

unbundle bit_operations_syntax

section \<open>Dense polynomials over a coefficient ring (polynom.h)\<close>

text \<open>
  The coefficient type \<open>T\<close> of \<open>polynom<T>\<close> is a type variable. Its ring operations are
  those of the type classes: \<open>zeroOf(x)\<close> is \<open>0\<close>, \<open>identityOf(x)\<close> is \<open>1\<close>, and the
  operator \<open>/\<close> of \<open>T\<close> is \<open>div\<close>. C++ \<open>int\<close> indices and degrees are \<open>int\<close> (unbounded:
  the sizes of interest stay far below \<open>2^31\<close>); positions in a \<open>std::vector\<close> are \<open>nat\<close>.
\<close>

record 'a polynom =
  ZERO_COEFF :: 'a
  c :: "'a list"

text \<open>The constructors \<open>polynom(const T& c0 = T(0))\<close> and \<open>polynom(std::initializer_list<T>)\<close>.\<close>

definition make_zero :: "'a::zero list \<Rightarrow> 'a" where
  "make_zero xs = (if xs \<noteq> [] then 0 else 0)"

definition polynom_c0 :: "'a::zero \<Rightarrow> 'a polynom" where
  "polynom_c0 c0 = \<lparr>ZERO_COEFF = 0, c = [c0]\<rparr>"

definition polynom_list :: "'a::zero list \<Rightarrow> 'a polynom" where
  "polynom_list xs = \<lparr>ZERO_COEFF = make_zero xs, c = xs\<rparr>"

definition size_p :: "'a polynom \<Rightarrow> int" where
  "size_p p = int (length (c p))"

text \<open>
  \<open>std::vector::resize(n, z)\<close>. Its argument is a \<open>size_t\<close>: the callers below pass
  non-negative sizes, converted with \<open>nat\<close>.
\<close>

definition vector_resize :: "'a list \<Rightarrow> nat \<Rightarrow> 'a \<Rightarrow> 'a list" where
  "vector_resize xs n z = take n xs @ replicate (n - length xs) z"

definition reserve :: "'a polynom \<Rightarrow> int \<Rightarrow> 'a polynom" where
  "reserve p sz = (if sz > size_p p then p\<lparr>c := vector_resize (c p) (nat sz) (ZERO_COEFF p)\<rparr> else p)"

definition resize :: "'a polynom \<Rightarrow> nat \<Rightarrow> 'a polynom" where
  "resize p sz = (if int sz \<noteq> size_p p then p\<lparr>c := vector_resize (c p) sz (ZERO_COEFF p)\<rparr> else p)"

definition resize_z :: "'a polynom \<Rightarrow> nat \<Rightarrow> 'a \<Rightarrow> 'a polynom" where
  "resize_z p sz z = resize (p\<lparr>ZERO_COEFF := z\<rparr>) sz"

definition at_p :: "'a polynom \<Rightarrow> int \<Rightarrow> 'a" where
  "at_p p index = (if 0 \<le> index \<and> index < size_p p then c p ! nat index else ZERO_COEFF p)"

text \<open>
  The mutable \<open>operator[]\<close> reserves \<open>index + 1\<close> coefficients and then refers to \<open>c[index]\<close>:
  \<open>idx_get\<close> reads through it (the polynomial may have grown), \<open>idx_set\<close> assigns
  through it, \<open>idx_upd\<close> is a compound assignment.
\<close>

definition idx_get :: "'a polynom \<Rightarrow> int \<Rightarrow> 'a polynom \<times> 'a" where
  "idx_get p index = (let p' = reserve p (index + 1) in (p', c p' ! nat index))"

definition idx_set :: "'a polynom \<Rightarrow> int \<Rightarrow> 'a \<Rightarrow> 'a polynom" where
  "idx_set p index v = (let p' = reserve p (index + 1) in p'\<lparr>c := (c p')[nat index := v]\<rparr>)"

definition idx_upd :: "'a polynom \<Rightarrow> int \<Rightarrow> ('a \<Rightarrow> 'a) \<Rightarrow> 'a polynom" where
  "idx_upd p index f = (let (p', v) = idx_get p index in p'\<lparr>c := (c p')[nat index := f v]\<rparr>)"

function deg_loop :: "'a polynom \<Rightarrow> int \<Rightarrow> int" where
  "deg_loop p i = (if i > 0 then (if \<not> (c p ! nat i = ZERO_COEFF p) then i else deg_loop p (i - 1)) else 0)"
  by pat_completeness auto
termination
  by (relation "measure (\<lambda>(p, i). nat i)") auto

declare deg_loop.simps [simp del]

definition deg :: "'a polynom \<Rightarrow> int" where
  "deg p = deg_loop p (size_p p - 1)"

function lowest_loop :: "'a polynom \<Rightarrow> int \<Rightarrow> int" where
  "lowest_loop p i = (if i < size_p p then (if \<not> (c p ! nat i = ZERO_COEFF p) then i else lowest_loop p (i + 1)) else 0)"
  by pat_completeness auto
termination
  by (relation "measure (\<lambda>(p, i). nat (size_p p - i))") auto

declare lowest_loop.simps [simp del]

definition lowest :: "'a polynom \<Rightarrow> int" where
  "lowest p = lowest_loop p 0"

text \<open>
  \<open>cmp\<close> walks both polynomials from the larger degree down and compares the
  coefficients with \<open><\<close>; \<open>operator==\<close> is \<open>cmp(*this, rhs) == 0\<close>.
\<close>

function cmp_loop :: "'a::ord polynom \<Rightarrow> 'a polynom \<Rightarrow> int \<Rightarrow> int" where
  "cmp_loop p1 p2 i =
     (if 0 \<le> i then
        (if at_p p1 i < at_p p2 i then - 1
         else if at_p p2 i < at_p p1 i then 1
         else cmp_loop p1 p2 (i - 1))
      else 0)"
  by pat_completeness auto
termination
  by (relation "measure (\<lambda>(p1, p2, i). nat (i + 1))") auto

declare cmp_loop.simps [simp del]

definition cmp :: "'a::ord polynom \<Rightarrow> 'a polynom \<Rightarrow> int" where
  "cmp p1 p2 = (let l1 = deg p1; l2 = deg p2; l = max l1 l2 in cmp_loop p1 p2 l)"

definition operator_eq :: "'a::ord polynom \<Rightarrow> 'a polynom \<Rightarrow> bool" where
  "operator_eq p rhs = (cmp p rhs = 0)"

definition leading_coeff :: "'a polynom \<Rightarrow> 'a" where
  "leading_coeff p = at_p p (deg p)"

definition id_coeff :: "'a::one polynom \<Rightarrow> 'a" where
  "id_coeff p = 1"

definition is_power :: "'a::one polynom \<Rightarrow> bool" where
  "is_power p = (lowest p = deg p \<and> leading_coeff p = id_coeff p)"

definition shrink_to_fit :: "'a polynom \<Rightarrow> 'a polynom" where
  "shrink_to_fit p = p\<lparr>c := vector_resize (c p) (nat (deg p + 1)) (ZERO_COEFF p)\<rparr>"

section \<open>Raw coefficient buffers\<close>

text \<open>
  The static kernels work on raw pointers \<open>T*\<close> that may alias. Memory is a list of
  buffers, one per \<open>std::vector\<close>; a pointer is a buffer and an offset into it, and
  \<open>p + k\<close> moves the offset. Two pointers alias exactly when they name the same buffer.
  A local \<open>std::vector\<close> is a new buffer appended to the memory, dropped again when its
  scope ends.
\<close>

type_synonym 'a mem = "'a list list"
type_synonym ptr = "nat \<times> nat"

definition rd :: "'a mem \<Rightarrow> ptr \<Rightarrow> int \<Rightarrow> 'a" where
  "rd m p i = m ! fst p ! (snd p + nat i)"

definition wr :: "'a mem \<Rightarrow> ptr \<Rightarrow> int \<Rightarrow> 'a \<Rightarrow> 'a mem" where
  "wr m p i v = m[fst p := (m ! fst p)[snd p + nat i := v]]"

definition padd :: "ptr \<Rightarrow> int \<Rightarrow> ptr" where
  "padd p k = (fst p, snd p + nat k)"

text \<open>\<open>_zero\<close>: \<open>pr[lm + 1 : lr] = 0\<close>.\<close>

definition u_zero :: "'a mem \<Rightarrow> ptr \<Rightarrow> int \<Rightarrow> int \<Rightarrow> 'a \<Rightarrow> 'a mem" where
  "u_zero m pr lm lr z = fold (\<lambda>i m. wr m pr i z) [lm + 1..lr] m"

text \<open>\<open>_add_to\<close>: \<open>pr += p2\<close>, and \<open>_sub_from\<close>: \<open>pr -= p2\<close>.\<close>

definition u_add_to :: "'a::plus mem \<Rightarrow> ptr \<Rightarrow> ptr \<Rightarrow> int \<Rightarrow> 'a mem" where
  "u_add_to m pr p2 l2 = fold (\<lambda>i m. wr m pr i (rd m pr i + rd m p2 i)) [0..l2] m"

definition u_sub_from :: "'a::minus mem \<Rightarrow> ptr \<Rightarrow> ptr \<Rightarrow> int \<Rightarrow> 'a mem" where
  "u_sub_from m pr p2 l2 = fold (\<lambda>i m. wr m pr i (rd m pr i - rd m p2 i)) [0..l2] m"

text \<open>
  \<open>_mul_long\<close>, the schoolbook product: the output index \<open>i\<close> runs from \<open>lr\<close> down to \<open>0\<close>,
  the inner index \<open>j\<close> from \<open>jmax\<close> down to \<open>jmin\<close>.
\<close>

definition u_mul_long :: "'a::semiring_0 mem \<Rightarrow> ptr \<Rightarrow> int \<Rightarrow> ptr \<Rightarrow> int \<Rightarrow> ptr \<Rightarrow> int \<Rightarrow> 'a mem" where
  "u_mul_long m pr lr p1 l1 p2 l2 =
     fold (\<lambda>i m.
        let jmax = min i l1;
            jmin = max 0 (i - l2);
            r = fold (\<lambda>j r. r + rd m p1 j * rd m p2 (i - j)) (rev [jmin..jmax]) 0
        in wr m pr i r) (rev [0..lr]) m"

text \<open>
  \<open>_mul\<close>, \<open>polynom_mul<T>::impl\<close> and \<open>_mul_karatsuba\<close> call each other. The vectors
  \<open>MM\<close>, \<open>S1\<close>, \<open>S2\<close> and \<open>HH\<close> are buffers appended to the memory in the order of
  their declarations; \<open>take n\<close> drops them at the end of the branch.
\<close>

function u_mul :: "'a::ring mem \<Rightarrow> ptr \<Rightarrow> int \<Rightarrow> ptr \<Rightarrow> int \<Rightarrow> ptr \<Rightarrow> int \<Rightarrow> 'a mem"
  and polynom_mul_impl :: "'a::ring mem \<Rightarrow> ptr \<Rightarrow> int \<Rightarrow> ptr \<Rightarrow> int \<Rightarrow> ptr \<Rightarrow> int \<Rightarrow> 'a mem"
  and u_mul_karatsuba :: "'a::ring mem \<Rightarrow> ptr \<Rightarrow> int \<Rightarrow> ptr \<Rightarrow> int \<Rightarrow> ptr \<Rightarrow> int \<Rightarrow> 'a mem"
where
  "u_mul m pr lr p1 l1 p2 l2 =
     (if l2 > l1 then u_mul m pr lr p2 l2 p1 l1
      else
        let l1' = min l1 lr;
            l2' = min l2 lr;
            m' = u_zero m pr (l1' + l2') lr 0;
            lr' = min lr (l1' + l2')
        in polynom_mul_impl m' pr lr' p1 l1' p2 l2')"
| "polynom_mul_impl m pr lr p1 l1 p2 l2 =
     (if l2 < 48 then u_mul_long m pr lr p1 l1 p2 l2
      else u_mul_karatsuba m pr lr p1 l1 p2 l2)"
| "u_mul_karatsuba m pr lr p1 l1 p2 l2 =
     (let n = length m;
          k = l1 div 2 + 1
      in
      if l2 = 0 then
        fold (\<lambda>i m. wr m pr i (rd m p1 i * rd m p2 0)) (rev [0..lr]) m
      else if l2 < k then
        (let MM = (n, 0);
             m1 = m @ [replicate (nat (lr - k + 1)) 0];
             m2 = u_mul m1 MM (lr - k) (padd p1 k) (l1 - k) p2 l2;
             m3 = u_mul m2 pr (min lr (l2 + k - 1)) p1 (k - 1) p2 l2;
             m4 = u_zero m3 pr (l2 + k - 1) lr 0;
             m5 = u_add_to m4 (padd pr k) MM (lr - k)
         in take n m5)
      else
        (let S1 = (n, 0);
             m1 = m @ [map (rd m p1) [0..k - 1]];
             m2 = u_add_to m1 S1 (padd p1 k) (l1 - k);
             S2 = (n + 1, 0);
             m3 = m2 @ [map (rd m2 p2) [0..k - 1]];
             m4 = u_add_to m3 S2 (padd p2 k) (l2 - k);
             mm_l = min (lr - k) (k - 1 + k - 1);
             MM = (n + 2, 0);
             m5 = m4 @ [replicate (nat (mm_l + 1)) 0];
             m6 = u_mul m5 MM mm_l S1 (k - 1) S2 (k - 1);
             hh_l = min mm_l (l1 - k + l2 - k);
             HH = (n + 3, 0);
             m7 = m6 @ [replicate (nat (hh_l + 1)) 0];
             m8 = u_mul m7 HH hh_l (padd p1 k) (l1 - k) (padd p2 k) (l2 - k);
             m9 = u_mul m8 pr (k - 1 + k - 1) p1 (k - 1) p2 (k - 1);
             m10 = u_zero m9 pr (k - 1 + k - 1) lr 0;
             m11 = u_sub_from m10 MM pr (min mm_l (k - 1 + k - 1));
             m12 = u_sub_from m11 MM HH hh_l;
             m13 = u_add_to m12 (padd pr k) MM mm_l;
             m14 = u_add_to m13 (padd pr (k + k)) HH (lr - k - k)
         in take n m14))"
  by pat_completeness auto

text \<open>
  The recursion ends: \<open>impl\<close> reaches \<open>_mul_karatsuba\<close> with \<open>48 \<le> l2 \<le> l1\<close>, and from
  there every call of \<open>_mul\<close> has both lengths below \<open>l1\<close>. The measure also covers a
  direct call of \<open>_mul_karatsuba\<close> with other lengths, which reaches \<open>_mul\<close> once.
\<close>

definition mu_mul :: "int \<Rightarrow> int \<Rightarrow> nat" where
  "mu_mul l1 l2 = (if l2 \<le> l1 then 4 * nat l1 + 2 else 4 * nat l2 + 3)"

definition mu_kar :: "int \<Rightarrow> int \<Rightarrow> nat" where
  "mu_kar l1 l2 = (if 48 \<le> l2 \<and> l2 \<le> l1 then 4 * nat l1 else 4 * (2 * nat \<bar>l1\<bar> + nat \<bar>l2\<bar> + 3))"

definition mu_impl :: "int \<Rightarrow> int \<Rightarrow> nat" where
  "mu_impl l1 l2 = (if l2 \<le> l1 then 4 * nat l1 + 1 else mu_kar l1 l2 + 1)"

lemma mu_swap: "l1 < l2 \<Longrightarrow> mu_mul l2 l1 < mu_mul l1 l2"
  by (simp add: mu_mul_def)

lemma mu_norm: "\<not> l1 < l2 \<Longrightarrow> mu_impl (min l1 lr) (min l2 lr) < mu_mul l1 l2"
  unfolding mu_mul_def mu_impl_def mu_kar_def by (auto simp: min_def)

lemma mu_disp: "\<not> l2 < 48 \<Longrightarrow> mu_kar l1 l2 < mu_impl l1 l2"
  by (simp add: mu_kar_def mu_impl_def)

lemma mu_rec1: "k = l1 div 2 + 1 \<Longrightarrow> l2 \<noteq> 0 \<Longrightarrow> l2 < k \<Longrightarrow> mu_mul (l1 - k) l2 < mu_kar l1 l2"
  unfolding mu_mul_def mu_kar_def by (auto split: if_splits)

lemma mu_rec2: "k = l1 div 2 + 1 \<Longrightarrow> l2 \<noteq> 0 \<Longrightarrow> l2 < k \<Longrightarrow> mu_mul (k - 1) l2 < mu_kar l1 l2"
  unfolding mu_mul_def mu_kar_def by (auto split: if_splits)

lemma mu_rec3: "k = l1 div 2 + 1 \<Longrightarrow> l2 \<noteq> 0 \<Longrightarrow> \<not> l2 < k \<Longrightarrow> mu_mul (k - 1) (k - 1) < mu_kar l1 l2"
  unfolding mu_mul_def mu_kar_def by (auto split: if_splits)

lemma mu_rec4: "k = l1 div 2 + 1 \<Longrightarrow> l2 \<noteq> 0 \<Longrightarrow> \<not> l2 < k \<Longrightarrow> mu_mul (l1 - k) (l2 - k) < mu_kar l1 l2"
  unfolding mu_mul_def mu_kar_def by (auto split: if_splits)

termination u_mul
  apply (relation "measure (\<lambda>x. case x of
       Inl (m, pr, lr, p1, l1, p2, l2) \<Rightarrow> mu_mul l1 l2
     | Inr (Inl (m, pr, lr, p1, l1, p2, l2)) \<Rightarrow> mu_impl l1 l2
     | Inr (Inr (m, pr, lr, p1, l1, p2, l2)) \<Rightarrow> mu_kar l1 l2)")
  subgoal by simp
  subgoal by (simp add: mu_swap)
  subgoal by (simp add: mu_norm)
  subgoal by (simp add: mu_disp)
  subgoal premises prems by (simp only: in_measure sum.case prod.case mu_rec1[OF prems(2,3,4)])
  subgoal premises prems by (simp only: in_measure sum.case prod.case mu_rec2[OF prems(2,3,4)])
  subgoal premises prems by (simp only: in_measure sum.case prod.case mu_rec3[OF prems(2,3,4)])
  subgoal premises prems by (simp only: in_measure sum.case prod.case mu_rec4[OF prems(2,3,4)])
  subgoal premises prems by (simp only: in_measure sum.case prod.case mu_rec3[OF prems(2,3,4)])
  done

declare u_mul.simps [simp del] polynom_mul_impl.simps [simp del] u_mul_karatsuba.simps [simp del]

section \<open>Polynomial arithmetic\<close>

text \<open>
  \<open>add(pr, p1, p2)\<close>, \<open>sub(pr, p1, p2)\<close> and \<open>div(pr, p1, s)\<close> are modelled as the compound
  assignments call them, with \<open>pr\<close> and \<open>p1\<close> the same object: the state is that object,
  and \<open>p1[i]\<close> reads it.
\<close>

definition add_p :: "'a::plus polynom \<Rightarrow> 'a polynom \<Rightarrow> 'a polynom" where
  "add_p p1 p2 =
     (let l1 = deg p1; l2 = deg p2; lr = max l1 l2;
          pr = resize_z p1 (nat (lr + 1)) (ZERO_COEFF p1)
      in fold (\<lambda>i pr. idx_set pr i (at_p pr i + at_p p2 i)) [0..lr] pr)"

definition sub_p :: "'a::minus polynom \<Rightarrow> 'a polynom \<Rightarrow> 'a polynom" where
  "sub_p p1 p2 =
     (let l1 = deg p1; l2 = deg p2; lr = max l1 l2;
          pr = resize_z p1 (nat (lr + 1)) (ZERO_COEFF p1)
      in fold (\<lambda>i pr. idx_set pr i (at_p pr i - at_p p2 i)) [0..lr] pr)"

definition div_s :: "'a::divide polynom \<Rightarrow> 'a \<Rightarrow> 'a polynom" where
  "div_s p1 s =
     (let lr = deg p1;
          pr = resize_z p1 (nat (lr + 1)) (ZERO_COEFF p1)
      in fold (\<lambda>i pr. idx_set pr i (at_p pr i div s)) [0..lr] pr)"

text \<open>
  \<open>mul(pr, p1, p2, lr)\<close> may be called with \<open>pr\<close>, \<open>p1\<close> and \<open>p2\<close> the same object. Its
  model works on a list of polynomial objects; \<open>pr\<close>, \<open>p1\<close> and \<open>p2\<close> are positions in
  that list, equal when the arguments are the same object. The memory of the raw
  kernels is the list of the coefficient vectors, and \<open>c.data()\<close> is offset \<open>0\<close> of
  the object's buffer.
\<close>

definition store_c :: "'a polynom list \<Rightarrow> 'a mem \<Rightarrow> 'a polynom list" where
  "store_c h m = map2 (\<lambda>p cs. p\<lparr>c := cs\<rparr>) h m"

definition mul :: "'a::ring polynom list \<Rightarrow> nat \<Rightarrow> nat \<Rightarrow> nat \<Rightarrow> int \<Rightarrow> 'a polynom list" where
  "mul h pr p1 p2 lr0 =
     (let l1 = deg (h ! p1); l2 = deg (h ! p2);
          lr = (if lr0 < 0 then l1 + l2 else lr0);
          h1 = h[pr := resize_z (h ! pr) (nat (lr + 1)) (ZERO_COEFF (h ! p1))]
      in if size_p (h1 ! p1) = 0 \<or> size_p (h1 ! p2) = 0
         then store_c h1 (u_zero (map c h1) (pr, 0) (- 1) lr (ZERO_COEFF (h1 ! p1)))
         else store_c h1 (u_mul (map c h1) (pr, 0) lr (p1, 0) l1 (p2, 0) l2))"

text \<open>
  The operators copy \<open>*this\<close> into \<open>t\<close> and run the compound assignment on the copy:
  \<open>operator*\<close> is \<open>mul(t, t, rhs)\<close> with the default \<open>lr = -1\<close>.
\<close>

definition operator_mul :: "'a::ring polynom \<Rightarrow> 'a polynom \<Rightarrow> 'a polynom" where
  "operator_mul p rhs = mul [p, rhs] 0 0 1 (- 1) ! 0"

definition operator_add :: "'a::plus polynom \<Rightarrow> 'a polynom \<Rightarrow> 'a polynom" where
  "operator_add p rhs = add_p p rhs"

definition operator_sub :: "'a::minus polynom \<Rightarrow> 'a polynom \<Rightarrow> 'a polynom" where
  "operator_sub p rhs = sub_p p rhs"

definition operator_div_s :: "'a::divide polynom \<Rightarrow> 'a \<Rightarrow> 'a polynom" where
  "operator_div_s p val = div_s p val"

subsection \<open>Power series inverse\<close>

text \<open>
  The loop of \<open>inverse\<close>: \<open>l\<close> starts at \<open>1\<close> and doubles, so \<open>0 < l\<close> holds at every
  test of \<open>l < L * 2\<close>; the guard carries it, which makes the recursion well-founded.
  \<open>mul(t, t, r, lr)\<close> has \<open>pr\<close> and \<open>p1\<close> the same object \<open>t\<close>.
\<close>

definition inverse_step :: "'a::ring polynom \<Rightarrow> int \<Rightarrow> int \<Rightarrow> 'a polynom \<times> 'a polynom \<Rightarrow> 'a polynom \<times> 'a polynom" where
  "inverse_step p L l rt =
     (let (r, t) = rt;
          m = min (L - 1) l; k = l div 2 + 1;
          t1 = t\<lparr>c := take (nat (min (m + 1) (size_p p))) (c p)\<rparr>;
          t2 = mul [t1, r] 0 0 1 (l + 1) ! 0;
          t3 = t2\<lparr>c := drop (nat k) (c t2)\<rparr>;
          t4 = mul [t3, r] 0 0 1 (l - k) ! 0
      in fold (\<lambda>i (r, t). let (t', v) = idx_get t (i - k) in (idx_set r i (- v), t')) (rev [k..m]) (r, t4))"

function inverse_loop :: "'a::ring polynom \<Rightarrow> int \<Rightarrow> int \<Rightarrow> 'a polynom \<times> 'a polynom \<Rightarrow> 'a polynom \<times> 'a polynom" where
  "inverse_loop p L l rt =
     (if 0 < l \<and> l < L * 2 then inverse_loop p L (l * 2) (inverse_step p L l rt) else rt)"
  by pat_completeness auto
termination
  by (relation "measure (\<lambda>(p, L, l, rt). nat (L * 2 - l))") auto

declare inverse_loop.simps [simp del]

text \<open>
  \<open>inverse\<close> calls itself on \<open>*this / c[0]\<close> until the constant term is \<open>1\<close>. Nothing
  in the code bounds that recursion for an arbitrary division operator, so the model
  is a partial function: \<open>None\<close> is "does not return".
\<close>

partial_function (option) inverse_p :: "'a::{ring_1,divide} polynom \<Rightarrow> int \<Rightarrow> 'a polynom option" where
  "inverse_p p L =
     (if c p ! 0 = ZERO_COEFF p then Some (polynom_list [ZERO_COEFF p])
      else if c p ! 0 \<noteq> id_coeff p then
        Option.bind (inverse_p (operator_div_s p (c p ! 0)) L)
          (\<lambda>r. Some (operator_div_s r (c p ! 0)))
      else Some (fst (inverse_loop p L 1 (polynom_list [id_coeff p], polynom_c0 0))))"

declare inverse_p.simps [code]

text \<open>
  \<open>c[0]\<close> is \<open>std::vector::operator[]\<close>, which does not check its index: on a polynomial
  without coefficients \<open>inverse\<close> reads out of range. \<open>inverse_p\<close> is \<open>inverse\<close> on a
  polynomial with a stored constant term; every polynomial it calls itself on has one,
  as \<open>*this / c[0]\<close> has \<open>deg() + 1\<close> coefficients. \<open>inverse_call\<close> is a call of \<open>inverse\<close>
  on any polynomial, with the out-of-range read as an error.
\<close>

datatype error = OutOfRange

definition inverse_call :: "'a::{ring_1,divide} polynom \<Rightarrow> int \<Rightarrow> error + 'a polynom option" where
  "inverse_call p L = (if c p = [] then Inl OutOfRange else Inr (inverse_p p L))"

subsection \<open>Division\<close>

definition reverse :: "'a polynom \<Rightarrow> 'a polynom" where
  "reverse p =
     (let r = p
      in if length (c r) > 0
         then r\<lparr>c := rev (take (nat (deg r + 1)) (c r)) @ drop (nat (deg r + 1)) (c r)\<rparr>
         else r)"

text \<open>
  \<open>quot_rem_hensel\<close> and \<open>quot_rem_long\<close> start with \<open>pr = p1\<close>, so the result depends
  on \<open>p1\<close> and \<open>p2\<close> only, also when \<open>pr\<close> and \<open>p1\<close> are the same object; the model
  returns the final \<open>pr\<close>. \<open>pr\<close> and \<open>p2\<close> must not be the same object.
\<close>

definition quot_rem_hensel :: "'a::{comm_ring_1,divide} polynom \<Rightarrow> 'a polynom \<Rightarrow> 'a polynom option" where
  "quot_rem_hensel p1 p2 =
     (let l1 = deg p1; l2 = deg p2; lq = l1 - l2;
          pr = p1
      in if lq < 0 \<or> is_power p2 then Some pr
         else
           (case inverse_p (reverse p2) (lq + 1) of
              None \<Rightarrow> None
            | Some iv \<Rightarrow>
               (let q0 = polynom_c0 0;
                    q1 = mul [q0, iv, reverse p1] 0 1 2 lq ! 0;
                    q2 = q1\<lparr>c := rev (take (nat (lq + 1)) (c q1)) @ drop (nat (lq + 1)) (c q1)\<rparr>;
                    pr1 = sub_p pr (operator_mul q2 p2);
                    q3 = q2\<lparr>c := replicate (nat l2) (ZERO_COEFF q2) @ c q2\<rparr>;
                    pr2 = add_p pr1 q3
                in Some pr2)))"

text \<open>One pass of the outer loop of \<open>quot_rem_long\<close>, for the index \<open>i\<close>.\<close>

definition long_body :: "'a::{comm_ring_1,divide} polynom \<Rightarrow> 'a polynom \<Rightarrow> int \<Rightarrow> int \<Rightarrow> 'a polynom \<Rightarrow> 'a polynom" where
  "long_body p1 p2 l2 i pr =
     (let pr1 = idx_upd pr i (\<lambda>v. v div at_p p2 l2);
          s = c pr1 ! nat i
      in if s = ZERO_COEFF p1 then pr1
         else fold (\<lambda>j pr. idx_upd pr (i - j) (\<lambda>v. v - s * at_p p2 (l2 - j))) [1..l2] pr1)"

definition quot_rem_long :: "'a::{comm_ring_1,divide} polynom \<Rightarrow> 'a polynom \<Rightarrow> 'a polynom" where
  "quot_rem_long p1 p2 =
     (let l1 = deg p1; l2 = deg p2; lq = l1 - l2;
          pr = p1
      in if lq < 0 \<or> is_power p2 then pr
         else fold (long_body p1 p2 l2) (rev [l2..l1]) pr)"

text \<open>
  \<open>quot_rem\<close> chooses by a heuristic. \<open>l2 < 25 * log2(l1)\<close> compares in floating point:
  the model takes that comparison as the parameter \<open>lt_log2 l2 l1\<close>.
  \<open>std::is_floating_point<T>::value\<close> is false for the ring types modelled here.
\<close>

definition quot_rem :: "(int \<Rightarrow> int \<Rightarrow> bool) \<Rightarrow> 'a::{comm_ring_1,divide} polynom \<Rightarrow> 'a polynom \<Rightarrow> 'a polynom option" where
  "quot_rem lt_log2 p1 p2 =
     (let l1 = deg p1; l2 = deg p2;
          is_invertible = ((id_coeff p2 div at_p p2 l2) * at_p p2 l2 = id_coeff p2)
      in if l1 < 100 \<or> l2 < 50 \<or> lt_log2 l2 l1 \<or> \<not> is_invertible
         then Some (quot_rem_long p1 p2)
         else quot_rem_hensel p1 p2)"

text \<open>\<open>div(pr, p1, p2)\<close>: \<open>pr\<close> is the output object as it is before the call.\<close>

definition div_p :: "(int \<Rightarrow> int \<Rightarrow> bool) \<Rightarrow> 'a::{comm_ring_1,divide} polynom \<Rightarrow> 'a polynom \<Rightarrow> 'a polynom \<Rightarrow> 'a polynom option" where
  "div_p lt_log2 pr p1 p2 =
     (let l1 = deg p1; l2 = deg p2; lr = l1 - l2
      in if lr < 0 then Some (pr\<lparr>c := []\<rparr>)
         else
           (case quot_rem lt_log2 p1 p2 of
              None \<Rightarrow> None
            | Some pr1 \<Rightarrow>
                Some (resize
                  (fold (\<lambda>i pr. let (pr', v) = idx_get pr (i + l2) in idx_set pr' i v) [0..lr] pr1)
                  (nat (lr + 1)))))"

definition mod_p :: "(int \<Rightarrow> int \<Rightarrow> bool) \<Rightarrow> 'a::{comm_ring_1,divide} polynom \<Rightarrow> 'a polynom \<Rightarrow> 'a polynom option" where
  "mod_p lt_log2 p1 p2 =
     (let l1 = deg p1; l2 = deg p2; lr = l2 - 1
      in case quot_rem lt_log2 p1 p2 of
           None \<Rightarrow> None
         | Some pr \<Rightarrow> Some (if lr < l1 then resize pr (nat (lr + 1)) else pr))"

text \<open>\<open>operator/\<close> and \<open>operator%\<close>: \<open>div(t, t, rhs)\<close> and \<open>mod(t, t, rhs)\<close> on a copy \<open>t\<close>.\<close>

definition operator_div :: "(int \<Rightarrow> int \<Rightarrow> bool) \<Rightarrow> 'a::{comm_ring_1,divide} polynom \<Rightarrow> 'a polynom \<Rightarrow> 'a polynom option" where
  "operator_div lt_log2 p rhs = div_p lt_log2 p p rhs"

definition operator_mod :: "(int \<Rightarrow> int \<Rightarrow> bool) \<Rightarrow> 'a::{comm_ring_1,divide} polynom \<Rightarrow> 'a polynom \<Rightarrow> 'a polynom option" where
  "operator_mod lt_log2 p rhs = mod_p lt_log2 p rhs"

section \<open>Fast Fourier transform\<close>

text \<open>
  The ring \<open>T\<close> of the data and the ring \<open>R\<close> of the root (\<open>wroot\<close> below, as \<open>root\<close> is a constant of HOL) are the same type here, so the
  cast \<open>T(w)\<close> is the identity. The buffer is a list, a pointer into it is a position,
  and \<open>size\<close> is the separate argument it is in the code (a buffer length, hence \<open>nat\<close>).

  In \<open>fft\<close> the two inner loops test \<open>data0 != dataH\<close> and \<open>data0 != data + size\<close>.
  They are reached only when \<open>size\<close> is a power of two: then \<open>m\<close> divides \<open>size\<close>, and
  \<open>data0\<close> moves up in steps of one, resp. of \<open>m\<close>, until it is equal to the bound. The
  model writes both tests with \<open><\<close>, which is the same test on these states and makes
  the recursion well-founded; the middle loop also carries \<open>0 < h\<close>, which holds as
  \<open>h = m / 2\<close> and \<open>m > 1\<close>.
\<close>

function fft_inner :: "'a::ring_1 list \<Rightarrow> nat \<Rightarrow> 'a \<Rightarrow> nat \<Rightarrow> nat \<Rightarrow> 'a \<Rightarrow> 'a list \<times> nat" where
  "fft_inner data h wroot data0 dataH w =
     (if data0 < dataH then
        (let data1 = data0 + h;
             t = data ! data0 - data ! data1;
             data' = data[data0 := data ! data0 + data ! data1];
             data'' = data'[data1 := t * w]
         in fft_inner data'' h wroot (data0 + 1) dataH (w * wroot))
      else (data, data0))"
  by pat_completeness auto
termination
  by (relation "measure (\<lambda>(data, h, wroot, data0, dataH, w). dataH - data0)") auto

declare fft_inner.simps [simp del]

function fft_middle :: "'a::ring_1 list \<Rightarrow> nat \<Rightarrow> nat \<Rightarrow> 'a \<Rightarrow> nat \<Rightarrow> 'a list" where
  "fft_middle data sz h wroot data0 =
     (if data0 < sz \<and> 0 < h then
        (let (data', data0') = fft_inner data h wroot data0 (data0 + h) 1
         in fft_middle data' sz h wroot (data0' + h))
      else data)"
  by pat_completeness auto

lemma fft_inner_pos: "data0 \<le> snd (fft_inner data h wroot data0 dataH w)"
proof (induction data h wroot data0 dataH w rule: fft_inner.induct)
  case (1 data h wroot data0 dataH w)
  show ?case
  proof (cases "data0 < dataH")
    case True
    from "1.IH"[OF True refl refl refl refl] show ?thesis
      by (subst fft_inner.simps) (simp add: True Let_def)
  next
    case False
    then show ?thesis by (subst fft_inner.simps) simp
  qed
qed

termination fft_middle
proof (relation "measure (\<lambda>(data, sz, h, wroot, data0). sz - data0)", goal_cases)
  case 1
  show ?case by simp
next
  case (2 data sz h wroot data0 x xa y)
  have "data0 \<le> snd (fft_inner data h wroot data0 (data0 + h) 1)"
    by (rule fft_inner_pos)
  with 2 have "data0 \<le> y"
    by (metis snd_conv)
  with 2(1) show ?case by (simp, arith)
qed

declare fft_middle.simps [simp del]

function fft_outer :: "'a::ring_1 list \<Rightarrow> nat \<Rightarrow> nat \<Rightarrow> 'a \<Rightarrow> 'a list" where
  "fft_outer data sz m wroot =
     (if m > 1 then
        (let h = m div 2
         in fft_outer (fft_middle data sz h wroot 0) sz (m div 2) (wroot * wroot))
      else data)"
  by pat_completeness auto
termination
  by (relation "measure (\<lambda>(data, sz, m, wroot). m)") auto

declare fft_outer.simps [simp del]

text \<open>
  The bit reversal: \<open>for (int k = size / 2; (i ^= k) < k; k /= 2);\<close> advances \<open>i\<close> to the
  bit-reversed successor, and \<open>data[i]\<close> and \<open>data[j]\<close> are swapped when \<open>j < i\<close>.
\<close>

function fft_bitrev_next :: "nat \<Rightarrow> nat \<Rightarrow> nat" where
  "fft_bitrev_next i k = (let i' = i XOR k in if i' < k then fft_bitrev_next i' (k div 2) else i')"
  by pat_completeness auto
termination
  by (relation "measure (\<lambda>(i, k). k)") (auto simp: Let_def)

declare fft_bitrev_next.simps [simp del]

function fft_reorder :: "'a list \<Rightarrow> nat \<Rightarrow> nat \<Rightarrow> nat \<Rightarrow> 'a list" where
  "fft_reorder data sz i j =
     (if int j < int sz - 1 then
        (let i' = fft_bitrev_next i (sz div 2);
             data' = (if j < i' then data[i' := data ! j, j := data ! i'] else data)
         in fft_reorder data' sz i' (j + 1))
      else data)"
  by pat_completeness auto
termination
  by (relation "measure (\<lambda>(data, sz, i, j). sz - j)") auto

declare fft_reorder.simps [simp del]

definition fft :: "'a::ring_1 list \<Rightarrow> nat \<Rightarrow> 'a \<Rightarrow> 'a list" where
  "fft data sz wroot =
     (if (int sz AND (int sz - 1)) \<noteq> 0 then data
      else fft_reorder (fft_outer data sz sz wroot) sz 0 1)"

text \<open>
  \<open>fft_rec(dest, src, size, root, off)\<close> writes into a destination array that is not
  the source array: \<open>dest\<close> and \<open>src\<close> are the two buffers, \<open>d\<close> and \<open>s\<close> the positions
  the pointers \<open>dest\<close> and \<open>src\<close> have in them. The result is the destination buffer.
\<close>

function fft_rec :: "'a::ring_1 list \<Rightarrow> nat \<Rightarrow> 'a list \<Rightarrow> nat \<Rightarrow> nat \<Rightarrow> 'a \<Rightarrow> nat \<Rightarrow> 'a list" where
  "fft_rec dest d src s sz wroot off =
     (if sz \<le> 1 then dest[d := src ! s]
      else
        (let h = sz div 2;
             root2 = wroot * wroot;
             dest1 = fft_rec dest d src s h root2 (off * 2);
             dest2 = fft_rec dest1 (d + h) src (s + off) h root2 (off * 2)
         in fst (fold (\<lambda>i (dest, rooti).
                   let z = dest ! (d + i + h) * rooti;
                       dest' = dest[d + i + h := dest ! (d + i) - z];
                       dest'' = dest'[d + i := dest' ! (d + i) + z]
                   in (dest'', rooti * wroot)) [0..<h] (dest2, 1))))"
  by pat_completeness auto
termination
  by (relation "measure (\<lambda>(dest, d, src, s, sz, wroot, off). sz)") auto

declare fft_rec.simps [simp del]

text \<open>
  \<open>fft_cyclic_convolution\<close> swaps its three pointers as it goes; the model names the
  three arrays by the pointers' initial values and returns them as
  \<open>(dataR, data1, data2)\<close>. \<open>powT\<close> is the power of the ring.
\<close>

definition fft_cyclic_convolution ::
  "'a::{comm_ring_1,divide} list \<Rightarrow> 'a list \<Rightarrow> 'a list \<Rightarrow> nat \<Rightarrow> 'a \<Rightarrow> nat \<Rightarrow> 'a list \<times> 'a list \<times> 'a list" where
  "fft_cyclic_convolution dataR data1 data2 sz root_base root_order =
     (let wroot = root_base ^ (root_order div sz);
          iroot = wroot ^ (sz - 1);
          bufR = fft_rec dataR 0 data1 0 sz wroot 1;
          buf1 = fft_rec data1 0 data2 0 sz wroot 1;
          buf2 = fold (\<lambda>i b. b[i := bufR ! i * buf1 ! i]) [0..<sz] data2;
          e1 = 1;
          bufR' = fft_rec bufR 0 buf2 0 sz iroot 1;
          isize = e1 div of_nat sz
      in (fold (\<lambda>i b. b[i := b ! i * isize]) [0..<sz] bufR', buf1, buf2))"

section \<open>Degree and storage\<close>

lemma deg_loop_bounds: "0 \<le> deg_loop p i \<and> deg_loop p i \<le> max 0 i"
proof (induction p i rule: deg_loop.induct)
  case (1 p i)
  show ?case
  proof (cases "i > 0")
    case True
    then show ?thesis using 1 by (subst (1 2) deg_loop.simps) auto
  next
    case False
    then show ?thesis by (subst (1 2) deg_loop.simps) auto
  qed
qed

lemma deg_loop_zero_above: "deg_loop p i < j \<Longrightarrow> j \<le> i \<Longrightarrow> c p ! nat j = ZERO_COEFF p"
proof (induction p i rule: deg_loop.induct)
  case (1 p i)
  show ?case
  proof (cases "i > 0 \<and> c p ! nat i = ZERO_COEFF p")
    case True
    then have eq: "deg_loop p i = deg_loop p (i - 1)" by (subst deg_loop.simps) simp
    show ?thesis
    proof (cases "j = i")
      case True
      then show ?thesis using \<open>i > 0 \<and> c p ! nat i = ZERO_COEFF p\<close> by simp
    next
      case False
      then show ?thesis using 1 True eq by auto
    qed
  next
    case False
    then have "deg_loop p i = (if i > 0 then i else 0)" by (subst deg_loop.simps) auto
    then show ?thesis using 1(2,3) by (auto split: if_splits)
  qed
qed

lemma deg_loop_nz: "0 < deg_loop p i \<Longrightarrow> c p ! nat (deg_loop p i) \<noteq> ZERO_COEFF p"
proof (induction p i rule: deg_loop.induct)
  case (1 p i)
  show ?case
  proof (cases "i > 0 \<and> c p ! nat i = ZERO_COEFF p")
    case True
    then have eq: "deg_loop p i = deg_loop p (i - 1)" by (subst deg_loop.simps) simp
    then show ?thesis using 1 True by auto
  next
    case False
    then have "deg_loop p i = (if i > 0 then i else 0)" by (subst deg_loop.simps) auto
    then show ?thesis using 1(2) False by (auto split: if_splits)
  qed
qed

lemma deg_nonneg: "0 \<le> deg p"
  by (simp add: deg_def deg_loop_bounds)

lemma deg_less_size: "c p \<noteq> [] \<Longrightarrow> deg p < size_p p"
  using deg_loop_bounds[of p "size_p p - 1"] by (auto simp: deg_def size_p_def)

lemma deg_le: "deg p \<le> max 0 (size_p p - 1)"
  using deg_loop_bounds[of p "size_p p - 1"] by (simp add: deg_def)

lemma deg_empty: "c p = [] \<Longrightarrow> deg p = 0"
  using deg_le[of p] deg_nonneg[of p] by (simp add: size_p_def)

lemma at_above_deg: "deg p < i \<Longrightarrow> at_p p i = ZERO_COEFF p"
  using deg_loop_zero_above[of p "size_p p - 1" i] by (auto simp: deg_def at_p_def)

lemma at_deg_nz: "0 < deg p \<Longrightarrow> at_p p (deg p) \<noteq> ZERO_COEFF p"
  using deg_loop_nz[of p "size_p p - 1"] deg_le[of p] by (auto simp: deg_def at_p_def)

lemma at_shrink_to_fit: "at_p (shrink_to_fit p) i = at_p p i"
proof (cases "0 \<le> i \<and> i \<le> deg p")
  case True
  show ?thesis
  proof (cases "c p = []")
    case True
    then show ?thesis using \<open>0 \<le> i \<and> i \<le> deg p\<close>
      by (auto simp: shrink_to_fit_def at_p_def size_p_def vector_resize_def deg_empty)
  next
    case False
    with True deg_less_size[of p] show ?thesis
      by (auto simp: shrink_to_fit_def at_p_def size_p_def vector_resize_def nth_append)
  qed
next
  case False
  then consider "i < 0" | "deg p < i" by linarith
  then show ?thesis
  proof cases
    case 1
    then show ?thesis by (simp add: shrink_to_fit_def at_p_def)
  next
    case 2
    then have "at_p p i = ZERO_COEFF p" by (rule at_above_deg)
    moreover have "at_p (shrink_to_fit p) i = ZERO_COEFF p"
      using 2 deg_nonneg[of p] by (auto simp: shrink_to_fit_def at_p_def size_p_def vector_resize_def)
    ultimately show ?thesis by simp
  qed
qed

lemma size_shrink_to_fit: "size_p (shrink_to_fit p) = deg p + 1"
  using deg_nonneg[of p] deg_le[of p]
  by (auto simp: shrink_to_fit_def size_p_def vector_resize_def)

text \<open>
  Claim C5, as stated: \<open>resize\<close> and \<open>reserve\<close> only pad and never remove stored
  coefficients. \<open>resize(sz)\<close> is \<open>std::vector::resize\<close>: with \<open>sz\<close> below the size it
  removes the coefficients from position \<open>sz\<close> on, as here on \<open>{1, 2, 3}\<close> resized to one
  coefficient.
\<close>

theorem C5_resize_truncates:
  "c (resize (polynom_list [1, 2, 3 :: int]) 1) = [1]
   \<and> length (c (resize (polynom_list [1, 2, 3 :: int]) 1)) < length (c (polynom_list [1, 2, 3 :: int]))"
  by (simp add: resize_def polynom_list_def size_p_def vector_resize_def)

text \<open>
  Claim C5, amended: \<open>reserve(sz)\<close> keeps every stored coefficient and pads with
  \<open>ZERO_COEFF\<close> up to \<open>sz\<close>; \<open>resize(sz)\<close> keeps the first \<open>sz\<close> coefficients and pads
  with \<open>ZERO_COEFF\<close> up to \<open>sz\<close> (so it truncates when \<open>sz\<close> is below the size);
  \<open>shrink_to_fit\<close> leaves exactly \<open>deg() + 1\<close> coefficients and changes no coefficient
  as \<open>at\<close> reads it.
\<close>

theorem C5_storage:
  "c (reserve p sz) = c p @ replicate (nat sz - length (c p)) (ZERO_COEFF p)
   \<and> c (resize p n) = take n (c p) @ replicate (n - length (c p)) (ZERO_COEFF p)
   \<and> size_p (shrink_to_fit p) = deg p + 1
   \<and> (\<forall>i. at_p (shrink_to_fit p) i = at_p p i)"
  by (auto simp: reserve_def resize_def vector_resize_def size_p_def at_shrink_to_fit
        size_shrink_to_fit[unfolded size_p_def])

section \<open>Degenerate results of inverse and division\<close>

text \<open>
  On a polynomial with a stored constant term equal to the contextual zero, \<open>inverse\<close>
  returns (it does not fail or loop) the polynomial \<open>{ZERO_COEFF}\<close>, for every bound \<open>L\<close>.
\<close>

lemma inverse_zero_constant_term:
  assumes "c p \<noteq> []" and "at_p p 0 = ZERO_COEFF p"
  shows "inverse_call p L = Inr (Some \<lparr>ZERO_COEFF = 0, c = [ZERO_COEFF p]\<rparr>)"
proof -
  from assms have "c p ! 0 = ZERO_COEFF p"
    by (simp add: at_p_def size_p_def)
  then have "inverse_p p L = Some \<lparr>ZERO_COEFF = 0, c = [ZERO_COEFF p]\<rparr>"
    by (subst inverse_p.simps) (simp add: polynom_list_def make_zero_def)
  then show ?thesis using assms(1) by (simp add: inverse_call_def)
qed

text \<open>
  Claim C8 on the polynomial without coefficients. \<open>mod\<close> returns it for a constant
  divisor (here \<open>(1 + 2x) % 1\<close>), and \<open>div\<close> when the dividend is shorter. Its constant
  term \<open>at(0)\<close> is the contextual zero, and \<open>inverse\<close> reads \<open>c[0]\<close> out of range on it
  instead of returning the zero polynomial.
\<close>

theorem C8_inverse_empty:
  "mod_p (\<lambda>_ _. False) (polynom_list [1, 2 :: int]) (polynom_list [1]) = Some \<lparr>ZERO_COEFF = 0, c = []\<rparr>
   \<and> at_p \<lparr>ZERO_COEFF = 0 :: int, c = []\<rparr> 0 = ZERO_COEFF \<lparr>ZERO_COEFF = 0 :: int, c = []\<rparr>
   \<and> inverse_call \<lparr>ZERO_COEFF = 0 :: int, c = []\<rparr> 1 = Inl OutOfRange"
proof -
  have "mod_p (\<lambda>_ _. False) (polynom_list [1, 2 :: int]) (polynom_list [1]) = Some \<lparr>ZERO_COEFF = 0, c = []\<rparr>"
    by code_simp
  then show ?thesis
    by (simp add: at_p_def size_p_def inverse_call_def)
qed

lemma quot_rem_short:
  assumes "deg p1 < deg p2"
  shows "quot_rem lt p1 p2 = Some p1"
  using assms by (simp add: quot_rem_def quot_rem_long_def quot_rem_hensel_def Let_def)

text \<open>
  Claim C9: when \<open>deg(p1) < deg(p2)\<close>, \<open>div\<close> clears the output, which then reads as
  the contextual zero at every index, and \<open>mod\<close> returns \<open>p1\<close> unchanged, whatever the
  heuristic of \<open>quot_rem\<close> chooses.
\<close>

theorem C9_short_dividend:
  assumes "deg p1 < deg p2"
  shows "div_p lt pr p1 p2 = Some (pr\<lparr>c := []\<rparr>)
         \<and> (\<forall>i. at_p (pr\<lparr>c := []\<rparr>) i = ZERO_COEFF pr)
         \<and> mod_p lt p1 p2 = Some p1"
  using assms by (auto simp: div_p_def mod_p_def quot_rem_short Let_def at_p_def size_p_def)

theorem C9_witness:
  "deg (polynom_list [1, 2 :: int]) < deg (polynom_list [1, 0, 3 :: int])
   \<and> div_p (\<lambda>_ _. False) (polynom_list [7 :: int]) (polynom_list [1, 2]) (polynom_list [1, 0, 3])
       = Some \<lparr>ZERO_COEFF = 0, c = []\<rparr>
   \<and> mod_p (\<lambda>_ _. False) (polynom_list [1, 2 :: int]) (polynom_list [1, 0, 3]) = Some (polynom_list [1, 2])"
proof -
  have h: "deg (polynom_list [1, 2 :: int]) < deg (polynom_list [1, 0, 3 :: int])"
    by code_simp
  from C9_short_dividend[OF h, of "\<lambda>_ _. False" "polynom_list [7 :: int]"] h show ?thesis
    by (simp add: polynom_list_def make_zero_def)
qed

section \<open>The power-of-two guard of the transform\<close>

lemma pow2_of_and_zero:
  fixes n :: nat
  shows "0 < n \<Longrightarrow> n AND (n - 1) = 0 \<Longrightarrow> \<exists>k. n = 2 ^ k"
proof (induction n rule: less_induct)
  case (less n)
  show ?case
  proof (cases "n = 1")
    case True
    then have "n = 2 ^ 0" by simp
    then show ?thesis by blast
  next
    case False
    with less.prems have n2: "2 \<le> n" by simp
    have ev: "even n"
    proof (rule ccontr)
      assume "odd n"
      then obtain a where a: "n = 2 * a + 1" by (auto elim: oddE)
      with n2 have "1 \<le> a" by simp
      have "n AND (n - 1) = (2 * a + 1) AND (2 * a)" using a by simp
      also have "\<dots> = 2 * (a AND a)"
        by (subst and_nat_unfold) (simp add: \<open>1 \<le> a\<close>)
      finally show False using less.prems(2) \<open>1 \<le> a\<close> by simp
    qed
    then obtain a where a: "n = 2 * a" by (auto elim: evenE)
    with n2 have a1: "1 \<le> a" by simp
    have "n - 1 = 2 * (a - 1) + 1" using a a1 by simp
    then have "n AND (n - 1) = (2 * a) AND (2 * (a - 1) + 1)" using a by simp
    also have "\<dots> = 2 * (a AND (a - 1))"
      by (subst and_nat_unfold) (use a1 in simp)
    finally have "a AND (a - 1) = 0" using less.prems(2) by simp
    moreover have "a < n" using a a1 by simp
    ultimately obtain k where "a = 2 ^ k" using less.IH[of a] a1 by auto
    then have "n = 2 ^ (Suc k)" using a by simp
    then show ?thesis by blast
  qed
qed

lemma fft_guard:
  assumes "\<forall>k. sz \<noteq> 2 ^ k" and "0 < sz"
  shows "(int sz AND (int sz - 1)) \<noteq> 0"
proof
  assume z: "int sz AND (int sz - 1) = 0"
  have "int (sz AND (sz - 1)) = int sz AND int (sz - 1)"
    by (rule of_nat_and_eq)
  also have "int (sz - 1) = int sz - 1"
    using assms(2) by (simp add: of_nat_diff)
  finally have "int (sz AND (sz - 1)) = 0"
    using z by simp
  then have "sz AND (sz - 1) = 0"
    by (simp only: of_nat_eq_0_iff)
  with pow2_of_and_zero[OF assms(2)] assms(1) show False by blast
qed

text \<open>
  Claim C7, as stated, covers every transform call. \<open>fft_rec\<close> has no guard: on a
  source of length \<open>3\<close> it writes the first two positions of the destination.
\<close>

theorem C7_fft_rec_writes:
  "fft_rec [0, 0, 0] 0 [1, 2, 3 :: int] 0 3 1 1 = [3, - 1, 0]"
  by code_simp

text \<open>
  Claim C7, amended: the in-place transform \<open>fft\<close> returns the buffer unchanged when
  its length is not a power of two.
\<close>

theorem C7_fft_not_power_of_two:
  assumes "\<forall>k. sz \<noteq> 2 ^ k"
  shows "fft data sz wroot = data"
proof (cases "sz = 0")
  case True
  have 1: "fft_outer data 0 0 wroot = data"
    by (subst fft_outer.simps) simp
  have 2: "fft_reorder data 0 0 1 = data"
    by (subst fft_reorder.simps) simp
  from True 1 2 show ?thesis
    by (simp add: fft_def)
next
  case False
  with fft_guard[OF assms] show ?thesis by (simp add: fft_def)
qed

theorem C7_witness:
  "(\<forall>k. (6::nat) \<noteq> 2 ^ k) \<and> fft [1, 2, 3, 4, 5, 6 :: int] 6 1 = [1, 2, 3, 4, 5, 6]"
proof -
  have h: "\<forall>k. (6::nat) \<noteq> 2 ^ k"
  proof
    fix k :: nat
    show "(6::nat) \<noteq> 2 ^ k"
    proof
      assume e: "(6::nat) = 2 ^ k"
      have "k < 3"
      proof (rule ccontr)
        assume "\<not> k < 3"
        then have "(2::nat) ^ 3 \<le> 2 ^ k" by (intro power_increasing) auto
        with e show False by simp
      qed
      then consider "k = 0" | "k = 1" | "k = 2" by linarith
      then show False using e by cases auto
    qed
  qed
  with C7_fft_not_power_of_two[OF h, of "[1, 2, 3, 4, 5, 6 :: int]" 1] show ?thesis by simp
qed

section \<open>Coefficient sequences and their product\<close>

text \<open>
  The specification of the multiplication kernels: a coefficient array is read as a
  function from positions to coefficients, and \<open>conv f g n\<close> is coefficient \<open>n\<close> of the
  product of two such sequences.
\<close>

definition conv :: "(nat \<Rightarrow> 'a::semiring_0) \<Rightarrow> (nat \<Rightarrow> 'a) \<Rightarrow> nat \<Rightarrow> 'a" where
  "conv f g n = (\<Sum>j\<le>n. f j * g (n - j))"

definition shift :: "nat \<Rightarrow> (nat \<Rightarrow> 'a::zero) \<Rightarrow> nat \<Rightarrow> 'a" where
  "shift k f n = (if n < k then 0 else f (n - k))"

definition trunc :: "nat \<Rightarrow> (nat \<Rightarrow> 'a::zero) \<Rightarrow> nat \<Rightarrow> 'a" where
  "trunc k f n = (if n < k then f n else 0)"

lemma conv_cong:
  assumes "\<And>j. j \<le> n \<Longrightarrow> f j = f' j" and "\<And>j. j \<le> n \<Longrightarrow> g j = g' j"
  shows "conv f g n = conv f' g' n"
  unfolding conv_def by (rule sum.cong) (simp_all add: assms)

lemma conv_comm: "conv f g n = conv g (f :: nat \<Rightarrow> 'a::comm_semiring_0) n"
proof -
  have "(\<Sum>j\<le>n. f j * g (n - j)) = (\<Sum>j\<le>n. f (n - j) * g (n - (n - j)))"
    by (rule sum.reindex_bij_witness[where i = "\<lambda>j. n - j" and j = "\<lambda>j. n - j"]) auto
  also have "\<dots> = (\<Sum>j\<le>n. g j * f (n - j))"
    by (rule sum.cong) (simp_all add: mult.commute)
  finally show ?thesis by (simp add: conv_def)
qed

lemma conv_add_left: "conv (\<lambda>j. f j + f' j) g n = conv f g n + conv f' g n"
  by (simp add: conv_def distrib_right sum.distrib)

lemma conv_add_right: "conv f (\<lambda>j. g j + g' j) n = conv f g n + conv f g' n"
  by (simp add: conv_def distrib_left sum.distrib)

lemma conv_diff_left: "conv (\<lambda>j. f j - f' j) g n = conv f g n - conv f' (g :: nat \<Rightarrow> 'a::ring) n"
  by (simp add: conv_def left_diff_distrib sum_subtractf)

lemma conv_diff_right: "conv f (\<lambda>j. g j - g' j) n = conv f g n - conv f (g' :: nat \<Rightarrow> 'a::ring) n"
  by (simp add: conv_def right_diff_distrib sum_subtractf)

lemma conv_zero_left: "(\<And>j. j \<le> n \<Longrightarrow> f j = 0) \<Longrightarrow> conv f g n = 0"
  by (simp add: conv_def)

lemma conv_zero_right: "(\<And>j. j \<le> n \<Longrightarrow> g j = 0) \<Longrightarrow> conv f g n = 0"
  by (simp add: conv_def)

lemma conv_shift_left: "conv (shift k f) g n = (if n < k then 0 else conv f g (n - k))"
proof (cases "n < k")
  case True
  then show ?thesis by (simp add: conv_def shift_def)
next
  case False
  have "(\<Sum>j\<le>n. shift k f j * g (n - j)) = (\<Sum>j\<in>{k..n}. shift k f j * g (n - j))"
    by (rule sum.mono_neutral_right) (auto simp: shift_def)
  also have "\<dots> = (\<Sum>j\<le>n - k. f j * g (n - k - j))"
    by (rule sum.reindex_bij_witness[where i = "\<lambda>j. j + k" and j = "\<lambda>j. j - k"])
       (use False in \<open>auto simp: shift_def\<close>)
  finally show ?thesis using False by (simp add: conv_def)
qed

lemma conv_shift_right: "conv f (shift k g) n = (if n < k then 0 else conv f g (n - k))"
proof (cases "n < k")
  case True
  then have "n - j < k" for j by arith
  then have "shift k g (n - j) = 0" for j by (simp add: shift_def)
  then show ?thesis using True by (simp add: conv_def)
next
  case False
  have "(\<Sum>j\<le>n. f j * shift k g (n - j)) = (\<Sum>j\<le>n - k. f j * shift k g (n - j))"
    by (rule sum.mono_neutral_right) (use False in \<open>auto simp: shift_def\<close>)
  also have "\<dots> = (\<Sum>j\<le>n - k. f j * g (n - k - j))"
    by (rule sum.cong) (use False in \<open>auto simp: shift_def add.commute\<close>)
  finally show ?thesis using False by (simp add: conv_def)
qed

lemma conv_support:
  assumes "\<And>j. a < j \<Longrightarrow> f j = 0" and "\<And>j. b < j \<Longrightarrow> g j = 0" and "a + b < n"
  shows "conv f g n = 0"
  unfolding conv_def
proof (rule sum.neutral, rule ballI)
  fix j assume "j \<in> {..n}"
  show "f j * g (n - j) = 0"
  proof (cases "a < j")
    case True
    then show ?thesis by (simp add: assms(1))
  next
    case False
    with assms(3) have "b < n - j" by simp
    then show ?thesis by (simp add: assms(2))
  qed
qed

lemma split_trunc_shift: "(f n :: 'a::monoid_add) = trunc k f n + shift k (\<lambda>j. f (j + k)) n"
  by (simp add: trunc_def shift_def)

lemma sum_triangle:
  fixes F :: "nat \<Rightarrow> nat \<Rightarrow> 'a::comm_monoid_add"
  shows "(\<Sum>i\<le>n. \<Sum>j\<le>i. F j (i - j)) = (\<Sum>j\<le>n. \<Sum>t\<le>n - j. F j t)"
proof -
  have "(\<Sum>i\<le>n. \<Sum>j\<le>i. F j (i - j)) = (\<Sum>(i, j)\<in>(SIGMA i:{..n}. {..i}). F j (i - j))"
    by (simp add: sum.Sigma)
  also have "\<dots> = (\<Sum>(j, t)\<in>(SIGMA j:{..n}. {..n - j}). F j t)"
    by (rule sum.reindex_bij_witness[where i = "\<lambda>(j, t). (j + t, j)" and j = "\<lambda>(i, j). (j, i - j)"]) auto
  also have "\<dots> = (\<Sum>j\<le>n. \<Sum>t\<le>n - j. F j t)"
    by (simp add: sum.Sigma)
  finally show ?thesis .
qed

lemma conv_assoc: "conv (conv f g) h n = conv f (conv g (h :: nat \<Rightarrow> 'a::semiring_0)) n"
proof -
  have "conv (conv f g) h n = (\<Sum>i\<le>n. \<Sum>j\<le>i. f j * g (i - j) * h (n - i))"
    by (simp add: conv_def sum_distrib_right)
  also have "\<dots> = (\<Sum>i\<le>n. \<Sum>j\<le>i. f j * g (i - j) * h (n - j - (i - j)))"
    by (intro sum.cong refl) simp
  also have "\<dots> = (\<Sum>j\<le>n. \<Sum>t\<le>n - j. f j * g t * h (n - j - t))"
    by (rule sum_triangle[where F = "\<lambda>j t. f j * g t * h (n - j - t)"])
  also have "\<dots> = conv f (conv g h) n"
    by (simp add: conv_def sum_distrib_left mult.assoc)
  finally show ?thesis .
qed

definition delta :: "nat \<Rightarrow> 'a::zero_neq_one" where
  "delta n = (if n = 0 then 1 else 0)"

lemma conv_delta_left: "conv delta g n = (g n :: 'a::semiring_1)"
proof -
  have "(\<Sum>j\<le>n. delta j * g (n - j)) = (\<Sum>j\<in>{0}. delta j * g (n - j))"
    by (rule sum.mono_neutral_right) (auto simp: delta_def)
  then show ?thesis by (simp add: conv_def delta_def)
qed

lemma conv_scale_left: "conv (\<lambda>j. a * f j) g n = a * conv f g (n :: nat)"
  by (simp add: conv_def sum_distrib_left mult.assoc)

lemma conv_scale_right: "conv f (\<lambda>j. g j * a) n = conv f g (n :: nat) * a"
  by (simp add: conv_def sum_distrib_right mult.assoc)

section \<open>Blocks of a buffer\<close>

definition blkupd :: "'a list \<Rightarrow> nat \<Rightarrow> nat \<Rightarrow> (nat \<Rightarrow> 'a) \<Rightarrow> 'a list" where
  "blkupd xs ofs n f = map (\<lambda>a. if ofs \<le> a \<and> a < ofs + n then f (a - ofs) else xs ! a) [0..<length xs]"

definition memupd :: "'a mem \<Rightarrow> nat \<Rightarrow> nat \<Rightarrow> nat \<Rightarrow> (nat \<Rightarrow> 'a) \<Rightarrow> 'a mem" where
  "memupd m b ofs n f = m[b := blkupd (m ! b) ofs n f]"

lemma length_blkupd [simp]: "length (blkupd xs ofs n f) = length xs"
  by (simp add: blkupd_def)

lemma nth_beyond: "length xs = length ys \<Longrightarrow> length xs \<le> k \<Longrightarrow> xs ! k = ys ! k"
proof (induction xs ys arbitrary: k rule: list_induct2)
  case Nil
  show ?case by simp
next
  case (Cons x xs y ys)
  then obtain k' where "k = Suc k'" by (cases k) auto
  with Cons show ?case by simp
qed

lemma nth_blkupd:
  "blkupd xs ofs n f ! a = (if ofs \<le> a \<and> a < ofs + n \<and> a < length xs then f (a - ofs) else xs ! a)"
proof (cases "a < length xs")
  case True
  then show ?thesis by (simp add: blkupd_def)
next
  case False
  then have "blkupd xs ofs n f ! a = xs ! a"
    by (intro nth_beyond) simp_all
  with False show ?thesis by simp
qed

lemma nth_list_update_if: "xs[i := x] ! j = (if i = j \<and> i < length xs then x else xs ! j)"
  by (cases "i < length xs") (auto simp: nth_list_update list_update_beyond)

lemma blkupd_0 [simp]: "blkupd xs ofs 0 f = xs"
  by (rule nth_equalityI) (auto simp: nth_blkupd)

lemma blkupd_cong:
  "(\<And>i. i < n \<Longrightarrow> ofs + i < length xs \<Longrightarrow> f i = g i) \<Longrightarrow> blkupd xs ofs n f = blkupd xs ofs n g"
  by (rule nth_equalityI) (auto simp: nth_blkupd)

lemma blkupd_Suc: "blkupd xs ofs (Suc n) f = (blkupd xs ofs n f)[ofs + n := f n]"
proof (rule nth_equalityI)
  fix i assume "i < length (blkupd xs ofs (Suc n) f)"
  then show "blkupd xs ofs (Suc n) f ! i = (blkupd xs ofs n f)[ofs + n := f n] ! i"
    by (cases "i = ofs + n") (auto simp: nth_blkupd nth_list_update_if)
qed simp

lemma blkupd_Suc_top: "blkupd xs ofs (Suc n) f = blkupd (xs[ofs + n := f n]) ofs n f"
proof (rule nth_equalityI)
  fix i assume "i < length (blkupd xs ofs (Suc n) f)"
  then show "blkupd xs ofs (Suc n) f ! i = blkupd (xs[ofs + n := f n]) ofs n f ! i"
    by (cases "i = ofs + n") (auto simp: nth_blkupd nth_list_update_if)
qed simp

lemma length_memupd [simp]: "length (memupd m b ofs n f) = length m"
  by (simp add: memupd_def)

lemma nth_memupd:
  "memupd m b ofs n f ! b' = (if b' = b \<and> b < length m then blkupd (m ! b) ofs n f else m ! b')"
  by (cases "b < length m") (auto simp: memupd_def list_update_beyond)

lemma memupd_0 [simp]: "memupd m b ofs 0 f = m"
  by (simp add: memupd_def)

lemma memupd_cong:
  assumes "\<And>i. i < n \<Longrightarrow> f i = g i"
  shows "memupd m b ofs n f = memupd m b ofs n g"
proof -
  have "blkupd (m ! b) ofs n f = blkupd (m ! b) ofs n g"
    by (rule blkupd_cong) (simp add: assms)
  then show ?thesis by (simp add: memupd_def)
qed

lemma memupd_append:
  "b < length m \<Longrightarrow> memupd (m @ ys) b ofs n f = memupd m b ofs n f @ ys"
  by (simp add: memupd_def list_update_append nth_append)

lemma memupd_last:
  "memupd (m @ [x]) (length m) ofs n f = m @ [blkupd x ofs n f]"
  by (simp add: memupd_def)

lemma wr_alt: "wr m p i v = m[fst p := (m ! fst p)[snd p + nat i := v]]"
  by (simp add: wr_def)

text \<open>A loop of writes at increasing positions.\<close>

lemma fold_writes_up:
  assumes "\<And>i. i < n \<Longrightarrow> g (memupd m b ofs i f) i = f i"
  shows "fold (\<lambda>i m. m[b := (m ! b)[ofs + i := g m i]]) [0..<n] m = memupd m b ofs n f"
  using assms
proof (induction n)
  case 0
  show ?case by simp
next
  case (Suc n)
  have "fold (\<lambda>i m. m[b := (m ! b)[ofs + i := g m i]]) [0..<n] m = memupd m b ofs n f"
    by (rule Suc.IH) (simp add: Suc.prems)
  moreover have "g (memupd m b ofs n f) n = f n"
    by (simp add: Suc.prems)
  ultimately show ?case
    by (cases "b < length m") (simp_all add: memupd_def blkupd_Suc list_update_beyond)
qed

text \<open>A loop of writes at decreasing positions.\<close>

lemma fold_writes_down:
  assumes "\<And>i. i < n \<Longrightarrow> g (memupd m b (ofs + Suc i) (n - Suc i) (\<lambda>j. f (j + Suc i))) i = f i"
  shows "fold (\<lambda>i m. m[b := (m ! b)[ofs + i := g m i]]) (rev [0..<n]) m = memupd m b ofs n f"
  using assms
proof (induction n arbitrary: m)
  case 0
  show ?case by simp
next
  case (Suc n)
  have top: "g m n = f n"
    using Suc.prems[of n] by simp
  define m' where "m' = m[b := (m ! b)[ofs + n := f n]]"
  have step: "memupd m' b (ofs + Suc i) (n - Suc i) (\<lambda>j. f (j + Suc i))
      = memupd m b (ofs + Suc i) (Suc n - Suc i) (\<lambda>j. f (j + Suc i))" if "i < n" for i
  proof -
    define d where "d = n - Suc i"
    from that have d: "n - Suc i = d" "Suc n - Suc i = Suc d" "ofs + Suc i + d = ofs + n" "d + Suc i = n"
      by (simp_all add: d_def)
    have "blkupd (m ! b) (ofs + Suc i) (Suc d) (\<lambda>j. f (j + Suc i))
        = blkupd ((m ! b)[ofs + Suc i + d := f (d + Suc i)]) (ofs + Suc i) d (\<lambda>j. f (j + Suc i))"
      by (rule blkupd_Suc_top)
    then have "blkupd (m ! b) (ofs + Suc i) (Suc d) (\<lambda>j. f (j + Suc i))
        = blkupd ((m ! b)[ofs + n := f n]) (ofs + Suc i) d (\<lambda>j. f (j + Suc i))"
      by (simp only: d)
    then show ?thesis
      unfolding d memupd_def m'_def
      by (cases "b < length m") (simp_all add: list_update_beyond)
  qed
  have "fold (\<lambda>i m. m[b := (m ! b)[ofs + i := g m i]]) (rev [0..<n]) m' = memupd m' b ofs n f"
  proof (rule Suc.IH)
    fix i assume "i < n"
    then show "g (memupd m' b (ofs + Suc i) (n - Suc i) (\<lambda>j. f (j + Suc i))) i = f i"
      using Suc.prems[of i] step by simp
  qed
  also have "\<dots> = memupd m b ofs (Suc n) f"
    by (cases "b < length m") (simp_all add: memupd_def m'_def blkupd_Suc_top list_update_beyond)
  finally show ?case
    by (simp add: top m'_def)
qed

lemma upto_nat: "[a..a + int n - 1] = map (\<lambda>i. a + int i) [0..<n]"
proof (induction n)
  case 0
  show ?case by simp
next
  case (Suc n)
  have "[a..a + int (Suc n) - 1] = [a..a + int n]"
    by (simp add: algebra_simps)
  also have "\<dots> = [a..a + int n - 1] @ [a + int n]"
    by (subst upto_rec2) simp_all
  finally show ?case
    by (simp add: Suc.IH)
qed

lemma upto_as_upt: "[a..b] = map (\<lambda>i. a + int i) [0..<nat (b - a + 1)]"
proof (cases "a \<le> b")
  case True
  then have "b = a + int (nat (b - a + 1)) - 1" by simp
  then show ?thesis using upto_nat[of a "nat (b - a + 1)"] by metis
next
  case False
  then show ?thesis by simp
qed

section \<open>The loops over a buffer\<close>

definition cf :: "'a::zero mem \<Rightarrow> ptr \<Rightarrow> int \<Rightarrow> nat \<Rightarrow> 'a" where
  "cf m p l j = (if int j \<le> l then m ! fst p ! (snd p + j) else 0)"

definition alias_ok :: "ptr \<Rightarrow> ptr \<Rightarrow> bool" where
  "alias_ok pr p = (fst p = fst pr \<longrightarrow> snd p = snd pr)"

lemma fold_wr_up:
  assumes "0 \<le> a"
    and "\<And>i. i < nat (b - a + 1) \<Longrightarrow> g (memupd m (fst pr) (snd pr + nat a) i f) (a + int i) = f i"
  shows "fold (\<lambda>i m. wr m pr i (g m i)) [a..b] m = memupd m (fst pr) (snd pr + nat a) (nat (b - a + 1)) f"
proof -
  have "fold (\<lambda>i m. wr m pr i (g m i)) [a..b] m
      = fold (\<lambda>i m. m[fst pr := (m ! fst pr)[snd pr + nat a + i := g m (a + int i)]]) [0..<nat (b - a + 1)] m"
    using assms(1) by (simp add: upto_as_upt fold_map comp_def wr_def nat_add_distrib add.assoc)
  also have "\<dots> = memupd m (fst pr) (snd pr + nat a) (nat (b - a + 1)) f"
    by (rule fold_writes_up[where g = "\<lambda>m i. g m (a + int i)"]) (use assms(2) in simp)
  finally show ?thesis .
qed

lemma fold_wr_down:
  assumes "0 \<le> a"
    and "\<And>i. i < nat (b - a + 1) \<Longrightarrow>
           g (memupd m (fst pr) (snd pr + nat a + Suc i) (nat (b - a + 1) - Suc i) (\<lambda>j. f (j + Suc i))) (a + int i) = f i"
  shows "fold (\<lambda>i m. wr m pr i (g m i)) (rev [a..b]) m = memupd m (fst pr) (snd pr + nat a) (nat (b - a + 1)) f"
proof -
  have "fold (\<lambda>i m. wr m pr i (g m i)) (rev [a..b]) m
      = fold (\<lambda>i m. m[fst pr := (m ! fst pr)[snd pr + nat a + i := g m (a + int i)]]) (rev [0..<nat (b - a + 1)]) m"
    using assms(1) by (simp add: upto_as_upt rev_map fold_map comp_def wr_def nat_add_distrib add.assoc)
  also have "\<dots> = memupd m (fst pr) (snd pr + nat a) (nat (b - a + 1)) f"
    by (rule fold_writes_down[where g = "\<lambda>m i. g m (a + int i)"]) (use assms(2) in simp)
  finally show ?thesis .
qed

lemma u_zero_eq:
  assumes "- 1 \<le> lm"
  shows "u_zero m pr lm lr z = memupd m (fst pr) (snd pr + nat (lm + 1)) (nat (lr - lm)) (\<lambda>_. z)"
proof -
  have "fold (\<lambda>i m. wr m pr i z) [lm + 1..lr] m
      = memupd m (fst pr) (snd pr + nat (lm + 1)) (nat (lr - (lm + 1) + 1)) (\<lambda>_. z)"
    by (rule fold_wr_up) (use assms in simp_all)
  then show ?thesis by (simp add: u_zero_def)
qed

lemma rd_memupd_other:
  "fst p \<noteq> b \<Longrightarrow> rd (memupd m b ofs n f) p i = rd m p i"
  by (simp add: rd_def nth_memupd)

lemma rd_memupd_below:
  "snd p + nat i < ofs \<Longrightarrow> rd (memupd m (fst p) ofs n f) p i = rd m p i"
  by (simp add: rd_def nth_memupd nth_blkupd)

lemma rd_memupd_above:
  "ofs + n \<le> snd p + nat i \<Longrightarrow> rd (memupd m (fst p) ofs n f) p i = rd m p i"
  by (simp add: rd_def nth_memupd nth_blkupd)

lemma u_add_to_eq:
  assumes "fst p2 \<noteq> fst pr"
  shows "u_add_to m pr p2 l2
       = memupd m (fst pr) (snd pr) (nat (l2 + 1)) (\<lambda>i. m ! fst pr ! (snd pr + i) + m ! fst p2 ! (snd p2 + i))"
proof -
  have "fold (\<lambda>i m. wr m pr i (rd m pr i + rd m p2 i)) [0..l2] m
      = memupd m (fst pr) (snd pr + nat 0) (nat (l2 - 0 + 1)) (\<lambda>i. m ! fst pr ! (snd pr + i) + m ! fst p2 ! (snd p2 + i))"
    by (rule fold_wr_up) (use assms in \<open>simp_all add: rd_memupd_other rd_memupd_above, simp add: rd_def\<close>)
  then show ?thesis by (simp add: u_add_to_def)
qed

lemma u_sub_from_eq:
  assumes "fst p2 \<noteq> fst pr"
  shows "u_sub_from m pr p2 l2
       = memupd m (fst pr) (snd pr) (nat (l2 + 1)) (\<lambda>i. m ! fst pr ! (snd pr + i) - m ! fst p2 ! (snd p2 + i))"
proof -
  have "fold (\<lambda>i m. wr m pr i (rd m pr i - rd m p2 i)) [0..l2] m
      = memupd m (fst pr) (snd pr + nat 0) (nat (l2 - 0 + 1)) (\<lambda>i. m ! fst pr ! (snd pr + i) - m ! fst p2 ! (snd p2 + i))"
    by (rule fold_wr_up) (use assms in \<open>simp_all add: rd_memupd_other rd_memupd_above, simp add: rd_def\<close>)
  then show ?thesis by (simp add: u_sub_from_def)
qed

text \<open>Reading an input while the output is written from the top down.\<close>

lemma rd_alias_down:
  assumes "alias_ok pr p" and "snd pr + nat j < ofs"
  shows "rd (memupd m (fst pr) ofs n f) p j = rd m p j"
proof (cases "fst p = fst pr")
  case True
  with assms(1) have "snd p = snd pr" by (simp add: alias_ok_def)
  with True assms(2) show ?thesis
    by (simp add: rd_def nth_memupd nth_blkupd)
next
  case False
  then show ?thesis by (rule rd_memupd_other)
qed

lemma fold_sum: "fold (\<lambda>j r. r + F j) xs r0 = (r0 :: 'a::comm_monoid_add) + sum_list (map F xs)"
  by (induction xs arbitrary: r0) (simp_all add: add.assoc)

lemma inner_sum:
  "fold (\<lambda>j r. r + F j) (rev [a..b]) (0 :: 'a::comm_monoid_add) = (\<Sum>j\<in>{a..b}. F j)"
proof -
  have "fold (\<lambda>j r. r + F j) (rev [a..b]) 0 = sum_list (map F (rev [a..b]))"
    by (simp add: fold_sum)
  also have "\<dots> = sum_list (map F [a..b])"
    by (simp add: rev_map[symmetric])
  also have "\<dots> = (\<Sum>j\<in>{a..b}. F j)"
    using sum_set_upto_conv_sum_list_int[of F a b] by simp
  finally show ?thesis .
qed

lemma conv_cf:
  "(\<Sum>j\<in>{max 0 (int n - l2)..min (int n) l1}. rd m p1 j * rd m p2 (int n - j))
     = conv (cf m p1 l1) (cf m p2 l2) n"
proof -
  have "conv (cf m p1 l1) (cf m p2 l2) n
      = (\<Sum>j\<in>{j. j \<le> n \<and> int j \<le> l1 \<and> int n - int j \<le> l2}. cf m p1 l1 j * cf m p2 l2 (n - j))"
    unfolding conv_def by (rule sum.mono_neutral_right) (auto simp: cf_def of_nat_diff)
  also have "\<dots> = (\<Sum>j\<in>{max 0 (int n - l2)..min (int n) l1}. rd m p1 j * rd m p2 (int n - j))"
    by (rule sum.reindex_bij_witness[where i = nat and j = int])
       (auto simp: cf_def rd_def nat_diff_distrib of_nat_diff)
  finally show ?thesis by simp
qed

lemma u_mul_long_eq:
  assumes "alias_ok pr p1" and "alias_ok pr p2"
  shows "u_mul_long m pr lr p1 l1 p2 l2
       = memupd m (fst pr) (snd pr) (nat (lr + 1)) (conv (cf m p1 l1) (cf m p2 l2))"
proof -
  let ?g = "\<lambda>m i. \<Sum>j\<in>{max 0 (i - l2)..min i l1}. rd m p1 j * rd m p2 (i - j)"
  have "u_mul_long m pr lr p1 l1 p2 l2 = fold (\<lambda>i m. wr m pr i (?g m i)) (rev [0..lr]) m"
    by (simp add: u_mul_long_def inner_sum Let_def)
  also have "\<dots> = memupd m (fst pr) (snd pr + nat 0) (nat (lr - 0 + 1)) (conv (cf m p1 l1) (cf m p2 l2))"
  proof (rule fold_wr_down)
    fix i assume "i < nat (lr - 0 + 1)"
    define m' where "m' = memupd m (fst pr) (snd pr + nat 0 + Suc i) (nat (lr - 0 + 1) - Suc i)
                 (\<lambda>j. conv (cf m p1 l1) (cf m p2 l2) (j + Suc i))"
    have "?g m' (int i) = ?g m (int i)"
    proof (rule sum.cong[OF refl])
      fix j assume j: "j \<in> {max 0 (int i - l2)..min (int i) l1}"
      then have "snd pr + nat j < snd pr + nat 0 + Suc i" by auto
      then have 1: "rd m' p1 j = rd m p1 j"
        unfolding m'_def by (rule rd_alias_down[OF assms(1)])
      from j have "snd pr + nat (int i - j) < snd pr + nat 0 + Suc i" by auto
      then have 2: "rd m' p2 (int i - j) = rd m p2 (int i - j)"
        unfolding m'_def by (rule rd_alias_down[OF assms(2)])
      show "rd m' p1 j * rd m' p2 (int i - j) = rd m p1 j * rd m p2 (int i - j)"
        by (simp only: 1 2)
    qed
    also have "\<dots> = conv (cf m p1 l1) (cf m p2 l2) i"
      by (rule conv_cf)
    finally show "?g m' (0 + int i) = conv (cf m p1 l1) (cf m p2 l2) i"
      by simp
  qed simp
  finally show ?thesis by simp
qed

lemma conv_right_const:
  assumes "\<And>t. 0 < t \<Longrightarrow> g t = 0"
  shows "conv f g n = f n * g 0"
proof -
  have "(\<Sum>j\<le>n. f j * g (n - j)) = (\<Sum>j\<in>{n}. f j * g (n - j))"
    by (rule sum.mono_neutral_right) (auto simp: assms)
  then show ?thesis by (simp add: conv_def)
qed

lemma conv_split_left:
  "conv f g n = conv (trunc k f) g n + (if n < k then 0 else conv (\<lambda>j. f (j + k)) g (n - k))"
proof -
  have "conv f g n = conv (\<lambda>j. trunc k f j + shift k (\<lambda>j. f (j + k)) j) g n"
    by (rule conv_cong) (simp_all add: split_trunc_shift[symmetric])
  then show ?thesis
    by (simp only: conv_add_left conv_shift_left)
qed

lemma conv_split_right:
  "conv f g n = conv f (trunc k g) n + (if n < k then 0 else conv f (\<lambda>j. g (j + k)) (n - k))"
proof -
  have "conv f g n = conv f (\<lambda>j. trunc k g j + shift k (\<lambda>j. g (j + k)) j) n"
    by (rule conv_cong) (simp_all add: split_trunc_shift[symmetric])
  then show ?thesis
    by (simp only: conv_add_right conv_shift_right)
qed

lemma blkupd_full: "blkupd xs 0 (length xs) f = map f [0..<length xs]"
  by (rule nth_equalityI) (simp_all add: nth_blkupd)

lemma cf_append: "fst p < length m \<Longrightarrow> cf (m @ ys) p l = cf m p l"
  by (rule ext) (simp add: cf_def nth_append)

lemma cf_memupd_other: "fst p \<noteq> b \<Longrightarrow> cf (memupd m b ofs n f) p l = cf m p l"
  by (rule ext) (simp add: cf_def nth_memupd)

lemma cf_padd: "0 \<le> k \<Longrightarrow> cf m (padd p k) l = (\<lambda>j. cf m p (l + k) (j + nat k))"
  by (rule ext) (auto simp: cf_def padd_def ac_simps)

lemma fst_padd [simp]: "fst (padd p k) = fst p"
  by (simp add: padd_def)

lemma snd_padd [simp]: "snd (padd p k) = snd p + nat k"
  by (simp add: padd_def)

lemma cf_trunc: "0 \<le> k \<Longrightarrow> k - 1 \<le> l \<Longrightarrow> cf m p (k - 1) = trunc (nat k) (cf m p l)"
  by (rule ext) (auto simp: cf_def trunc_def)

lemma cf_support: "l < int j \<Longrightarrow> cf m p l j = 0"
  by (simp add: cf_def)

lemma nth_blkupd_in:
  "ofs \<le> a \<Longrightarrow> a < ofs + n \<Longrightarrow> a < length xs \<Longrightarrow> blkupd xs ofs n f ! a = f (a - ofs)"
  by (simp add: nth_blkupd)

lemma nth_blkupd_out:
  "a < ofs \<or> ofs + n \<le> a \<Longrightarrow> blkupd xs ofs n f ! a = xs ! a"
  by (auto simp: nth_blkupd)

definition inb :: "'a mem \<Rightarrow> ptr \<Rightarrow> int \<Rightarrow> bool" where
  "inb m pr lr = (fst pr < length m \<and> snd pr + nat lr < length (m ! fst pr))"

lemma kar_case1:
  fixes m :: "'a::comm_ring_1 mem"
  assumes "0 \<le> l1" "l1 = lr" and al: "alias_ok pr p1" "alias_ok pr p2"
  shows "fold (\<lambda>i m. wr m pr i (rd m p1 i * rd m p2 0)) (rev [0..lr]) m
       = memupd m (fst pr) (snd pr) (nat (lr + 1)) (conv (cf m p1 l1) (cf m p2 0))"
proof -
  have "fold (\<lambda>i m. wr m pr i (rd m p1 i * rd m p2 0)) (rev [0..lr]) m
      = memupd m (fst pr) (snd pr + nat 0) (nat (lr - 0 + 1)) (conv (cf m p1 l1) (cf m p2 0))"
  proof (rule fold_wr_down)
    fix i assume i: "i < nat (lr - 0 + 1)"
    define m' where "m' = memupd m (fst pr) (snd pr + nat 0 + Suc i) (nat (lr - 0 + 1) - Suc i)
                 (\<lambda>j. conv (cf m p1 l1) (cf m p2 0) (j + Suc i))"
    have 1: "rd m' p1 (int i) = rd m p1 (int i)"
      unfolding m'_def by (rule rd_alias_down[OF al(1)]) simp
    have 2: "rd m' p2 0 = rd m p2 0"
      unfolding m'_def by (rule rd_alias_down[OF al(2)]) simp
    have "conv (cf m p1 l1) (cf m p2 0) i = cf m p1 l1 i * cf m p2 0 0"
      by (rule conv_right_const) (simp add: cf_def)
    also have "\<dots> = rd m p1 (int i) * rd m p2 0"
      using i assms(1,2) by (auto simp: cf_def rd_def)
    finally show "rd m' p1 (0 + int i) * rd m' p2 0 = conv (cf m p1 l1) (cf m p2 0) i"
      by (simp add: 1 2)
  qed simp
  then show ?thesis by simp
qed

lemma kar_case2:
  fixes m :: "'a::comm_ring_1 mem"
  assumes IH: "\<And>(m :: 'a mem) pr lr p1 l1' p2 l2'.
      max l1' l2' < l1 \<Longrightarrow> 0 \<le> l1' \<Longrightarrow> 0 \<le> l2' \<Longrightarrow> 0 \<le> lr \<Longrightarrow>
      alias_ok pr p1 \<Longrightarrow> alias_ok pr p2 \<Longrightarrow> inb m pr lr \<Longrightarrow> fst p1 < length m \<Longrightarrow> fst p2 < length m \<Longrightarrow>
      u_mul m pr lr p1 l1' p2 l2' = memupd m (fst pr) (snd pr) (nat (lr + 1)) (conv (cf m p1 l1') (cf m p2 l2'))"
    and k: "k = l1 div 2 + 1"
    and pre: "0 < l2" "l2 < k" "l2 \<le> l1" "l1 \<le> lr" "lr \<le> l1 + l2"
    and al: "alias_ok pr p1" "alias_ok pr p2"
    and inb: "inb m pr lr"
    and v: "fst p1 < length m" "fst p2 < length m"
  shows "(let n = length m;
              MM = (n, 0);
             m1 = m @ [replicate (nat (lr - k + 1)) 0];
             m2 = u_mul m1 MM (lr - k) (padd p1 k) (l1 - k) p2 l2;
             m3 = u_mul m2 pr (min lr (l2 + k - 1)) p1 (k - 1) p2 l2;
             m4 = u_zero m3 pr (l2 + k - 1) lr 0;
             m5 = u_add_to m4 (padd pr k) MM (lr - k)
         in take n m5)
       = memupd m (fst pr) (snd pr) (nat (lr + 1)) (conv (cf m p1 l1) (cf m p2 l2))"
proof -
  define n where "n = length m"
  define K where "K = nat k"
  define LR where "LR = nat lr"
  define L2 where "L2 = nat l2"
  define A where "A = cf m p1 l1"
  define B where "B = cf m p2 l2"
  define Ahi where "Ahi = (\<lambda>j. A (j + K))"
  have kk: "1 \<le> k" "k \<le> l1"
    using k pre by auto
  have nats: "k = int K" "lr = int LR" "l2 = int L2"
    using kk pre by (simp_all add: K_def LR_def L2_def)
  have natrel: "1 \<le> K" "L2 < K" "K \<le> LR" "1 \<le> L2"
    using kk pre unfolding nats by simp_all
  define cM where "cM = LR - K + 1"
  have cM: "nat (lr - k + 1) = cM"
    using natrel unfolding nats cM_def by simp
  define MMv where "MMv = map (conv Ahi B) [0..<cM]"
  define m1 where "m1 = m @ [replicate cM (0::'a)]"
  have b: "fst pr < n" and bl: "snd pr + LR < length (m ! fst pr)"
    using inb by (simp_all add: inb_def n_def LR_def)
  have m2: "u_mul m1 (n, 0) (lr - k) (padd p1 k) (l1 - k) p2 l2 = m @ [MMv]"
  proof -
    have "u_mul m1 (n, 0) (lr - k) (padd p1 k) (l1 - k) p2 l2
        = memupd m1 (fst (n, 0 :: nat)) (snd (n, 0 :: nat)) (nat (lr - k + 1)) (conv (cf m1 (padd p1 k) (l1 - k)) (cf m1 p2 l2))"
      by (rule IH) (use pre kk v cM in \<open>auto simp: alias_ok_def n_def m1_def inb_def\<close>)
    also have "cf m1 (padd p1 k) (l1 - k) = Ahi"
      using kk v by (simp add: cf_padd m1_def cf_append Ahi_def A_def K_def)
    also have "cf m1 p2 l2 = B"
      using v by (simp add: m1_def cf_append B_def)
    finally show ?thesis
      using blkupd_full[of "replicate cM (0::'a)" "conv Ahi B"]
      by (simp add: m1_def n_def memupd_last MMv_def cM)
  qed
  define cnt where "cnt = min LR (L2 + K - 1) + 1"
  have cnt: "nat (min lr (l2 + k - 1) + 1) = cnt"
    using natrel unfolding nats cnt_def by arith
  define P3 where "P3 = blkupd (m ! fst pr) (snd pr) cnt (conv (trunc K A) B)"
  have m3: "u_mul (m @ [MMv]) pr (min lr (l2 + k - 1)) p1 (k - 1) p2 l2 = m[fst pr := P3] @ [MMv]"
  proof -
    have "u_mul (m @ [MMv]) pr (min lr (l2 + k - 1)) p1 (k - 1) p2 l2
        = memupd (m @ [MMv]) (fst pr) (snd pr) (nat (min lr (l2 + k - 1) + 1)) (conv (cf (m @ [MMv]) p1 (k - 1)) (cf (m @ [MMv]) p2 l2))"
      by (rule IH) (use pre kk v al b bl in \<open>auto simp: inb_def n_def nth_append LR_def\<close>)
    also have "cf (m @ [MMv]) p1 (k - 1) = trunc K A"
      using kk v by (simp add: cf_append A_def K_def cf_trunc[of k l1])
    also have "cf (m @ [MMv]) p2 l2 = B"
      using v by (simp add: cf_append B_def)
    finally show ?thesis
      using b by (simp add: n_def memupd_def list_update_append nth_append P3_def cnt)
  qed
  define P4 where "P4 = blkupd P3 (snd pr + (L2 + K)) (LR + 1 - (L2 + K)) (\<lambda>_. 0 :: 'a)"
  have z1: "nat (l2 + k) = L2 + K" and z2: "nat (lr - (l2 + k - 1)) = LR + 1 - (L2 + K)"
    using natrel unfolding nats by simp_all
  have m4: "u_zero (m[fst pr := P3] @ [MMv]) pr (l2 + k - 1) lr 0 = m[fst pr := P4] @ [MMv]"
    using b pre kk by (simp add: u_zero_eq memupd_def n_def nth_append list_update_append P4_def z1 z2)
  define P5 where "P5 = blkupd P4 (snd pr + K) cM (\<lambda>i. P4 ! (snd pr + K + i) + MMv ! i)"
  have m5: "u_add_to (m[fst pr := P4] @ [MMv]) (padd pr k) (n, 0) (lr - k) = m[fst pr := P5] @ [MMv]"
    using b by (simp add: u_add_to_eq memupd_def n_def nth_append list_update_append P5_def K_def cM)
  have len: "length P3 = length (m ! fst pr)" "length P4 = length (m ! fst pr)" "length P5 = length (m ! fst pr)"
    by (simp_all add: P3_def P4_def P5_def)
  have final: "P5 = blkupd (m ! fst pr) (snd pr) (nat (lr + 1)) (conv A B)"
  proof (rule nth_equalityI)
    show "length P5 = length (blkupd (m ! fst pr) (snd pr) (nat (lr + 1)) (conv A B))"
      by (simp add: len)
  next
    fix a assume a: "a < length P5"
    have lr1: "nat (lr + 1) = LR + 1"
      unfolding nats by simp
    show "P5 ! a = blkupd (m ! fst pr) (snd pr) (nat (lr + 1)) (conv A B) ! a"
    proof (cases "snd pr \<le> a \<and> a < snd pr + (LR + 1)")
      case False
      then have o: "a < snd pr \<or> snd pr + (LR + 1) \<le> a" by auto
      have "P3 ! a = m ! fst pr ! a"
        unfolding P3_def by (rule nth_blkupd_out) (use o natrel in \<open>auto simp: cnt_def\<close>)
      moreover have "P4 ! a = P3 ! a"
        unfolding P4_def by (rule nth_blkupd_out) (use o natrel in auto)
      moreover have "P5 ! a = P4 ! a"
        unfolding P5_def by (rule nth_blkupd_out) (use o natrel in \<open>auto simp: cM_def\<close>)
      moreover have "blkupd (m ! fst pr) (snd pr) (nat (lr + 1)) (conv A B) ! a = m ! fst pr ! a"
        unfolding lr1 by (rule nth_blkupd_out) (use o in auto)
      ultimately show ?thesis by simp
    next
      case True
      define i where "i = a - snd pr"
      have ai: "a = snd pr + i" "i \<le> LR"
        using True by (auto simp: i_def)
      have alen: "a < length (m ! fst pr)"
        using a by (simp add: len)
      have rhs: "blkupd (m ! fst pr) (snd pr) (nat (lr + 1)) (conv A B) ! a = conv A B i"
        unfolding lr1 i_def by (rule nth_blkupd_in) (use True alen in auto)
      have split: "conv A B i = conv (trunc K A) B i + (if i < K then 0 else conv Ahi B (i - K))"
        unfolding Ahi_def by (rule conv_split_left)
      have supp: "conv (trunc K A) B i = 0" if "L2 + K \<le> i"
      proof (rule conv_support[where a = "K - 1" and b = "L2"])
        show "trunc K A j = 0" if "K - 1 < j" for j
          using that by (auto simp: trunc_def)
        show "B j = 0" if "L2 < j" for j
          using that by (simp add: B_def cf_def nats)
        show "K - 1 + L2 < i"
          using that natrel by simp
      qed
      have p3: "P3 ! a = conv (trunc K A) B i" if "i < L2 + K"
        unfolding P3_def i_def by (rule nth_blkupd_in) (use that True alen ai natrel in \<open>auto simp: cnt_def\<close>)
      have p4: "P4 ! a = (if L2 + K \<le> i then 0 else P3 ! a)"
      proof (cases "L2 + K \<le> i")
        case True
        have "P4 ! a = 0"
          unfolding P4_def by (subst nth_blkupd_in) (use True ai alen in \<open>auto simp: len\<close>)
        with True show ?thesis by simp
      next
        case False
        have "P4 ! a = P3 ! a"
          unfolding P4_def by (rule nth_blkupd_out) (use False ai in auto)
        with False show ?thesis by simp
      qed
      have p4': "P4 ! a = conv (trunc K A) B i"
        using p4 p3 supp by (cases "L2 + K \<le> i") auto
      show ?thesis
      proof (cases "i < K")
        case True
        have "P5 ! a = P4 ! a"
          unfolding P5_def by (rule nth_blkupd_out) (use True ai in auto)
        with True p4' split rhs show ?thesis by simp
      next
        case False
        have "P5 ! a = P4 ! (snd pr + K + (a - (snd pr + K))) + MMv ! (a - (snd pr + K))"
          unfolding P5_def by (rule nth_blkupd_in) (use False ai alen in \<open>auto simp: len cM_def\<close>)
        also have "snd pr + K + (a - (snd pr + K)) = a"
          using False ai by simp
        also have "a - (snd pr + K) = i - K"
          using ai by simp
        also have "MMv ! (i - K) = conv Ahi B (i - K)"
        proof -
          have "i - K < cM" using False ai by (simp add: cM_def)
          then show ?thesis by (simp add: MMv_def)
        qed
        finally show ?thesis
          using False p4' split rhs by simp
      qed
    qed
  qed
  have "take n (m[fst pr := P5] @ [MMv]) = memupd m (fst pr) (snd pr) (nat (lr + 1)) (conv A B)"
    by (simp add: n_def memupd_def final)
  then show ?thesis
    unfolding Let_def n_def[symmetric] cM m1_def[symmetric]
    by (simp only: m2 m3 m4 m5 A_def B_def)
qed

lemma memupd_tail:
  "memupd (m @ ys) (length m + t) ofs n f = m @ memupd ys t ofs n f"
  by (simp add: memupd_def list_update_append nth_append)

lemma memupd_head:
  "b < length m \<Longrightarrow> memupd (m @ ys) b ofs n f = m[b := blkupd (m ! b) ofs n f] @ ys"
  by (simp add: memupd_def list_update_append nth_append)

lemma map_upto_nat: "0 \<le> k \<Longrightarrow> map f [0..k - 1] = map (\<lambda>j. f (int j)) [0..<nat k]"
  by (simp add: upto_as_upt comp_def)

lemma karatsuba_identity:
  fixes A B :: "nat \<Rightarrow> 'a::comm_ring_1" and K :: nat
  defines "Alo \<equiv> trunc K A" and "Ahi \<equiv> (\<lambda>j. A (j + K))"
    and "Blo \<equiv> trunc K B" and "Bhi \<equiv> (\<lambda>j. B (j + K))"
  shows "conv A B i = conv Alo Blo i
           + (if i < K then 0
              else conv (\<lambda>j. Alo j + Ahi j) (\<lambda>j. Blo j + Bhi j) (i - K) - conv Alo Blo (i - K) - conv Ahi Bhi (i - K))
           + (if i < K + K then 0 else conv Ahi Bhi (i - (K + K)))"
proof -
  have 1: "conv A B i = conv Alo B i + (if i < K then 0 else conv Ahi B (i - K))"
    unfolding Alo_def Ahi_def by (rule conv_split_left)
  have 2: "conv Alo B i = conv Alo Blo i + (if i < K then 0 else conv Alo Bhi (i - K))"
    unfolding Blo_def Bhi_def by (rule conv_split_right)
  have 3: "conv Ahi B (i - K) = conv Ahi Blo (i - K) + (if i - K < K then 0 else conv Ahi Bhi (i - K - K))"
    unfolding Blo_def Bhi_def by (rule conv_split_right)
  have 4: "conv (\<lambda>j. Alo j + Ahi j) (\<lambda>j. Blo j + Bhi j) t
         = conv Alo Blo t + conv Alo Bhi t + conv Ahi Blo t + conv Ahi Bhi t" for t
    by (simp add: conv_add_left conv_add_right)
  show ?thesis
  proof (cases "i < K")
    case True
    then show ?thesis using 1 2 by simp
  next
    case False
    then have "i < K + K \<longleftrightarrow> i - K < K" by auto
    moreover have "i - K - K = i - (K + K)" by simp
    ultimately show ?thesis
      using False 1 2 3 by (simp add: 4)
  qed
qed

lemma kar_case3:
  fixes m :: "'a::comm_ring_1 mem"
  assumes IH: "\<And>(m :: 'a mem) pr lr p1 l1' p2 l2'.
      max l1' l2' < l1 \<Longrightarrow> 0 \<le> l1' \<Longrightarrow> 0 \<le> l2' \<Longrightarrow> 0 \<le> lr \<Longrightarrow>
      alias_ok pr p1 \<Longrightarrow> alias_ok pr p2 \<Longrightarrow> inb m pr lr \<Longrightarrow> fst p1 < length m \<Longrightarrow> fst p2 < length m \<Longrightarrow>
      u_mul m pr lr p1 l1' p2 l2' = memupd m (fst pr) (snd pr) (nat (lr + 1)) (conv (cf m p1 l1') (cf m p2 l2'))"
    and k: "k = l1 div 2 + 1"
    and pre: "k \<le> l2" "l2 \<le> l1" "l1 \<le> lr" "lr \<le> l1 + l2"
    and al: "alias_ok pr p1" "alias_ok pr p2"
    and inb: "inb m pr lr"
    and v: "fst p1 < length m" "fst p2 < length m"
  shows "(let n = length m;
             S1 = (n, 0);
             m1 = m @ [map (rd m p1) [0..k - 1]];
             m2 = u_add_to m1 S1 (padd p1 k) (l1 - k);
             S2 = (n + 1, 0);
             m3 = m2 @ [map (rd m2 p2) [0..k - 1]];
             m4 = u_add_to m3 S2 (padd p2 k) (l2 - k);
             mm_l = min (lr - k) (k - 1 + k - 1);
             MM = (n + 2, 0);
             m5 = m4 @ [replicate (nat (mm_l + 1)) 0];
             m6 = u_mul m5 MM mm_l S1 (k - 1) S2 (k - 1);
             hh_l = min mm_l (l1 - k + l2 - k);
             HH = (n + 3, 0);
             m7 = m6 @ [replicate (nat (hh_l + 1)) 0];
             m8 = u_mul m7 HH hh_l (padd p1 k) (l1 - k) (padd p2 k) (l2 - k);
             m9 = u_mul m8 pr (k - 1 + k - 1) p1 (k - 1) p2 (k - 1);
             m10 = u_zero m9 pr (k - 1 + k - 1) lr 0;
             m11 = u_sub_from m10 MM pr (min mm_l (k - 1 + k - 1));
             m12 = u_sub_from m11 MM HH hh_l;
             m13 = u_add_to m12 (padd pr k) MM mm_l;
             m14 = u_add_to m13 (padd pr (k + k)) HH (lr - k - k)
         in take n m14)
       = memupd m (fst pr) (snd pr) (nat (lr + 1)) (conv (cf m p1 l1) (cf m p2 l2))"
proof -
  define K where "K = nat k"
  define LR where "LR = nat lr"
  define L1 where "L1 = nat l1"
  define L2 where "L2 = nat l2"
  define A where "A = cf m p1 l1"
  define B where "B = cf m p2 l2"
  define Alo where "Alo = trunc K A"
  define Blo where "Blo = trunc K B"
  define Ahi where "Ahi = (\<lambda>j. A (j + K))"
  define Bhi where "Bhi = (\<lambda>j. B (j + K))"
  define SA where "SA = (\<lambda>j. Alo j + Ahi j)"
  define SB where "SB = (\<lambda>j. Blo j + Bhi j)"
  have kk: "1 \<le> k" "k \<le> l1" "l1 \<le> 2 * k - 1" "2 * k - 2 \<le> l1"
    using k pre by auto
  have nats: "k = int K" "lr = int LR" "l1 = int L1" "l2 = int L2"
    using kk pre by (simp_all add: K_def LR_def L1_def L2_def)
  have natrel: "1 \<le> K" "K \<le> L2" "L2 \<le> L1" "L1 \<le> LR" "LR \<le> L1 + L2" "L1 \<le> 2 * K - 1" "2 * K - 2 \<le> L1"
    using kk pre unfolding nats by auto
  have b: "fst pr < length m" and bl: "snd pr + LR < length (m ! fst pr)"
    using inb by (simp_all add: inb_def LR_def)
  have suppA: "A j = 0" if "L1 < j" for j
    using that by (simp add: A_def cf_def nats)
  have suppB: "B j = 0" if "L2 < j" for j
    using that by (simp add: B_def cf_def nats)
  have suppAhi: "Ahi j = 0" if "K \<le> j" for j
    unfolding Ahi_def by (rule suppA) (use that natrel in auto)
  have suppBhi: "Bhi j = 0" if "K \<le> j" for j
    unfolding Bhi_def by (rule suppB) (use that natrel in auto)
  have suppAhi': "Ahi j = 0" if "L1 - K < j" for j
    unfolding Ahi_def by (rule suppA) (use that natrel in auto)
  have suppBhi': "Bhi j = 0" if "L2 - K < j" for j
    unfolding Bhi_def by (rule suppB) (use that natrel in auto)
  have suppSA: "SA j = 0" if "K \<le> j" for j
    using that suppAhi[of j] by (simp add: SA_def Alo_def trunc_def)
  have suppSB: "SB j = 0" if "K \<le> j" for j
    using that suppBhi[of j] by (simp add: SB_def Blo_def trunc_def)
  \<comment> \<open>the vectors S1 and S2\<close>
  define S1v where "S1v = map SA [0..<K]"
  define S2v where "S2v = map SB [0..<K]"
  have cfA: "cf m p1 (k - 1) = Alo"
    using kk by (simp add: A_def K_def Alo_def cf_trunc[of k l1])
  have cfB: "cf m p2 (k - 1) = Blo"
    using kk pre by (simp add: B_def K_def Blo_def cf_trunc[of k l2])
  have cfAhi: "cf m (padd p1 k) (l1 - k) = Ahi"
    using kk by (simp add: cf_padd Ahi_def A_def K_def)
  have cfBhi: "cf m (padd p2 k) (l2 - k) = Bhi"
    using kk by (simp add: cf_padd Bhi_def B_def K_def)
  define n where "n = length m"
  define m1 where "m1 = m @ [map (rd m p1) [0..k - 1]]"
  define m2 where "m2 = u_add_to m1 (n, 0) (padd p1 k) (l1 - k)"
  define m3 where "m3 = m2 @ [map (rd m2 p2) [0..k - 1]]"
  define m4 where "m4 = u_add_to m3 (n + 1, 0) (padd p2 k) (l2 - k)"
  define mm_l where "mm_l = min (lr - k) (k - 1 + k - 1)"
  define m5 where "m5 = m4 @ [replicate (nat (mm_l + 1)) (0::'a)]"
  define m6 where "m6 = u_mul m5 (n + 2, 0) mm_l (n, 0) (k - 1) (n + 1, 0) (k - 1)"
  define hh_l where "hh_l = min mm_l (l1 - k + l2 - k)"
  define m7 where "m7 = m6 @ [replicate (nat (hh_l + 1)) (0::'a)]"
  define m8 where "m8 = u_mul m7 (n + 3, 0) hh_l (padd p1 k) (l1 - k) (padd p2 k) (l2 - k)"
  define m9 where "m9 = u_mul m8 pr (k - 1 + k - 1) p1 (k - 1) p2 (k - 1)"
  define m10 where "m10 = u_zero m9 pr (k - 1 + k - 1) lr 0"
  define m11 where "m11 = u_sub_from m10 (n + 2, 0) pr (min mm_l (k - 1 + k - 1))"
  define m12 where "m12 = u_sub_from m11 (n + 2, 0) (n + 3, 0) hh_l"
  define m13 where "m13 = u_add_to m12 (padd pr k) (n + 2, 0) mm_l"
  define m14 where "m14 = u_add_to m13 (padd pr (k + k)) (n + 3, 0) (lr - k - k)"
  define MML where "MML = min (LR - K) (2 * K - 2)"
  define HHL where "HHL = min MML (L1 - K + (L2 - K))"
  have mml: "mm_l = int MML" and hhl: "hh_l = int HHL"
    using natrel unfolding mm_l_def hh_l_def MML_def HHL_def nats by auto
  define cMM where "cMM = MML + 1"
  define cHH where "cHH = HHL + 1"
  have cmm: "nat (mm_l + 1) = cMM" and chh: "nat (hh_l + 1) = cHH"
    unfolding mml hhl cMM_def cHH_def by simp_all
  have m2: "m2 = m @ [S1v]"
  proof -
    have "blkupd (map (\<lambda>j. rd m p1 (int j)) [0..<K]) 0 (nat (l1 - k + 1))
            (\<lambda>i. map (\<lambda>j. rd m p1 (int j)) [0..<K] ! i + m ! fst p1 ! (snd p1 + K + i)) = S1v"
    proof (rule nth_equalityI)
      fix j assume "j < length (blkupd (map (\<lambda>j. rd m p1 (int j)) [0..<K]) 0 (nat (l1 - k + 1))
            (\<lambda>i. map (\<lambda>j. rd m p1 (int j)) [0..<K] ! i + m ! fst p1 ! (snd p1 + K + i)))"
      then have j: "j < K" by simp
      have 1: "Alo j = rd m p1 (int j)"
        using j natrel by (simp add: Alo_def trunc_def A_def cf_def rd_def nats)
      have 2: "Ahi j = (if j < nat (l1 - k + 1) then m ! fst p1 ! (snd p1 + K + j) else 0)"
        using j natrel by (auto simp: Ahi_def A_def cf_def nats ac_simps)
      show "blkupd (map (\<lambda>j. rd m p1 (int j)) [0..<K]) 0 (nat (l1 - k + 1))
            (\<lambda>i. map (\<lambda>j. rd m p1 (int j)) [0..<K] ! i + m ! fst p1 ! (snd p1 + K + i)) ! j = S1v ! j"
        using j by (simp add: nth_blkupd S1v_def SA_def 1 2)
    qed (simp add: S1v_def)
    then show ?thesis
      using v kk unfolding m2_def m1_def n_def
      by (simp add: u_add_to_eq map_upto_nat memupd_last nth_append K_def[symmetric])
  qed
  have m4: "m4 = m @ [S1v, S2v]"
  proof -
    have rd2: "rd (m @ [S1v]) p2 = rd m p2"
      using v by (rule_tac ext) (simp add: rd_def nth_append)
    have "blkupd (map (\<lambda>j. rd m p2 (int j)) [0..<K]) 0 (nat (l2 - k + 1))
            (\<lambda>i. map (\<lambda>j. rd m p2 (int j)) [0..<K] ! i + m ! fst p2 ! (snd p2 + K + i)) = S2v"
    proof (rule nth_equalityI)
      fix j assume "j < length (blkupd (map (\<lambda>j. rd m p2 (int j)) [0..<K]) 0 (nat (l2 - k + 1))
            (\<lambda>i. map (\<lambda>j. rd m p2 (int j)) [0..<K] ! i + m ! fst p2 ! (snd p2 + K + i)))"
      then have j: "j < K" by simp
      have 1: "Blo j = rd m p2 (int j)"
        using j natrel by (simp add: Blo_def trunc_def B_def cf_def rd_def nats)
      have 2: "Bhi j = (if j < nat (l2 - k + 1) then m ! fst p2 ! (snd p2 + K + j) else 0)"
        using j natrel by (auto simp: Bhi_def B_def cf_def nats ac_simps)
      show "blkupd (map (\<lambda>j. rd m p2 (int j)) [0..<K]) 0 (nat (l2 - k + 1))
            (\<lambda>i. map (\<lambda>j. rd m p2 (int j)) [0..<K] ! i + m ! fst p2 ! (snd p2 + K + i)) ! j = S2v ! j"
        using j by (simp add: nth_blkupd S2v_def SB_def 1 2)
    qed (simp add: S2v_def)
    then show ?thesis
      using v kk unfolding m4_def m3_def m2 n_def
      by (simp add: rd2 u_add_to_eq map_upto_nat nth_append K_def[symmetric] memupd_def list_update_append)
  qed
  \<comment> \<open>the three products\<close>
  define MMv where "MMv = map (conv SA SB) [0..<cMM]"
  have m6: "m6 = m @ [S1v, S2v, MMv]"
  proof -
    have "m6 = memupd m5 (fst (n + 2, 0::nat)) (snd (n + 2, 0::nat)) (nat (mm_l + 1))
                 (conv (cf m5 (n, 0) (k - 1)) (cf m5 (n + 1, 0) (k - 1)))"
      unfolding m6_def
      by (rule IH) (use kk pre mml in \<open>auto simp: alias_ok_def inb_def m5_def m4 n_def nth_append cmm cMM_def\<close>)
    also have "cf m5 (n, 0) (k - 1) = SA"
    proof (rule ext)
      fix j show "cf m5 (n, 0) (k - 1) j = SA j"
        using suppSA[of j] natrel by (auto simp: cf_def m5_def m4 n_def nth_append S1v_def nats)
    qed
    also have "cf m5 (n + 1, 0) (k - 1) = SB"
    proof (rule ext)
      fix j show "cf m5 (n + 1, 0) (k - 1) j = SB j"
        using suppSB[of j] natrel by (auto simp: cf_def m5_def m4 n_def nth_append S2v_def nats)
    qed
    finally show ?thesis
      using blkupd_full[of "replicate cMM (0::'a)" "conv SA SB"]
      by (simp add: m5_def m4 n_def cmm memupd_def list_update_append nth_append MMv_def)
  qed
  define HHv where "HHv = map (conv Ahi Bhi) [0..<cHH]"
  have m8: "m8 = m @ [S1v, S2v, MMv, HHv]"
  proof -
    have "m8 = memupd m7 (fst (n + 3, 0::nat)) (snd (n + 3, 0::nat)) (nat (hh_l + 1))
                 (conv (cf m7 (padd p1 k) (l1 - k)) (cf m7 (padd p2 k) (l2 - k)))"
      unfolding m8_def
      by (rule IH) (use kk pre hhl v in \<open>auto simp: alias_ok_def inb_def m7_def m6 n_def nth_append chh cHH_def\<close>)
    also have "cf m7 (padd p1 k) (l1 - k) = Ahi"
      using v cfAhi by (simp add: m7_def m6 cf_append)
    also have "cf m7 (padd p2 k) (l2 - k) = Bhi"
      using v cfBhi by (simp add: m7_def m6 cf_append)
    finally show ?thesis
      using blkupd_full[of "replicate cHH (0::'a)" "conv Ahi Bhi"]
      by (simp add: m7_def m6 n_def chh memupd_def list_update_append nth_append HHv_def)
  qed
  define P9 where "P9 = blkupd (m ! fst pr) (snd pr) (2 * K - 1) (conv Alo Blo)"
  have m9: "m9 = m[fst pr := P9] @ [S1v, S2v, MMv, HHv]"
  proof -
    have "m9 = memupd m8 (fst pr) (snd pr) (nat (k - 1 + k - 1 + 1))
                 (conv (cf m8 p1 (k - 1)) (cf m8 p2 (k - 1)))"
      unfolding m9_def
      by (rule IH) (use kk pre al v b bl natrel in \<open>auto simp: inb_def m8 nth_append nats\<close>)
    also have "cf m8 p1 (k - 1) = Alo"
      using v cfA by (simp add: m8 cf_append)
    also have "cf m8 p2 (k - 1) = Blo"
      using v cfB by (simp add: m8 cf_append)
    also have "nat (k - 1 + k - 1 + 1) = 2 * K - 1"
      using natrel unfolding nats by auto
    finally show ?thesis
      using b by (simp add: m8 memupd_head P9_def)
  qed
  \<comment> \<open>combining them in the output\<close>
  define LL where "LL = conv Alo Blo"
  define HH where "HH = conv Ahi Bhi"
  define MS where "MS = conv SA SB"
  have suppLL: "LL t = 0" if "2 * K - 1 \<le> t" for t
    unfolding LL_def
  proof (rule conv_support[where a = "K - 1" and b = "K - 1"])
    show "Alo j = 0" if "K - 1 < j" for j using that by (auto simp: Alo_def trunc_def)
    show "Blo j = 0" if "K - 1 < j" for j using that by (auto simp: Blo_def trunc_def)
    show "K - 1 + (K - 1) < t" using that natrel by auto
  qed
  have suppMS: "MS t = 0" if "2 * K - 1 \<le> t" for t
    unfolding MS_def
  proof (rule conv_support[where a = "K - 1" and b = "K - 1"])
    show "SA j = 0" if "K - 1 < j" for j using that by (intro suppSA) auto
    show "SB j = 0" if "K - 1 < j" for j using that by (intro suppSB) auto
    show "K - 1 + (K - 1) < t" using that natrel by auto
  qed
  have suppHH: "HH t = 0" if "L1 - K + (L2 - K) < t" for t
    unfolding HH_def
  proof (rule conv_support[where a = "L1 - K" and b = "L2 - K"])
    show "Ahi j = 0" if "L1 - K < j" for j using that by (rule suppAhi')
    show "Bhi j = 0" if "L2 - K < j" for j using that by (rule suppBhi')
    show "L1 - K + (L2 - K) < t" using that .
  qed
  define P10 where "P10 = blkupd P9 (snd pr + (2 * K - 1)) (LR + 2 - 2 * K) (\<lambda>_. 0 :: 'a)"
  have m10: "m10 = m[fst pr := P10] @ [S1v, S2v, MMv, HHv]"
  proof -
    have "nat (k - 1 + k - 1 + 1) = 2 * K - 1" "nat (lr - (k - 1 + k - 1)) = LR + 2 - 2 * K"
      using natrel unfolding nats by auto
    then show ?thesis
      using b kk unfolding m10_def m9
      by (simp add: u_zero_eq memupd_def nth_append list_update_append P10_def)
  qed
  define MM1 where "MM1 = blkupd MMv 0 cMM (\<lambda>i. MMv ! i - P10 ! (snd pr + i))"
  have m11: "m11 = m[fst pr := P10] @ [S1v, S2v, MM1, HHv]"
  proof -
    have "nat (min mm_l (k - 1 + k - 1) + 1) = cMM"
      using natrel unfolding mml nats cMM_def MML_def by auto
    then show ?thesis
      using b unfolding m11_def m10 n_def
      by (simp add: u_sub_from_eq memupd_def nth_append list_update_append MM1_def)
  qed
  define MM2 where "MM2 = blkupd MM1 0 cHH (\<lambda>i. MM1 ! i - HHv ! i)"
  have m12: "m12 = m[fst pr := P10] @ [S1v, S2v, MM2, HHv]"
    using b unfolding m12_def m11 n_def
    by (simp add: u_sub_from_eq memupd_def nth_append list_update_append MM2_def chh)
  define P13 where "P13 = blkupd P10 (snd pr + K) cMM (\<lambda>i. P10 ! (snd pr + K + i) + MM2 ! i)"
  have m13: "m13 = m[fst pr := P13] @ [S1v, S2v, MM2, HHv]"
    using b unfolding m13_def m12 n_def
    by (simp add: u_add_to_eq memupd_def nth_append list_update_append P13_def cmm K_def[symmetric])
  define P14 where "P14 = blkupd P13 (snd pr + (K + K)) (LR + 1 - (K + K)) (\<lambda>i. P13 ! (snd pr + (K + K) + i) + HHv ! i)"
  have m14: "m14 = m[fst pr := P14] @ [S1v, S2v, MM2, HHv]"
  proof -
    have "nat (k + k) = K + K" "nat (lr - k - k + 1) = LR + 1 - (K + K)"
      using natrel unfolding nats by auto
    then show ?thesis
      using b unfolding m14_def m13 n_def
      by (simp add: u_add_to_eq memupd_def nth_append list_update_append P14_def)
  qed
  have len: "length P9 = length (m ! fst pr)" "length P10 = length (m ! fst pr)"
    "length P13 = length (m ! fst pr)" "length P14 = length (m ! fst pr)"
    by (simp_all add: P9_def P10_def P13_def P14_def)
  have p10: "P10 ! (snd pr + t) = LL t" if "t \<le> LR" for t
  proof (cases "t < 2 * K - 1")
    case True
    have "P10 ! (snd pr + t) = P9 ! (snd pr + t)"
      unfolding P10_def by (rule nth_blkupd_out) (use True in auto)
    also have "\<dots> = conv Alo Blo (snd pr + t - snd pr)"
      unfolding P9_def by (rule nth_blkupd_in) (use True that bl in auto)
    finally show ?thesis by (simp add: LL_def)
  next
    case False
    have "P10 ! (snd pr + t) = 0"
      unfolding P10_def by (subst nth_blkupd_in) (use False that bl natrel in \<open>auto simp: len\<close>)
    with False suppLL[of t] show ?thesis by simp
  qed
  have mm2: "MM2 ! t = MS t - LL t - HH t" if "t < cMM" for t
  proof -
    have tl: "t \<le> LR" "t \<le> MML"
      using that natrel by (auto simp: cMM_def MML_def)
    have 1: "MM1 ! t = MS t - LL t"
    proof -
      have "MM1 ! t = MMv ! (t - 0) - P10 ! (snd pr + (t - 0))"
        unfolding MM1_def by (rule nth_blkupd_in) (use that in \<open>auto simp: MMv_def\<close>)
      then show ?thesis
        using that p10[OF tl(1)] by (simp add: MMv_def MS_def)
    qed
    show ?thesis
    proof (cases "t < cHH")
      case True
      have "MM2 ! t = MM1 ! (t - 0) - HHv ! (t - 0)"
        unfolding MM2_def by (rule nth_blkupd_in) (use True that in \<open>auto simp: MM1_def MMv_def\<close>)
      then show ?thesis
        using True 1 by (simp add: HHv_def HH_def)
    next
      case False
      have "MM2 ! t = MM1 ! t"
        unfolding MM2_def by (rule nth_blkupd_out) (use False in auto)
      moreover have "HH t = 0"
        by (rule suppHH) (use False tl in \<open>auto simp: cHH_def HHL_def\<close>)
      ultimately show ?thesis using 1 by simp
    qed
  qed
  have final: "P14 = blkupd (m ! fst pr) (snd pr) (nat (lr + 1)) (conv A B)"
  proof (rule nth_equalityI)
    show "length P14 = length (blkupd (m ! fst pr) (snd pr) (nat (lr + 1)) (conv A B))"
      by (simp add: len)
  next
    fix a assume a: "a < length P14"
    have lr1: "nat (lr + 1) = LR + 1"
      unfolding nats by simp
    show "P14 ! a = blkupd (m ! fst pr) (snd pr) (nat (lr + 1)) (conv A B) ! a"
    proof (cases "snd pr \<le> a \<and> a < snd pr + (LR + 1)")
      case False
      then have o: "a < snd pr \<or> snd pr + (LR + 1) \<le> a" by auto
      have "P9 ! a = m ! fst pr ! a"
        unfolding P9_def by (rule nth_blkupd_out) (use o natrel in auto)
      moreover have "P10 ! a = P9 ! a"
        unfolding P10_def by (rule nth_blkupd_out) (use o natrel in auto)
      moreover have "P13 ! a = P10 ! a"
        unfolding P13_def by (rule nth_blkupd_out) (use o natrel in \<open>auto simp: cMM_def MML_def\<close>)
      moreover have "P14 ! a = P13 ! a"
        unfolding P14_def by (rule nth_blkupd_out) (use o natrel in auto)
      moreover have "blkupd (m ! fst pr) (snd pr) (nat (lr + 1)) (conv A B) ! a = m ! fst pr ! a"
        unfolding lr1 by (rule nth_blkupd_out) (use o in auto)
      ultimately show ?thesis by simp
    next
      case True
      define i where "i = a - snd pr"
      have ai: "a = snd pr + i" "i \<le> LR"
        using True by (auto simp: i_def)
      have alen: "a < length (m ! fst pr)"
        using a by (simp add: len)
      have rhs: "blkupd (m ! fst pr) (snd pr) (nat (lr + 1)) (conv A B) ! a = conv A B i"
        unfolding lr1 i_def by (rule nth_blkupd_in) (use True alen in auto)
      have ident: "conv A B i = LL i
           + (if i < K then 0 else MS (i - K) - LL (i - K) - HH (i - K))
           + (if i < K + K then 0 else HH (i - (K + K)))"
        unfolding LL_def MS_def HH_def SA_def SB_def Alo_def Blo_def Ahi_def Bhi_def
        by (rule karatsuba_identity)
      have p13: "P13 ! a = LL i + (if i < K then 0 else MS (i - K) - LL (i - K) - HH (i - K))"
      proof (cases "K \<le> i \<and> i < K + cMM")
        case True
        have "P13 ! a = P10 ! (snd pr + K + (a - (snd pr + K))) + MM2 ! (a - (snd pr + K))"
          unfolding P13_def by (rule nth_blkupd_in) (use True ai alen in \<open>auto simp: len\<close>)
        also have "snd pr + K + (a - (snd pr + K)) = snd pr + i"
          using True ai by simp
        also have "a - (snd pr + K) = i - K"
          using ai by simp
        also have "MM2 ! (i - K) = MS (i - K) - LL (i - K) - HH (i - K)"
          by (rule mm2) (use True in auto)
        finally show ?thesis
          using True p10[OF ai(2)] by simp
      next
        case False
        have "P13 ! a = P10 ! a"
          unfolding P13_def by (rule nth_blkupd_out) (use False ai in auto)
        then have 1: "P13 ! a = LL i"
          using p10[OF ai(2)] ai by simp
        show ?thesis
        proof (cases "i < K")
          case True
          with 1 show ?thesis by simp
        next
          case False
          with \<open>\<not> (K \<le> i \<and> i < K + cMM)\<close> have big: "K + cMM \<le> i" by auto
          with ai natrel have "2 * K - 1 \<le> i - K"
            by (auto simp: cMM_def MML_def)
          then have "MS (i - K) = 0" "LL (i - K) = 0" "HH (i - K) = 0"
            using suppMS[of "i - K"] suppLL[of "i - K"] suppHH[of "i - K"] natrel by auto
          with 1 False show ?thesis by simp
        qed
      qed
      have p14: "P14 ! a = P13 ! a + (if i < K + K then 0 else HH (i - (K + K)))"
      proof (cases "i < K + K")
        case True
        have "P14 ! a = P13 ! a"
          unfolding P14_def by (rule nth_blkupd_out) (use True ai in auto)
        with True show ?thesis by simp
      next
        case False
        have "P14 ! a = P13 ! (snd pr + (K + K) + (a - (snd pr + (K + K)))) + HHv ! (a - (snd pr + (K + K)))"
          unfolding P14_def by (rule nth_blkupd_in) (use False ai alen in \<open>auto simp: len\<close>)
        also have "snd pr + (K + K) + (a - (snd pr + (K + K))) = a"
          using False ai by simp
        also have "a - (snd pr + (K + K)) = i - (K + K)"
          using ai by simp
        also have "HHv ! (i - (K + K)) = HH (i - (K + K))"
        proof -
          have "i - (K + K) < cHH"
            using False ai natrel by (auto simp: cHH_def HHL_def MML_def)
          then show ?thesis by (simp add: HHv_def HH_def)
        qed
        finally show ?thesis using False by simp
      qed
      show ?thesis
        unfolding rhs ident p14 p13 ..
    qed
  qed
  have "take n m14 = memupd m (fst pr) (snd pr) (nat (lr + 1)) (conv A B)"
    by (simp add: m14 n_def memupd_def final)
  then show ?thesis
    unfolding Let_def A_def B_def m14_def m13_def m12_def m11_def m10_def m9_def m8_def m7_def hh_l_def
      m6_def m5_def mm_l_def m4_def m3_def m2_def m1_def n_def .
qed

lemma cf_zeroed:
  assumes "alias_ok pr p" and "l \<le> t" and "0 \<le> t"
  shows "cf (memupd m (fst pr) (snd pr + nat (t + 1)) n f) p l = cf m p l"
proof (rule ext)
  fix j
  show "cf (memupd m (fst pr) (snd pr + nat (t + 1)) n f) p l j = cf m p l j"
  proof (cases "int j \<le> l")
    case True
    have "rd (memupd m (fst pr) (snd pr + nat (t + 1)) n f) p (int j) = rd m p (int j)"
      by (rule rd_alias_down[OF assms(1)]) (use True assms in auto)
    with True show ?thesis by (simp add: cf_def rd_def)
  next
    case False
    then show ?thesis by (simp add: cf_def)
  qed
qed

lemma kar_eq:
  fixes m :: "'a::comm_ring_1 mem"
  assumes IH: "\<And>(m :: 'a mem) pr lr p1 l1' p2 l2'.
      max l1' l2' < l1 \<Longrightarrow> 0 \<le> l1' \<Longrightarrow> 0 \<le> l2' \<Longrightarrow> 0 \<le> lr \<Longrightarrow>
      alias_ok pr p1 \<Longrightarrow> alias_ok pr p2 \<Longrightarrow> inb m pr lr \<Longrightarrow> fst p1 < length m \<Longrightarrow> fst p2 < length m \<Longrightarrow>
      u_mul m pr lr p1 l1' p2 l2' = memupd m (fst pr) (snd pr) (nat (lr + 1)) (conv (cf m p1 l1') (cf m p2 l2'))"
    and pre: "0 \<le> l2" "l2 \<le> l1" "l1 \<le> lr" "lr \<le> l1 + l2"
    and al: "alias_ok pr p1" "alias_ok pr p2"
    and inb: "inb m pr lr"
    and v: "fst p1 < length m" "fst p2 < length m"
  shows "u_mul_karatsuba m pr lr p1 l1 p2 l2
       = memupd m (fst pr) (snd pr) (nat (lr + 1)) (conv (cf m p1 l1) (cf m p2 l2))"
proof -
  define k where "k = l1 div 2 + 1"
  consider "l2 = 0" | "0 < l2" "l2 < k" | "k \<le> l2"
    using pre(1) by linarith
  then show ?thesis
  proof cases
    case 1
    with pre have "l1 = lr" "0 \<le> l1" by auto
    then show ?thesis
      using 1 kar_case1[OF \<open>0 \<le> l1\<close> \<open>l1 = lr\<close> al, of m]
      by (subst u_mul_karatsuba.simps) (simp add: Let_def)
  next
    case 2
    have "u_mul_karatsuba m pr lr p1 l1 p2 l2 =
       (let n = length m; MM = (n, 0);
             m1 = m @ [replicate (nat (lr - k + 1)) 0];
             m2 = u_mul m1 MM (lr - k) (padd p1 k) (l1 - k) p2 l2;
             m3 = u_mul m2 pr (min lr (l2 + k - 1)) p1 (k - 1) p2 l2;
             m4 = u_zero m3 pr (l2 + k - 1) lr 0;
             m5 = u_add_to m4 (padd pr k) MM (lr - k)
         in take n m5)"
      using 2 by (subst u_mul_karatsuba.simps) (simp add: Let_def k_def)
    also have "\<dots> = memupd m (fst pr) (snd pr) (nat (lr + 1)) (conv (cf m p1 l1) (cf m p2 l2))"
      by (rule kar_case2[OF IH k_def 2 pre(2,3,4) al inb v])
    finally show ?thesis .
  next
    case 3
    then have "l2 \<noteq> 0" "\<not> l2 < k" using pre by (auto simp: k_def)
    then have "u_mul_karatsuba m pr lr p1 l1 p2 l2 =
       (let n = length m;
             S1 = (n, 0);
             m1 = m @ [map (rd m p1) [0..k - 1]];
             m2 = u_add_to m1 S1 (padd p1 k) (l1 - k);
             S2 = (n + 1, 0);
             m3 = m2 @ [map (rd m2 p2) [0..k - 1]];
             m4 = u_add_to m3 S2 (padd p2 k) (l2 - k);
             mm_l = min (lr - k) (k - 1 + k - 1);
             MM = (n + 2, 0);
             m5 = m4 @ [replicate (nat (mm_l + 1)) 0];
             m6 = u_mul m5 MM mm_l S1 (k - 1) S2 (k - 1);
             hh_l = min mm_l (l1 - k + l2 - k);
             HH = (n + 3, 0);
             m7 = m6 @ [replicate (nat (hh_l + 1)) 0];
             m8 = u_mul m7 HH hh_l (padd p1 k) (l1 - k) (padd p2 k) (l2 - k);
             m9 = u_mul m8 pr (k - 1 + k - 1) p1 (k - 1) p2 (k - 1);
             m10 = u_zero m9 pr (k - 1 + k - 1) lr 0;
             m11 = u_sub_from m10 MM pr (min mm_l (k - 1 + k - 1));
             m12 = u_sub_from m11 MM HH hh_l;
             m13 = u_add_to m12 (padd pr k) MM mm_l;
             m14 = u_add_to m13 (padd pr (k + k)) HH (lr - k - k)
         in take n m14)"
      by (subst u_mul_karatsuba.simps) (simp add: Let_def k_def)
    also have "\<dots> = memupd m (fst pr) (snd pr) (nat (lr + 1)) (conv (cf m p1 l1) (cf m p2 l2))"
      by (rule kar_case3[OF IH k_def 3 pre(2,3,4) al inb v])
    finally show ?thesis .
  qed
qed

lemma u_mul_noswap:
  fixes m :: "'a::comm_ring_1 mem"
  assumes IH: "\<And>(m :: 'a mem) pr lr p1 l1' p2 l2'.
      max l1' l2' < l1 \<Longrightarrow> 0 \<le> l1' \<Longrightarrow> 0 \<le> l2' \<Longrightarrow> 0 \<le> lr \<Longrightarrow>
      alias_ok pr p1 \<Longrightarrow> alias_ok pr p2 \<Longrightarrow> inb m pr lr \<Longrightarrow> fst p1 < length m \<Longrightarrow> fst p2 < length m \<Longrightarrow>
      u_mul m pr lr p1 l1' p2 l2' = memupd m (fst pr) (snd pr) (nat (lr + 1)) (conv (cf m p1 l1') (cf m p2 l2'))"
    and pre: "0 \<le> l2" "l2 \<le> l1" "0 \<le> lr"
    and al: "alias_ok pr p1" "alias_ok pr p2"
    and inb: "inb m pr lr"
    and v: "fst p1 < length m" "fst p2 < length m"
  shows "u_mul m pr lr p1 l1 p2 l2
       = memupd m (fst pr) (snd pr) (nat (lr + 1)) (conv (cf m p1 l1) (cf m p2 l2))"
proof -
  define l1' where "l1' = min l1 lr"
  define l2' where "l2' = min l2 lr"
  define lr' where "lr' = min lr (l1' + l2')"
  define m' where "m' = u_zero m pr (l1' + l2') lr 0"
  have rel: "0 \<le> l2'" "l2' \<le> l1'" "l1' \<le> lr'" "lr' \<le> l1' + l2'" "lr' \<le> lr" "l1' \<le> l1" "0 \<le> lr'"
    using pre by (auto simp: l1'_def l2'_def lr'_def)
  have m': "m' = memupd m (fst pr) (snd pr + nat (l1' + l2' + 1)) (nat (lr - (l1' + l2'))) (\<lambda>_. 0)"
    unfolding m'_def by (rule u_zero_eq) (use rel in auto)
  have cf1: "cf m' p1 l1' = cf m p1 l1'"
    unfolding m' by (rule cf_zeroed[OF al(1)]) (use rel in auto)
  have cf2: "cf m' p2 l2' = cf m p2 l2'"
    unfolding m' by (rule cf_zeroed[OF al(2)]) (use rel in auto)
  have inb': "inb m' pr lr'" and v': "fst p1 < length m'" "fst p2 < length m'"
    using inb v rel unfolding m' by (auto simp: inb_def nth_memupd)
  have "u_mul m pr lr p1 l1 p2 l2 = polynom_mul_impl m' pr lr' p1 l1' p2 l2'"
    using pre by (subst u_mul.simps) (simp add: Let_def l1'_def l2'_def lr'_def m'_def)
  also have "\<dots> = memupd m' (fst pr) (snd pr) (nat (lr' + 1)) (conv (cf m' p1 l1') (cf m' p2 l2'))"
  proof (cases "l2' < 48")
    case True
    then show ?thesis
      by (subst polynom_mul_impl.simps) (simp add: u_mul_long_eq[OF al])
  next
    case False
    have "u_mul_karatsuba m' pr lr' p1 l1' p2 l2'
        = memupd m' (fst pr) (snd pr) (nat (lr' + 1)) (conv (cf m' p1 l1') (cf m' p2 l2'))"
    proof (rule kar_eq[OF _ rel(1,2,3,4) al inb' v'])
      fix mm :: "'a mem" and pr lr p1 l1'' p2 l2''
      assume "max l1'' l2'' < l1'" "0 \<le> l1''" "0 \<le> l2''" "0 \<le> lr" "alias_ok pr p1" "alias_ok pr p2"
        "inb mm pr lr" "fst p1 < length mm" "fst p2 < length mm"
      then show "u_mul mm pr lr p1 l1'' p2 l2''
          = memupd mm (fst pr) (snd pr) (nat (lr + 1)) (conv (cf mm p1 l1'') (cf mm p2 l2''))"
        using rel(6) by (intro IH) auto
    qed
    with False show ?thesis
      by (subst polynom_mul_impl.simps) simp
  qed
  also have "\<dots> = memupd m (fst pr) (snd pr) (nat (lr + 1)) (conv (cf m p1 l1) (cf m p2 l2))"
  proof -
    have eq: "conv (cf m p1 l1') (cf m p2 l2') i = conv (cf m p1 l1) (cf m p2 l2) i" if "int i \<le> lr" for i
      by (rule conv_cong) (use that in \<open>auto simp: cf_def l1'_def l2'_def\<close>)
    have zero: "conv (cf m p1 l1) (cf m p2 l2) i = 0" if "lr' < int i" "int i \<le> lr" for i
    proof -
      from that have "l1' + l2' < lr" by (auto simp: lr'_def)
      with pre have "l1' = l1" "l2' = l2" by (auto simp: l1'_def l2'_def)
      with that have big: "nat l1 + nat l2 < i" using pre by (auto simp: lr'_def)
      show ?thesis
        by (rule conv_support[OF _ _ big]) (use pre in \<open>auto simp: cf_def\<close>)
    qed
    show ?thesis
    proof (cases "fst pr < length m")
      case False
      then show ?thesis by (simp add: memupd_def m' list_update_beyond)
    next
      case True
      have "blkupd (blkupd (m ! fst pr) (snd pr + nat (l1' + l2' + 1)) (nat (lr - (l1' + l2'))) (\<lambda>_. 0))
              (snd pr) (nat (lr' + 1)) (conv (cf m p1 l1') (cf m p2 l2'))
          = blkupd (m ! fst pr) (snd pr) (nat (lr + 1)) (conv (cf m p1 l1) (cf m p2 l2))"
      proof (rule nth_equalityI)
        fix a assume "a < length (blkupd (blkupd (m ! fst pr) (snd pr + nat (l1' + l2' + 1)) (nat (lr - (l1' + l2'))) (\<lambda>_. 0))
              (snd pr) (nat (lr' + 1)) (conv (cf m p1 l1') (cf m p2 l2')))"
        then have a: "a < length (m ! fst pr)" by simp
        have "snd pr \<le> a \<Longrightarrow> a < snd pr + nat (lr + 1) \<Longrightarrow> int (a - snd pr) \<le> lr"
          by arith
        then consider "a < snd pr \<or> snd pr + nat (lr + 1) \<le> a"
          | "snd pr \<le> a" "int (a - snd pr) \<le> lr'"
          | "snd pr \<le> a" "lr' < int (a - snd pr)" "int (a - snd pr) \<le> lr"
          by linarith
        then show "blkupd (blkupd (m ! fst pr) (snd pr + nat (l1' + l2' + 1)) (nat (lr - (l1' + l2'))) (\<lambda>_. 0))
              (snd pr) (nat (lr' + 1)) (conv (cf m p1 l1') (cf m p2 l2')) ! a
          = blkupd (m ! fst pr) (snd pr) (nat (lr + 1)) (conv (cf m p1 l1) (cf m p2 l2)) ! a"
        proof cases
          case 1
          then show ?thesis
            using rel pre by (auto simp: nth_blkupd)
        next
          case 2
          then show ?thesis
            using rel pre a eq[of "a - snd pr"] by (auto simp: nth_blkupd)
        next
          case 3
          then have "l1' + l2' < lr" by (auto simp: lr'_def)
          then have "lr' = l1' + l2'" by (auto simp: lr'_def)
          then show ?thesis
            using 3 rel pre a zero[of "a - snd pr"] by (auto simp: nth_blkupd)
        qed
      qed simp
      with True show ?thesis
        unfolding cf1 cf2 unfolding m' by (simp add: memupd_def)
    qed
  qed
  finally show ?thesis .
qed

theorem u_mul_spec:
  fixes m :: "'a::comm_ring_1 mem"
  assumes "0 \<le> l1" "0 \<le> l2" "0 \<le> lr" "alias_ok pr p1" "alias_ok pr p2" "inb m pr lr"
    "fst p1 < length m" "fst p2 < length m"
  shows "u_mul m pr lr p1 l1 p2 l2
       = memupd m (fst pr) (snd pr) (nat (lr + 1)) (conv (cf m p1 l1) (cf m p2 l2))"
  using assms
proof (induction "nat (max l1 l2)" arbitrary: m pr lr p1 l1 p2 l2 rule: less_induct)
  case less
  have IH: "u_mul mm pr' lr' p1' l1' p2' l2'
      = memupd mm (fst pr') (snd pr') (nat (lr' + 1)) (conv (cf mm p1' l1') (cf mm p2' l2'))"
    if "max l1' l2' < max l1 l2" "0 \<le> l1'" "0 \<le> l2'" "0 \<le> lr'" "alias_ok pr' p1'" "alias_ok pr' p2'"
      "inb mm pr' lr'" "fst p1' < length mm" "fst p2' < length mm"
    for mm :: "'a mem" and pr' lr' p1' l1' p2' l2'
    by (rule less.hyps) (use that less.prems in auto)
  show ?case
  proof (cases "l2 > l1")
    case False
    show ?thesis
    proof (rule u_mul_noswap[OF _ less.prems(2) _ less.prems(3-8)])
      show "l2 \<le> l1" using False by simp
    next
      fix mm :: "'a mem" and pr lr p1 l1' p2 l2'
      assume "max l1' l2' < l1" "0 \<le> l1'" "0 \<le> l2'" "0 \<le> lr" "alias_ok pr p1" "alias_ok pr p2"
        "inb mm pr lr" "fst p1 < length mm" "fst p2 < length mm"
      then show "u_mul mm pr lr p1 l1' p2 l2'
          = memupd mm (fst pr) (snd pr) (nat (lr + 1)) (conv (cf mm p1 l1') (cf mm p2 l2'))"
        using False by (intro IH) auto
    qed
  next
    case True
    have "u_mul m pr lr p1 l1 p2 l2 = u_mul m pr lr p2 l2 p1 l1"
      using True by (subst u_mul.simps) simp
    also have "\<dots> = memupd m (fst pr) (snd pr) (nat (lr + 1)) (conv (cf m p2 l2) (cf m p1 l1))"
    proof (rule u_mul_noswap[OF _ less.prems(1) _ less.prems(3) less.prems(5,4,6,8,7)])
      show "l1 \<le> l2" using True by simp
    next
      fix mm :: "'a mem" and pr lr p1 l1' p2 l2'
      assume "max l1' l2' < l2" "0 \<le> l1'" "0 \<le> l2'" "0 \<le> lr" "alias_ok pr p1" "alias_ok pr p2"
        "inb mm pr lr" "fst p1 < length mm" "fst p2 < length mm"
      then show "u_mul mm pr lr p1 l1' p2 l2'
          = memupd mm (fst pr) (snd pr) (nat (lr + 1)) (conv (cf mm p1 l1') (cf mm p2 l2'))"
        using True by (intro IH) auto
    qed
    also have "conv (cf m p2 l2) (cf m p1 l1) = conv (cf m p1 l1) (cf m p2 l2)"
      by (rule ext) (rule conv_comm)
    finally show ?thesis .
  qed
qed

theorem kar_spec:
  fixes m :: "'a::comm_ring_1 mem"
  assumes "0 \<le> l2" "l2 \<le> l1" "l1 \<le> lr" "lr \<le> l1 + l2" "alias_ok pr p1" "alias_ok pr p2" "inb m pr lr"
    "fst p1 < length m" "fst p2 < length m"
  shows "u_mul_karatsuba m pr lr p1 l1 p2 l2
       = memupd m (fst pr) (snd pr) (nat (lr + 1)) (conv (cf m p1 l1) (cf m p2 l2))"
  by (rule kar_eq[OF u_mul_spec assms])

section \<open>Karatsuba against the schoolbook product\<close>

text \<open>
  Claim C3: for coefficient arrays \<open>p1\<close> of length \<open>l1 + 1\<close> and \<open>p2\<close> of length \<open>l2 + 1\<close>
  and an output array of length \<open>lr + 1\<close> with \<open>0 \<le> l2 \<le> l1 \<le> lr \<le> l1 + l2\<close>,
  \<open>_mul_karatsuba\<close> leaves the memory exactly as \<open>_mul_long\<close> does: the same coefficients
  in \<open>pr[0..lr]\<close>, and the inputs unchanged. The three arrays are the buffers \<open>0\<close>, \<open>1\<close>
  and \<open>2\<close> of the memory.
\<close>

theorem C3_karatsuba_is_long:
  fixes p1 p2 pr :: "'a::comm_ring_1 list"
  assumes "0 \<le> l2" and "l2 \<le> l1" and "l1 \<le> lr" and "lr \<le> l1 + l2"
    and "length p1 = nat (l1 + 1)" and "length p2 = nat (l2 + 1)" and "length pr = nat (lr + 1)"
  shows "u_mul_karatsuba [pr, p1, p2] (0, 0) lr (1, 0) l1 (2, 0) l2
       = u_mul_long [pr, p1, p2] (0, 0) lr (1, 0) l1 (2, 0) l2"
proof -
  have al: "alias_ok (0, 0) (1, 0)" "alias_ok (0, 0) (2, 0)"
    by (simp_all add: alias_ok_def)
  have "u_mul_karatsuba [pr, p1, p2] (0, 0) lr (1, 0) l1 (2, 0) l2
      = memupd [pr, p1, p2] (fst (0::nat, 0::nat)) (snd (0::nat, 0::nat)) (nat (lr + 1))
          (conv (cf [pr, p1, p2] (1, 0) l1) (cf [pr, p1, p2] (2, 0) l2))"
    by (rule kar_spec[OF assms(1-4) al]) (use assms in \<open>auto simp: inb_def\<close>)
  also have "\<dots> = u_mul_long [pr, p1, p2] (0, 0) lr (1, 0) l1 (2, 0) l2"
    by (rule u_mul_long_eq[OF al, symmetric])
  finally show ?thesis .
qed

theorem C3_witness:
  "(0::int) \<le> 1 \<and> (1::int) \<le> 1 \<and> (1::int) \<le> 2 \<and> (2::int) \<le> 1 + 1
   \<and> length [1, 2 :: int] = nat (1 + 1) \<and> length [7, 8 :: int] = nat (1 + 1)
   \<and> length [0, 0, 0 :: int] = nat (2 + 1)
   \<and> u_mul_karatsuba [[0, 0, 0], [1, 2 :: int], [7, 8]] (0, 0) 2 (1, 0) 1 (2, 0) 1
       = [[7, 22, 16], [1, 2], [7, 8]]"
proof -
  have e: "u_mul_long [[0, 0, 0], [1, 2 :: int], [7, 8]] (0, 0) 2 (1, 0) 1 (2, 0) 1
      = [[7, 22, 16], [1, 2], [7, 8]]"
    by code_simp
  have "u_mul_karatsuba [[0, 0, 0], [1, 2 :: int], [7, 8]] (0, 0) 2 (1, 0) 1 (2, 0) 1
      = u_mul_long [[0, 0, 0], [1, 2 :: int], [7, 8]] (0, 0) 2 (1, 0) 1 (2, 0) 1"
    by (rule C3_karatsuba_is_long) simp_all
  with e show ?thesis by simp
qed

section \<open>The product of two polynomial objects\<close>

definition cfp :: "'a::zero polynom \<Rightarrow> nat \<Rightarrow> 'a" where
  "cfp p j = (if int j \<le> deg p \<and> j < length (c p) then c p ! j else 0)"

lemma c_resize_z: "c (resize_z p n z) = vector_resize (c p) n z"
  by (simp add: resize_z_def resize_def size_p_def vector_resize_def)

lemma ZERO_resize_z: "ZERO_COEFF (resize_z p n z) = z"
  by (simp add: resize_z_def resize_def)

lemma length_vector_resize [simp]: "length (vector_resize xs n z) = n"
  by (simp add: vector_resize_def)

lemma nth_vector_resize:
  "j < n \<Longrightarrow> vector_resize xs n z ! j = (if j < length xs then xs ! j else z)"
  by (simp add: vector_resize_def nth_append)

lemma nth_store_c:
  "i < length h \<Longrightarrow> length m = length h \<Longrightarrow> store_c h m ! i = (h ! i)\<lparr>c := m ! i\<rparr>"
  by (simp add: store_c_def)

lemma length_store_c: "length m = length h \<Longrightarrow> length (store_c h m) = length h"
  by (simp add: store_c_def)

lemma cfp_empty: "c p = [] \<Longrightarrow> cfp p = (\<lambda>_. 0)"
  by (rule ext) (simp add: cfp_def)

lemma cfp_support: "deg p < int j \<Longrightarrow> cfp p j = 0"
  by (simp add: cfp_def)

text \<open>
  The coefficients the kernels read from object \<open>p\<close> after the output object \<open>pr\<close> has
  been resized, whether \<open>p\<close> is the output object or not.
\<close>

lemma cf_after_resize:
  fixes h :: "'a::zero polynom list"
  assumes "p < length h" and "pr < length h" and "0 \<le> lr"
    and h1: "h1 = h[pr := resize_z (h ! pr) (nat (lr + 1)) 0]"
    and ne: "c (h1 ! p) \<noteq> []"
    and j: "int j \<le> lr"
  shows "cf (map c h1) (p, 0) (deg (h ! p)) j = cfp (h ! p) j"
proof (cases "p = pr")
  case False
  then have "h1 ! p = h ! p" by (simp add: h1)
  with ne deg_less_size[of "h ! p"] assms(1) show ?thesis
    by (auto simp: cf_def cfp_def size_p_def h1)
next
  case True
  have ch: "c (h1 ! p) = vector_resize (c (h ! p)) (nat (lr + 1)) 0"
    using True assms(2) by (simp add: h1 c_resize_z)
  show ?thesis
  proof (cases "int j \<le> deg (h ! p)")
    case False
    then show ?thesis by (simp add: cf_def cfp_def)
  next
    case dj: True
    have jn: "j < nat (lr + 1)" using j assms(3) by auto
    have "map c h1 ! p ! j = (if j < length (c (h ! p)) then c (h ! p) ! j else 0)"
      using assms(1) jn by (simp add: h1 ch nth_vector_resize True c_resize_z)
    with dj show ?thesis
      using assms(1) by (auto simp: cf_def cfp_def h1)
  qed
qed

lemma mul_result:
  fixes h :: "'a::comm_ring_1 polynom list"
  assumes "pr < length h" and "p1 < length h" and "p2 < length h"
    and wf: "ZERO_COEFF (h ! p1) = 0"
    and lr: "lr = (if lr0 < 0 then deg (h ! p1) + deg (h ! p2) else lr0)"
  shows "mul h pr p1 p2 lr0 ! pr
       = \<lparr>ZERO_COEFF = 0, c = map (conv (cfp (h ! p1)) (cfp (h ! p2))) [0..<nat (lr + 1)]\<rparr>"
proof -
  define h1 where "h1 = h[pr := resize_z (h ! pr) (nat (lr + 1)) 0]"
  have lr0: "0 \<le> lr"
    using deg_nonneg[of "h ! p1"] deg_nonneg[of "h ! p2"] by (simp add: lr)
  have len: "length h1 = length h" by (simp add: h1_def)
  have cpr: "c (h1 ! pr) = vector_resize (c (h ! pr)) (nat (lr + 1)) 0"
    using assms(1) by (simp add: h1_def c_resize_z)
  have zpr: "ZERO_COEFF (h1 ! pr) = 0"
    using assms(1) by (simp add: h1_def ZERO_resize_z)
  have z1: "ZERO_COEFF (h1 ! p1) = 0"
    using assms(1,2) wf by (cases "p1 = pr") (simp_all add: h1_def ZERO_resize_z)
  have unf: "mul h pr p1 p2 lr0 =
     (if size_p (h1 ! p1) = 0 \<or> size_p (h1 ! p2) = 0
      then store_c h1 (u_zero (map c h1) (pr, 0) (- 1) lr 0)
      else store_c h1 (u_mul (map c h1) (pr, 0) lr (p1, 0) (deg (h ! p1)) (p2, 0) (deg (h ! p2))))"
    using z1 unfolding mul_def Let_def h1_def lr wf by simp
  have full: "blkupd (c (h1 ! pr)) 0 (nat (lr + 1)) f = map f [0..<nat (lr + 1)]" for f
    using blkupd_full[of "c (h1 ! pr)" f] by (simp add: cpr)
  show ?thesis
  proof (cases "size_p (h1 ! p1) = 0 \<or> size_p (h1 ! p2) = 0")
    case True
    have nz: "c (h1 ! pr) \<noteq> []"
      using lr0 by (auto simp: cpr vector_resize_def)
    have "conv (cfp (h ! p1)) (cfp (h ! p2)) i = 0" for i
    proof -
      from True consider "c (h1 ! p1) = []" | "c (h1 ! p2) = []"
        by (auto simp: size_p_def)
      then show ?thesis
      proof cases
        case 1
        with nz have "p1 \<noteq> pr" by auto
        with 1 have "c (h ! p1) = []" by (simp add: h1_def)
        then show ?thesis by (simp add: cfp_empty conv_def)
      next
        case 2
        with nz have "p2 \<noteq> pr" by auto
        with 2 have "c (h ! p2) = []" by (simp add: h1_def)
        then show ?thesis by (simp add: cfp_empty conv_def)
      qed
    qed
    then have "map (conv (cfp (h ! p1)) (cfp (h ! p2))) [0..<nat (lr + 1)] = map (\<lambda>_. 0) [0..<nat (lr + 1)]"
      by simp
    moreover have "mul h pr p1 p2 lr0 ! pr = (h1 ! pr)\<lparr>c := map (\<lambda>_. 0) [0..<nat (lr + 1)]\<rparr>"
      using True assms(1) len unfolding unf
      by (simp add: u_zero_eq nth_store_c memupd_def full)
    ultimately show ?thesis
      using zpr by simp
  next
    case False
    then have ne: "c (h1 ! p1) \<noteq> []" "c (h1 ! p2) \<noteq> []"
      by (auto simp: size_p_def)
    have "u_mul (map c h1) (pr, 0) lr (p1, 0) (deg (h ! p1)) (p2, 0) (deg (h ! p2))
        = memupd (map c h1) (fst (pr, 0::nat)) (snd (pr, 0::nat)) (nat (lr + 1))
            (conv (cf (map c h1) (p1, 0) (deg (h ! p1))) (cf (map c h1) (p2, 0) (deg (h ! p2))))"
      by (rule u_mul_spec)
         (use assms(1-3) lr0 len in \<open>auto simp: deg_nonneg alias_ok_def inb_def cpr\<close>)
    then have "mul h pr p1 p2 lr0 ! pr
        = (h1 ! pr)\<lparr>c := map (conv (cf (map c h1) (p1, 0) (deg (h ! p1))) (cf (map c h1) (p2, 0) (deg (h ! p2))))
                             [0..<nat (lr + 1)]\<rparr>"
      using False assms(1) len unfolding unf
      by (simp add: nth_store_c memupd_def full)
    moreover have "map (conv (cf (map c h1) (p1, 0) (deg (h ! p1))) (cf (map c h1) (p2, 0) (deg (h ! p2)))) [0..<nat (lr + 1)]
        = map (conv (cfp (h ! p1)) (cfp (h ! p2))) [0..<nat (lr + 1)]"
    proof (rule map_cong[OF refl])
      fix i assume "i \<in> set [0..<nat (lr + 1)]"
      then have i: "int i \<le> lr" by auto
      show "conv (cf (map c h1) (p1, 0) (deg (h ! p1))) (cf (map c h1) (p2, 0) (deg (h ! p2))) i
          = conv (cfp (h ! p1)) (cfp (h ! p2)) i"
      proof (rule conv_cong)
        fix j assume "j \<le> i"
        with i have j: "int j \<le> lr" by simp
        show "cf (map c h1) (p1, 0) (deg (h ! p1)) j = cfp (h ! p1) j"
          by (rule cf_after_resize[OF assms(2,1) lr0 h1_def ne(1) j])
        show "cf (map c h1) (p2, 0) (deg (h ! p2)) j = cfp (h ! p2) j"
          by (rule cf_after_resize[OF assms(3,1) lr0 h1_def ne(2) j])
      qed
    qed
    ultimately show ?thesis
      using zpr by simp
  qed
qed

section \<open>Aliasing in mul\<close>

text \<open>
  Claim C6: \<open>mul(pr, p1, p2, lr)\<close> with the output the same object as \<open>p1\<close>, as \<open>p2\<close>, or
  as both, gives the output object the value it gets when the output is a distinct
  object \<open>pr\<close>, for every \<open>lr\<close> (the default \<open>-1\<close> included). \<open>ZERO_COEFF\<close> of \<open>p1\<close> is the
  zero of the ring, as every constructor sets it.
\<close>

theorem C6_mul_alias_safe:
  fixes p1 p2 pr :: "'a::comm_ring_1 polynom"
  assumes "ZERO_COEFF p1 = 0"
  shows "mul [p1, p2] 0 0 1 lr ! 0 = mul [pr, p1, p2] 0 1 2 lr ! 0
       \<and> mul [p1, p2] 1 0 1 lr ! 1 = mul [pr, p1, p2] 0 1 2 lr ! 0
       \<and> mul [p1] 0 0 0 lr ! 0 = mul [pr, p1, p1] 0 1 2 lr ! 0"
proof -
  have a: "mul [p1, p2] 0 0 1 lr ! 0
      = \<lparr>ZERO_COEFF = 0, c = map (conv (cfp p1) (cfp p2)) [0..<nat ((if lr < 0 then deg p1 + deg p2 else lr) + 1)]\<rparr>"
    using mul_result[of 0 "[p1, p2]" 0 1 _ lr] assms by simp
  have b: "mul [p1, p2] 1 0 1 lr ! 1
      = \<lparr>ZERO_COEFF = 0, c = map (conv (cfp p1) (cfp p2)) [0..<nat ((if lr < 0 then deg p1 + deg p2 else lr) + 1)]\<rparr>"
    using mul_result[of 1 "[p1, p2]" 0 1 _ lr] assms by simp
  have d: "mul [pr, p1, p2] 0 1 2 lr ! 0
      = \<lparr>ZERO_COEFF = 0, c = map (conv (cfp p1) (cfp p2)) [0..<nat ((if lr < 0 then deg p1 + deg p2 else lr) + 1)]\<rparr>"
    using mul_result[of 0 "[pr, p1, p2]" 1 2 _ lr] assms by simp
  have e: "mul [p1] 0 0 0 lr ! 0
      = \<lparr>ZERO_COEFF = 0, c = map (conv (cfp p1) (cfp p1)) [0..<nat ((if lr < 0 then deg p1 + deg p1 else lr) + 1)]\<rparr>"
    using mul_result[of 0 "[p1]" 0 0 _ lr] assms by simp
  have f: "mul [pr, p1, p1] 0 1 2 lr ! 0
      = \<lparr>ZERO_COEFF = 0, c = map (conv (cfp p1) (cfp p1)) [0..<nat ((if lr < 0 then deg p1 + deg p1 else lr) + 1)]\<rparr>"
    using mul_result[of 0 "[pr, p1, p1]" 1 2 _ lr] assms by simp
  show ?thesis
    by (simp only: a b d e f)
qed

theorem C6_witness:
  "ZERO_COEFF (polynom_list [1, 2 :: int]) = 0
   \<and> mul [polynom_list [1, 2 :: int], polynom_list [3, 4]] 0 0 1 (- 1) ! 0 = \<lparr>ZERO_COEFF = 0, c = [3, 10, 8]\<rparr>
   \<and> mul [polynom_list [1, 2 :: int], polynom_list [3, 4]] 1 0 1 (- 1) ! 1 = \<lparr>ZERO_COEFF = 0, c = [3, 10, 8]\<rparr>
   \<and> mul [polynom_list [1, 2 :: int]] 0 0 0 (- 1) ! 0
       = mul [polynom_list [5], polynom_list [1, 2 :: int], polynom_list [1, 2]] 0 1 2 (- 1) ! 0"
proof -
  have z: "ZERO_COEFF (polynom_list [1, 2 :: int]) = 0"
    by (simp add: polynom_list_def make_zero_def)
  have v: "mul [polynom_list [5], polynom_list [1, 2 :: int], polynom_list [3, 4]] 0 1 2 (- 1) ! 0
      = \<lparr>ZERO_COEFF = 0, c = [3, 10, 8]\<rparr>"
    by code_simp
  from C6_mul_alias_safe[OF z, of "polynom_list [3, 4]" "- 1" "polynom_list [5]"] z v
  show ?thesis by simp
qed

section \<open>Indexed access to a polynomial\<close>

lemma cfp_wf:
  assumes "ZERO_COEFF p = 0"
  shows "cfp p j = (if j < length (c p) then c p ! j else 0)"
proof (cases "int j \<le> deg p")
  case True
  then show ?thesis by (simp add: cfp_def)
next
  case False
  then have "at_p p (int j) = ZERO_COEFF p"
    by (intro at_above_deg) simp
  with False assms show ?thesis
    by (auto simp: cfp_def at_p_def size_p_def)
qed

lemma c_reserve: "c (reserve p sz) = c p @ replicate (nat sz - length (c p)) (ZERO_COEFF p)"
  by (auto simp: reserve_def vector_resize_def size_p_def)

lemma ZERO_reserve [simp]: "ZERO_COEFF (reserve p sz) = ZERO_COEFF p"
  by (simp add: reserve_def)

lemma reserve_noop: "sz \<le> size_p p \<Longrightarrow> reserve p sz = p"
  by (simp add: reserve_def)

lemma idx_get_in: "0 \<le> i \<Longrightarrow> i < size_p p \<Longrightarrow> idx_get p i = (p, c p ! nat i)"
  by (simp add: idx_get_def reserve_noop)

lemma idx_set_in: "0 \<le> i \<Longrightarrow> i < size_p p \<Longrightarrow> idx_set p i v = p\<lparr>c := (c p)[nat i := v]\<rparr>"
  by (simp add: idx_set_def reserve_noop)

lemma idx_set_reserve: "idx_set (reserve p (i + 1)) i v = idx_set p i v"
  by (simp add: idx_set_def reserve_def size_p_def vector_resize_def)

lemma ZERO_idx_set [simp]: "ZERO_COEFF (idx_set p i v) = ZERO_COEFF p"
  by (simp add: idx_set_def Let_def)

text \<open>A loop \<open>pr[i] = f(pr[i])\<close> over all stored coefficients.\<close>

lemma fold_idx_map_aux:
  assumes "n \<le> length (c pr)"
  shows "fold (\<lambda>i pr. idx_set pr (int i) (F (at_p pr (int i)))) [0..<n] pr
       = pr\<lparr>c := map F (take n (c pr)) @ drop n (c pr)\<rparr>"
  using assms
proof (induction n)
  case 0
  show ?case by simp
next
  case (Suc n)
  define q where "q = pr\<lparr>c := map F (take n (c pr)) @ drop n (c pr)\<rparr>"
  have q: "fold (\<lambda>i pr. idx_set pr (int i) (F (at_p pr (int i)))) [0..<n] pr = q"
    unfolding q_def by (rule Suc.IH) (use Suc.prems in simp)
  have lq: "length (c q) = length (c pr)" using Suc.prems by (simp add: q_def)
  have qn: "c q ! n = c pr ! n" using Suc.prems by (simp add: q_def nth_append)
  have "idx_set q (int n) (F (at_p q (int n))) = q\<lparr>c := (c q)[n := F (c pr ! n)]\<rparr>"
    using Suc.prems lq qn by (simp add: idx_set_in size_p_def at_p_def)
  also have "\<dots> = pr\<lparr>c := map F (take (Suc n) (c pr)) @ drop (Suc n) (c pr)\<rparr>"
  proof -
    have "(map F (take n (c pr)) @ drop n (c pr))[n := F (c pr ! n)]
        = map F (take (Suc n) (c pr)) @ drop (Suc n) (c pr)"
      using Suc.prems
      by (simp add: list_update_append take_Suc_conv_app_nth Cons_nth_drop_Suc[symmetric])
    then show ?thesis by (simp add: q_def)
  qed
  finally show ?case by (simp add: q)
qed

lemma fold_idx_map:
  assumes "int (length (c pr)) = lr + 1"
  shows "fold (\<lambda>i pr. idx_set pr i (F (at_p pr i))) [0..lr] pr = pr\<lparr>c := map F (c pr)\<rparr>"
proof -
  have "fold (\<lambda>i pr. idx_set pr i (F (at_p pr i))) [0..lr] pr
      = fold (\<lambda>i pr. idx_set pr (int i) (F (at_p pr (int i)))) [0..<length (c pr)] pr"
  proof -
    have "nat (lr + 1) = length (c pr)" using assms by arith
    then show ?thesis by (simp add: upto_as_upt fold_map comp_def)
  qed
  then show ?thesis
    by (simp add: fold_idx_map_aux)
qed

lemma div_s_eq:
  "div_s p s = \<lparr>ZERO_COEFF = ZERO_COEFF p,
               c = map (\<lambda>x. x div s) (vector_resize (c p) (nat (deg p + 1)) (ZERO_COEFF p))\<rparr>"
proof -
  define pr where "pr = resize_z p (nat (deg p + 1)) (ZERO_COEFF p)"
  have "int (length (c pr)) = deg p + 1"
    using deg_nonneg[of p] by (simp add: pr_def c_resize_z)
  then have "fold (\<lambda>i pr. idx_set pr i (at_p pr i div s)) [0..deg p] pr = pr\<lparr>c := map (\<lambda>x. x div s) (c pr)\<rparr>"
    by (rule fold_idx_map)
  then show ?thesis
    by (simp add: div_s_def Let_def pr_def[symmetric]) (simp add: pr_def c_resize_z ZERO_resize_z)
qed

lemma cfp_div_s:
  fixes p :: "'a::{comm_ring_1,divide} polynom"
  assumes "ZERO_COEFF p = 0"
  shows "cfp (div_s p s) j = (if int j \<le> deg p then cfp p j div s else 0)"
proof -
  have wf: "ZERO_COEFF (div_s p s) = 0" using assms by (simp add: div_s_eq)
  have cc: "c (div_s p s) = map (\<lambda>x. x div s) (vector_resize (c p) (nat (deg p + 1)) 0)"
    using assms by (simp add: div_s_eq)
  have "cfp (div_s p s) j = (if j < length (c (div_s p s)) then c (div_s p s) ! j else 0)"
    by (rule cfp_wf[OF wf])
  also have "\<dots> = (if int j \<le> deg p then cfp p j div s else 0)"
    using deg_nonneg[of p]
    by (auto simp: cc cfp_wf[OF assms] nth_vector_resize)
  finally show ?thesis .
qed

text \<open>The loop \<open>r[i] = -t[i - k]\<close> for \<open>i\<close> from \<open>m\<close> down to \<open>k\<close>.\<close>

lemma fold_neg_aux:
  assumes "K + n \<le> length (c r)" and "n \<le> length (c t)"
  shows "fold (\<lambda>i (r, t). let (t', v) = idx_get t (i - int K) in (idx_set r i (- v), t'))
           (rev (map (\<lambda>i. int K + int i) [0..<n])) (r, t)
       = (r\<lparr>c := blkupd (c r) K n (\<lambda>j. - (c t ! j))\<rparr>, t)"
  using assms
proof (induction n arbitrary: r)
  case 0
  show ?case by simp
next
  case (Suc n)
  define r1 where "r1 = r\<lparr>c := (c r)[K + n := - (c t ! n)]\<rparr>"
  have 1: "idx_get t (int n) = (t, c t ! n)"
    using Suc.prems by (simp add: idx_get_in size_p_def)
  have 2: "idx_set r (int K + int n) (- (c t ! n)) = r1"
    using Suc.prems by (simp add: idx_set_in size_p_def r1_def nat_add_distrib)
  have "fold (\<lambda>i (r, t). let (t', v) = idx_get t (i - int K) in (idx_set r i (- v), t'))
           (rev (map (\<lambda>i. int K + int i) [0..<n])) (r1, t)
       = (r1\<lparr>c := blkupd (c r1) K n (\<lambda>j. - (c t ! j))\<rparr>, t)"
    by (rule Suc.IH) (use Suc.prems in \<open>simp_all add: r1_def\<close>)
  also have "r1\<lparr>c := blkupd (c r1) K n (\<lambda>j. - (c t ! j))\<rparr> = r\<lparr>c := blkupd (c r) K (Suc n) (\<lambda>j. - (c t ! j))\<rparr>"
    by (simp add: r1_def blkupd_Suc_top)
  finally show ?case
    by (simp add: 1 2)
qed

lemma fold_neg:
  assumes "0 \<le> k" and "k \<le> m" and "m - k < size_p t"
  shows "fold (\<lambda>i (r, t). let (t', v) = idx_get t (i - k) in (idx_set r i (- v), t')) (rev [k..m]) (r, t)
       = ((reserve r (m + 1))\<lparr>c := blkupd (c (reserve r (m + 1))) (nat k) (nat (m - k + 1)) (\<lambda>j. - (c t ! j))\<rparr>, t)"
proof -
  define f where "f = (\<lambda>i (rt :: 'a polynom \<times> 'a polynom). case rt of (r, t) \<Rightarrow>
      let (t', v) = idx_get t (i - k) in (idx_set r i (- v), t'))"
  have first: "f m (r, t) = f m (reserve r (m + 1), t)"
    by (simp add: f_def idx_set_reserve split: prod.splits)
  have km: "[k..m] = [k..m - 1] @ [m]"
    using assms(2) by (simp add: upto_rec2)
  have "fold f (rev [k..m]) (r, t) = fold f (rev [k..m - 1]) (f m (r, t))"
    by (simp add: km)
  also have "\<dots> = fold f (rev [k..m]) (reserve r (m + 1), t)"
    by (simp add: km first)
  also have "\<dots> = fold (\<lambda>i (r, t). let (t', v) = idx_get t (i - int (nat k)) in (idx_set r i (- v), t'))
           (rev (map (\<lambda>i. int (nat k) + int i) [0..<nat (m - k + 1)])) (reserve r (m + 1), t)"
    using assms(1) by (simp add: upto_as_upt f_def)
  also have "\<dots> = ((reserve r (m + 1))\<lparr>c := blkupd (c (reserve r (m + 1))) (nat k) (nat (m - k + 1)) (\<lambda>j. - (c t ! j))\<rparr>, t)"
    by (rule fold_neg_aux) (use assms in \<open>auto simp: c_reserve size_p_def\<close>)
  finally show ?thesis by (simp add: f_def)
qed

section \<open>Newton iteration for the power series inverse\<close>

lemma conv_neg_right: "conv f (\<lambda>j. - g j) n = - conv f (g :: nat \<Rightarrow> 'a::ring) n"
  by (simp add: conv_def sum_negf)

lemma newton_step:
  fixes P R :: "nat \<Rightarrow> 'a::comm_ring_1"
  assumes inv: "\<And>i. i < K \<Longrightarrow> conv P R i = delta i"
    and R0: "\<And>j. K \<le> j \<Longrightarrow> R j = 0"
    and T1: "\<And>j. j \<le> M \<Longrightarrow> T1 j = P j"
    and T3: "\<And>j. j \<le> M - K \<Longrightarrow> T3 j = conv T1 R (j + K)"
    and R': "\<And>j. R' j = (if j < K then R j else if j \<le> M then - conv T3 R (j - K) else 0)"
    and K: "0 < K" "M - K < K"
    and i: "i \<le> M"
  shows "conv P R' i = delta i"
proof (cases "i < K")
  case True
  have "conv P R' i = conv P R i"
    by (rule conv_cong) (use True in \<open>simp_all add: R'\<close>)
  then show ?thesis by (simp add: inv True)
next
  case False
  define D where "D = (\<lambda>j. if j \<le> M - K then - conv T3 R j else 0)"
  define s where "s = i - K"
  have s: "s \<le> M - K" "s < K" "i = s + K"
    using False i K by (simp_all add: s_def)
  have KM: "K \<le> M" using False i by simp
  have R'D: "R' j = R j + shift K D j" for j
    using R0[of j] KM by (auto simp: R' D_def shift_def)
  have "conv P R' i = conv P R i + conv P (shift K D) i"
    unfolding R'D[abs_def] by (rule conv_add_right)
  also have "conv P (shift K D) i = conv P D s"
    using False by (simp add: conv_shift_right s_def)
  also have "conv P D s = conv P (\<lambda>j. - conv T3 R j) s"
    by (rule conv_cong) (use s in \<open>simp_all add: D_def\<close>)
  also have "\<dots> = - conv P (conv T3 R) s"
    by (rule conv_neg_right)
  also have "conv P (conv T3 R) s = conv P (conv R T3) s"
    by (rule conv_cong) (simp_all add: conv_comm)
  also have "\<dots> = conv (conv P R) T3 s"
    by (simp add: conv_assoc)
  also have "\<dots> = conv delta T3 s"
    by (rule conv_cong) (use s inv in simp_all)
  also have "\<dots> = T3 s"
    by (rule conv_delta_left)
  also have "conv P R i = conv T1 R i"
    by (rule conv_cong) (use i T1 in simp_all)
  also have "\<dots> = T3 s"
    using T3[of s] s by simp
  finally have "conv P R' i = 0" by simp
  moreover have "i \<noteq> 0" using False K by simp
  ultimately show ?thesis by (simp add: delta_def)
qed

lemma mul_t_t_r:
  fixes t :: "'a::comm_ring_1 polynom"
  assumes "ZERO_COEFF t = 0" and "0 \<le> lr"
  shows "mul [t, r] 0 0 1 lr ! 0 = \<lparr>ZERO_COEFF = 0, c = map (conv (cfp t) (cfp r)) [0..<nat (lr + 1)]\<rparr>"
  using mul_result[of 0 "[t, r]" 0 1 lr lr] assms by simp

lemma inverse_step_inv:
  fixes p :: "'a::comm_ring_1 polynom"
  assumes wfp: "ZERO_COEFF p = 0" and wfr: "ZERO_COEFF r = 0" and wft: "ZERO_COEFF t = 0"
    and l: "0 < l" "l < L * 2"
    and len: "int (length (c r)) \<le> l div 2 + 1"
    and inv: "\<And>i. int i < l div 2 + 1 \<Longrightarrow> conv (cfp p) (cfp r) i = delta i"
    and res: "inverse_step p L l (r, t) = (r', t')"
  shows "ZERO_COEFF r' = 0" and "ZERO_COEFF t' = 0" and "int (length (c r')) \<le> min (l + 1) L"
    and "\<And>i. int i < min (l + 1) L \<Longrightarrow> conv (cfp p) (cfp r') i = delta i"
proof -
  define k where "k = l div 2 + 1"
  define m where "m = min (L - 1) l"
  define K where "K = nat k"
  define M where "M = nat m"
  have ints: "0 < k" "k \<le> L" "k \<le> l + 1" "0 \<le> m" "m \<le> l" "m < L" "m - k < k" "0 \<le> l - k" "k \<le> m + 1"
    using l unfolding k_def m_def by (simp_all, arith+)
  have nats: "int K = k" "int M = m" "0 < K" "M - K < K"
    using ints by (simp_all add: K_def M_def)
  define t1 where "t1 = t\<lparr>c := take (nat (min (m + 1) (size_p p))) (c p)\<rparr>"
  define t2 where "t2 = mul [t1, r] 0 0 1 (l + 1) ! 0"
  define t3 where "t3 = t2\<lparr>c := drop (nat k) (c t2)\<rparr>"
  define t4 where "t4 = mul [t3, r] 0 0 1 (l - k) ! 0"
  have wf1: "ZERO_COEFF t1 = 0" by (simp add: t1_def wft)
  have t2: "t2 = \<lparr>ZERO_COEFF = 0, c = map (conv (cfp t1) (cfp r)) [0..<nat (l + 1 + 1)]\<rparr>"
    unfolding t2_def by (rule mul_t_t_r) (use l wf1 in simp_all)
  have wf3: "ZERO_COEFF t3 = 0" by (simp add: t3_def t2)
  have t4: "t4 = \<lparr>ZERO_COEFF = 0, c = map (conv (cfp t3) (cfp r)) [0..<nat (l - k + 1)]\<rparr>"
    unfolding t4_def by (rule mul_t_t_r) (use ints wf3 in simp_all)
  have T1: "cfp t1 j = cfp p j" if "j \<le> M" for j
  proof -
    have "c t1 = take (nat (min (m + 1) (size_p p))) (c p)" by (simp add: t1_def)
    then show ?thesis
      using that nats(2) by (auto simp: cfp_wf[OF wf1] cfp_wf[OF wfp] size_p_def)
  qed
  have T3: "cfp t3 j = conv (cfp t1) (cfp r) (j + K)" if "j \<le> M - K" for j
  proof -
    have "K + j < nat (l + 1 + 1)" using that nats ints by arith
    moreover have "c t3 = drop K (map (conv (cfp t1) (cfp r)) [0..<nat (l + 1 + 1)])"
      by (simp add: t3_def t2 K_def)
    moreover have "j < nat (l + 1 + 1) - K" using that nats ints by arith
    ultimately show ?thesis
      by (simp add: cfp_wf[OF wf3] add.commute)
  qed
  have R0: "cfp r j = 0" if "K \<le> j" for j
    using that len nats(1) by (simp add: cfp_wf[OF wfr] k_def)
  have inv': "conv (cfp p) (cfp r) i = delta i" if "i < K" for i
    by (rule inv) (use that nats(1) in \<open>simp add: k_def\<close>)
  have step: "inverse_step p L l (r, t)
      = fold (\<lambda>i (r, t). let (t', v) = idx_get t (i - k) in (idx_set r i (- v), t')) (rev [k..m]) (r, t4)"
    by (simp only: inverse_step_def Let_def prod.case t4_def t3_def t2_def t1_def k_def m_def)
  show "ZERO_COEFF r' = 0" and "ZERO_COEFF t' = 0" and "int (length (c r')) \<le> min (l + 1) L"
    and "\<And>i. int i < min (l + 1) L \<Longrightarrow> conv (cfp p) (cfp r') i = delta i"
  proof -
    have r': "ZERO_COEFF r' = 0 \<and> ZERO_COEFF t' = 0 \<and> int (length (c r')) \<le> m + 1
        \<and> (\<forall>j. cfp r' j = (if j < K then cfp r j else if j \<le> M then - conv (cfp t3) (cfp r) (j - K) else 0))"
    proof (cases "k \<le> m")
      case False
      then have "[k..m] = []" by simp
      with step res have eq: "r' = r" "t' = t4" by simp_all
      have "cfp r j = (if j < K then cfp r j else if j \<le> M then - conv (cfp t3) (cfp r) (j - K) else 0)" for j
        using False nats R0[of j] by auto
      moreover have "int (length (c r)) \<le> m + 1" using len False ints by (simp add: k_def)
      ultimately show ?thesis using wfr by (simp add: eq t4)
    next
      case True
      have sz: "m - k < size_p t4" using ints by (simp add: t4 size_p_def)
      define r0 where "r0 = reserve r (m + 1)"
      have eq: "r' = r0\<lparr>c := blkupd (c r0) (nat k) (nat (m - k + 1)) (\<lambda>j. - (c t4 ! j))\<rparr>" "t' = t4"
        using res unfolding step fold_neg[OF less_imp_le[OF ints(1)] True sz] r0_def by auto
      have wf': "ZERO_COEFF r' = 0" by (simp add: eq r0_def wfr)
      have lr0: "length (c r0) = M + 1"
        using len True nats ints by (simp add: r0_def c_reserve k_def M_def)
      have lr': "length (c r') = M + 1" by (simp add: eq lr0)
      have KM: "K \<le> M" using True nats by simp
      have cnt: "nat (m - k + 1) = M - K + 1" using True nats by simp
      have "cfp r' j = (if j < K then cfp r j else if j \<le> M then - conv (cfp t3) (cfp r) (j - K) else 0)" for j
      proof -
        consider "j < K" | "K \<le> j" "j \<le> M" | "M < j" by arith
        then show ?thesis
        proof cases
          case 1
          then have "cfp r' j = c r0 ! j"
            using KM by (simp add: cfp_wf[OF wf'] lr') (simp add: eq nth_blkupd K_def[symmetric])
          also have "\<dots> = cfp r j"
          proof -
            have "j < nat (m + 1)" using 1 KM nats by simp
            then have "\<not> j < length (c r) \<Longrightarrow> j - length (c r) < nat (m + 1) - length (c r)"
              by arith
            then show ?thesis
              using wfr by (auto simp: r0_def c_reserve cfp_wf[OF wfr] nth_append)
          qed
          finally show ?thesis using 1 by simp
        next
          case 2
          have "j - K < nat (l - k + 1)" using 2 nats ints by arith
          then have "c t4 ! (j - K) = conv (cfp t3) (cfp r) (j - K)"
            by (simp add: t4)
          then have "cfp r' j = - conv (cfp t3) (cfp r) (j - K)"
            using 2 by (simp add: cfp_wf[OF wf'] lr') (simp add: eq nth_blkupd K_def[symmetric] cnt lr0)
          then show ?thesis using 2 by simp
        next
          case 3
          then show ?thesis using KM by (simp add: cfp_wf[OF wf'] lr')
        qed
      qed
      then show ?thesis using wf' lr' nats by (simp add: eq t4)
    qed
    from r' show "ZERO_COEFF r' = 0" and "ZERO_COEFF t' = 0" by simp_all
    from r' ints show "int (length (c r')) \<le> min (l + 1) L" by simp
    fix i assume i: "int i < min (l + 1) L"
    have "int i \<le> m" using i by (simp add: m_def)
    then have iM: "i \<le> M" using nats(2) by simp
    from r' have R': "\<And>j. cfp r' j = (if j < K then cfp r j else if j \<le> M then - conv (cfp t3) (cfp r) (j - K) else 0)"
      by simp
    show "conv (cfp p) (cfp r') i = delta i"
      by (rule newton_step[where R = "cfp r" and K = K and M = M and ?T1.0 = "cfp t1" and ?T3.0 = "cfp t3"])
        (use inv' R0 T1 T3 R' nats iM in simp_all)
  qed
qed

lemma inverse_loop_inv:
  fixes p :: "'a::comm_ring_1 polynom"
  assumes "ZERO_COEFF p = 0" and "ZERO_COEFF (fst rt) = 0" and "ZERO_COEFF (snd rt) = 0"
    and "0 < l"
    and "int (length (c (fst rt))) \<le> min (l div 2 + 1) L"
    and "\<And>i. int i < min (l div 2 + 1) L \<Longrightarrow> conv (cfp p) (cfp (fst rt)) i = delta i"
  shows "ZERO_COEFF (fst (inverse_loop p L l rt)) = 0
       \<and> (\<forall>i. int i < L \<longrightarrow> conv (cfp p) (cfp (fst (inverse_loop p L l rt))) i = delta i)"
  using assms
proof (induction p L l rt rule: inverse_loop.induct)
  case (1 p L l rt)
  show ?case
  proof (cases "0 < l \<and> l < L * 2")
    case True
    obtain r t where rt: "rt = (r, t)" by (cases rt)
    obtain r' t' where st: "inverse_step p L l (r, t) = (r', t')" by (cases "inverse_step p L l (r, t)")
    have kL: "min (l div 2 + 1) L = l div 2 + 1" using True by arith
    have len: "int (length (c r)) \<le> l div 2 + 1" using "1.prems"(5) by (simp only: kL rt fst_conv)
    have inv: "conv (cfp p) (cfp r) i = delta i" if "int i < l div 2 + 1" for i
      using "1.prems"(6)[of i] that by (simp only: kL rt fst_conv)
    note S = inverse_step_inv[OF "1.prems"(1) _ _ _ _ len inv st]
    have wfr: "ZERO_COEFF r = 0" and wft: "ZERO_COEFF t = 0"
      using "1.prems"(2,3) by (simp_all add: rt)
    have l: "0 < l" "l < L * 2" using True by simp_all
    have k2: "l * 2 div 2 + 1 = l + 1" by simp
    have "ZERO_COEFF (fst (inverse_loop p L (l * 2) (inverse_step p L l rt))) = 0
       \<and> (\<forall>i. int i < L \<longrightarrow> conv (cfp p) (cfp (fst (inverse_loop p L (l * 2) (inverse_step p L l rt)))) i = delta i)"
    proof (rule "1.IH"[OF True "1.prems"(1)])
      show "ZERO_COEFF (fst (inverse_step p L l rt)) = 0"
        using S(1)[OF wfr wft l] by (simp add: rt st)
      show "ZERO_COEFF (snd (inverse_step p L l rt)) = 0"
        using S(2)[OF wfr wft l] by (simp add: rt st)
      show "0 < l * 2" using l by simp
      show "int (length (c (fst (inverse_step p L l rt)))) \<le> min (l * 2 div 2 + 1) L"
        using S(3)[OF wfr wft l] by (simp only: k2 rt st fst_conv)
      show "conv (cfp p) (cfp (fst (inverse_step p L l rt))) i = delta i"
        if "int i < min (l * 2 div 2 + 1) L" for i
        using S(4)[OF wfr wft l, of i] that by (simp only: k2 rt st fst_conv)
    qed
    moreover have "inverse_loop p L l rt = inverse_loop p L (l * 2) (inverse_step p L l rt)"
      by (subst inverse_loop.simps) (use True in simp)
    ultimately show ?thesis by simp
  next
    case False
    then have out: "inverse_loop p L l rt = rt"
      by (subst inverse_loop.simps) auto
    have "min (l div 2 + 1) L = L" using False "1.prems"(4) by arith
    then show ?thesis
      using "1.prems"(2,6) by (simp add: out)
  qed
qed

lemma inverse_p_unit:
  fixes p :: "'a::{comm_ring_1,divide} polynom"
  assumes wf: "ZERO_COEFF p = 0" and ne: "c p \<noteq> []" and c0: "c p ! 0 = 1" and L: "1 \<le> L"
  shows "\<exists>r. inverse_p p L = Some r \<and> ZERO_COEFF r = 0
           \<and> (\<forall>i. int i < L \<longrightarrow> conv (cfp p) (cfp r) i = delta i)"
proof -
  define rt :: "'a polynom \<times> 'a polynom" where "rt = (polynom_list [id_coeff p], polynom_c0 0)"
  have eq: "inverse_p p L = Some (fst (inverse_loop p L 1 rt))"
    by (subst inverse_p.simps) (simp add: wf c0 id_coeff_def rt_def)
  have wfr: "ZERO_COEFF (fst rt) = 0" "ZERO_COEFF (snd rt) = 0"
    by (simp_all add: rt_def polynom_list_def polynom_c0_def make_zero_def)
  have p0: "cfp p 0 = 1" using ne c0 by (simp add: cfp_wf[OF wf])
  have r0: "cfp (fst rt) 0 = 1"
    by (simp add: cfp_wf[OF wfr(1)]) (simp add: rt_def polynom_list_def id_coeff_def)
  have "ZERO_COEFF (fst (inverse_loop p L 1 rt)) = 0
       \<and> (\<forall>i. int i < L \<longrightarrow> conv (cfp p) (cfp (fst (inverse_loop p L 1 rt))) i = delta i)"
  proof (rule inverse_loop_inv[OF wf wfr])
    show "(0::int) < 1" by simp
    show "int (length (c (fst rt))) \<le> min (1 div 2 + 1) L"
      using L by (simp add: rt_def polynom_list_def)
    show "conv (cfp p) (cfp (fst rt)) i = delta i" if "int i < min (1 div 2 + 1) L" for i
    proof -
      have "i = 0" using that by simp
      then show ?thesis by (simp add: conv_def p0 r0 delta_def)
    qed
  qed
  then show ?thesis by (simp add: eq)
qed

lemma cfp_div_s_exact:
  fixes p :: "'a::{comm_ring_1,divide} polynom"
  assumes wf: "ZERO_COEFF p = 0" and ex: "\<And>x. x div u * u = x"
  shows "cfp (div_s p u) j * u = cfp p j"
  by (simp add: cfp_div_s[OF wf] ex cfp_support)

lemma inverse_p_correct:
  fixes p :: "'a::{comm_ring_1,divide} polynom"
  assumes wf: "ZERO_COEFF p = 0" and ne: "c p \<noteq> []"
    and ex: "\<And>x. x div (c p ! 0) * (c p ! 0) = x" and L: "1 \<le> L"
  shows "\<exists>r. inverse_p p L = Some r \<and> ZERO_COEFF r = 0
           \<and> (\<forall>i. int i < L \<longrightarrow> conv (cfp p) (cfp r) i = delta i)"
proof (cases "c p ! 0 = 1")
  case True
  then show ?thesis by (rule inverse_p_unit[OF wf ne _ L])
next
  case False
  define u where "u = c p ! 0"
  have exu: "x div u * u = x" for x using ex by (simp add: u_def)
  have cancel: "x = y" if "x * u = y * u" for x y
  proof -
    have "x * (u * (1 div u)) = y * (u * (1 div u))"
      using that by (simp only: mult.assoc[symmetric])
    moreover have "u * (1 div u) = 1" using exu[of 1] by (simp add: mult.commute)
    ultimately show ?thesis by simp
  qed
  have u0: "u \<noteq> 0"
  proof
    assume "u = 0"
    with exu[of 1] show False by simp
  qed
  define p' where "p' = div_s p u"
  have wf': "ZERO_COEFF p' = 0" by (simp add: p'_def div_s_eq wf)
  have ne': "c p' \<noteq> []" using deg_nonneg[of p] by (simp add: p'_def div_s_eq vector_resize_def ne)
  have P: "cfp p' j * u = cfp p j" for j
    unfolding p'_def by (rule cfp_div_s_exact[OF wf exu])
  have "cfp p 0 = u" using ne by (simp add: cfp_wf[OF wf] u_def)
  then have "cfp p' 0 * u = 1 * u"
    by (simp add: P)
  then have "cfp p' 0 = 1" by (rule cancel)
  then have c0': "c p' ! 0 = 1" using ne' by (simp add: cfp_wf[OF wf'])
  obtain r' where r': "inverse_p p' L = Some r'" "ZERO_COEFF r' = 0"
      "\<And>i. int i < L \<Longrightarrow> conv (cfp p') (cfp r') i = delta i"
    using inverse_p_unit[OF wf' ne' c0' L] by blast
  have eq: "inverse_p p L = Some (div_s r' u)"
    by (subst inverse_p.simps)
      (use False u0 in \<open>simp add: wf id_coeff_def operator_div_s_def u_def[symmetric] p'_def[symmetric] r'(1)\<close>)
  have R: "cfp (div_s r' u) j * u = cfp r' j" for j
    by (rule cfp_div_s_exact[OF r'(2) exu])
  have "conv (cfp p) (cfp (div_s r' u)) i = conv (cfp p') (cfp r') i" for i
  proof -
    have "cfp p j * cfp (div_s r' u) x = cfp p' j * cfp r' x" for j x
      unfolding P[symmetric] R[symmetric] by (simp add: mult_ac)
    then show ?thesis by (simp add: conv_def)
  qed
  moreover have "ZERO_COEFF (div_s r' u) = 0" by (simp add: div_s_eq r'(2))
  ultimately show ?thesis using r'(3) by (simp add: eq)
qed




section \<open>Long division\<close>

lemma ZERO_idx_upd [simp]: "ZERO_COEFF (idx_upd p i f) = ZERO_COEFF p"
  by (simp add: idx_upd_def idx_get_def Let_def)

lemma at_idx_upd:
  assumes "0 \<le> i"
  shows "at_p (idx_upd p i f) n = (if n = i then f (at_p p i) else at_p p n)"
proof (cases "i < size_p p")
  case True
  then have "idx_upd p i f = p\<lparr>c := (c p)[nat i := f (c p ! nat i)]\<rparr>"
    using assms by (simp add: idx_upd_def idx_get_in)
  then show ?thesis
    using True assms by (auto simp: at_p_def size_p_def)
next
  case False
  define xs where "xs = c p @ replicate (nat (i + 1) - length (c p)) (ZERO_COEFF p)"
  have ni: "\<not> nat i < length (c p)" "nat i - length (c p) < nat (i + 1) - length (c p)"
    using False assms by (simp_all add: size_p_def)
  have len: "length xs = nat (i + 1)" using False assms by (simp add: xs_def size_p_def)
  have xi: "xs ! nat i = ZERO_COEFF p"
    using ni by (simp add: xs_def nth_append)
  have xn: "xs ! nat n = (if n < size_p p then c p ! nat n else ZERO_COEFF p)" if "0 \<le> n" "n \<le> i" for n
    using that False by (auto simp: xs_def size_p_def nth_append)
  have "idx_upd p i f = p\<lparr>c := xs[nat i := f (xs ! nat i)]\<rparr>"
    using False by (simp add: idx_upd_def idx_get_def Let_def reserve_def vector_resize_def xs_def size_p_def)
  then show ?thesis
    using False assms len xi xn[of n]
    by (auto simp: at_p_def size_p_def nth_list_update)
qed

lemma nth_idx_upd:
  assumes "0 \<le> i"
  shows "c (idx_upd p i f) ! nat i = f (at_p p i)"
proof -
  have "int (length (c (idx_upd p i f))) > i"
    using assms by (auto simp: idx_upd_def idx_get_def Let_def reserve_def vector_resize_def size_p_def)
  then have "c (idx_upd p i f) ! nat i = at_p (idx_upd p i f) i"
    using assms by (simp add: at_p_def size_p_def)
  then show ?thesis by (simp add: at_idx_upd[OF assms])
qed

lemma upto_Suc_int: "[1..int (Suc m)] = [1..int m] @ [int m + 1]"
  by (simp add: upto_rec2)

lemma long_inner:
  fixes pr :: "'a::comm_ring_1 polynom"
  assumes "int m \<le> i"
  shows "ZERO_COEFF (fold (\<lambda>j pr. idx_upd pr (i - j) (\<lambda>v. v - s * at_p p2 (l2 - j))) [1..int m] pr) = ZERO_COEFF pr
       \<and> (\<forall>n. at_p (fold (\<lambda>j pr. idx_upd pr (i - j) (\<lambda>v. v - s * at_p p2 (l2 - j))) [1..int m] pr) n
           = (if i - int m \<le> n \<and> n < i then at_p pr n - s * at_p p2 (l2 - (i - n)) else at_p pr n))"
  using assms
proof (induction m)
  case 0
  show ?case by auto
next
  case (Suc m)
  define q where "q = fold (\<lambda>j pr. idx_upd pr (i - j) (\<lambda>v. v - s * at_p p2 (l2 - j))) [1..int m] pr"
  have IH: "ZERO_COEFF q = ZERO_COEFF pr"
    "\<And>n. at_p q n = (if i - int m \<le> n \<and> n < i then at_p pr n - s * at_p p2 (l2 - (i - n)) else at_p pr n)"
    using Suc by (simp_all add: q_def)
  have i: "0 \<le> i - (int m + 1)" using Suc.prems by simp
  have f: "fold (\<lambda>j pr. idx_upd pr (i - j) (\<lambda>v. v - s * at_p p2 (l2 - j))) [1..int (Suc m)] pr
         = idx_upd q (i - (int m + 1)) (\<lambda>v. v - s * at_p p2 (l2 - (int m + 1)))"
    by (simp only: upto_Suc_int fold_append comp_def fold.simps id_def q_def)
  show ?case
    unfolding f by (auto simp: at_idx_upd[OF i] IH)
qed

lemma long_body_at:
  fixes pr :: "'a::{comm_ring_1,divide} polynom"
  assumes "0 \<le> l2" and "l2 \<le> i" and "ZERO_COEFF p1 = 0"
  shows "ZERO_COEFF (long_body p1 p2 l2 i pr) = ZERO_COEFF pr"
    and "at_p (long_body p1 p2 l2 i pr) n
         = (if n = i then at_p pr i div at_p p2 l2
            else if i - l2 \<le> n \<and> n < i then at_p pr n - (at_p pr i div at_p p2 l2) * at_p p2 (l2 - (i - n))
            else at_p pr n)"
proof -
  define pr1 where "pr1 = idx_upd pr i (\<lambda>v. v div at_p p2 l2)"
  define s where "s = at_p pr i div at_p p2 l2"
  have i: "0 \<le> i" using assms by simp
  have s: "c pr1 ! nat i = s" by (simp add: pr1_def s_def nth_idx_upd[OF i])
  have m: "int (nat l2) \<le> i" "int (nat l2) = l2" using assms by simp_all
  note inner = long_inner[OF m(1), of s p2 l2 pr1, unfolded m(2)]
  have body: "long_body p1 p2 l2 i pr = (if s = 0 then pr1
       else fold (\<lambda>j pr. idx_upd pr (i - j) (\<lambda>v. v - s * at_p p2 (l2 - j))) [1..l2] pr1)"
    by (simp add: long_body_def Let_def pr1_def[symmetric] s assms(3))
  show "ZERO_COEFF (long_body p1 p2 l2 i pr) = ZERO_COEFF pr"
    using inner by (simp add: body) (simp add: pr1_def)
  show "at_p (long_body p1 p2 l2 i pr) n
         = (if n = i then at_p pr i div at_p p2 l2
            else if i - l2 \<le> n \<and> n < i then at_p pr n - (at_p pr i div at_p p2 l2) * at_p p2 (l2 - (i - n))
            else at_p pr n)"
    unfolding s_def[symmetric]
    using inner by (auto simp: body) (auto simp: pr1_def at_idx_upd[OF i] s_def)
qed

lemma conv_add_left': "conv (\<lambda>j. f j + f' j) g n = conv f g n + conv f' (g :: nat \<Rightarrow> 'a::semiring_0) n"
  by (simp add: conv_def distrib_right sum.distrib)

lemma conv_single:
  "conv (\<lambda>j. if j = J then s else 0) g n = (if J \<le> n then s * g (n - J) else (0 :: 'a::semiring_0))"
proof -
  have "(\<Sum>j\<le>n. (if j = J then s else 0) * g (n - j)) = (\<Sum>j\<le>n. if j = J then s * g (n - J) else 0)"
    by (rule sum.cong) simp_all
  then show ?thesis by (simp add: conv_def)
qed

text \<open>
  The buffer \<open>A\<close> of long division, read as a quotient in the positions from \<open>e\<close> to
  \<open>L1\<close> and as a remainder below \<open>e\<close>.
\<close>

definition qpart :: "nat \<Rightarrow> nat \<Rightarrow> nat \<Rightarrow> (nat \<Rightarrow> 'a::zero) \<Rightarrow> nat \<Rightarrow> 'a" where
  "qpart L1 L2 e A j = (if e \<le> j + L2 \<and> j + L2 \<le> L1 then A (j + L2) else 0)"

definition rpart :: "nat \<Rightarrow> (nat \<Rightarrow> 'a::zero) \<Rightarrow> nat \<Rightarrow> 'a" where
  "rpart e A n = (if n < e then A n else 0)"

lemma long_div_step:
  fixes P1 P2 A A' :: "nat \<Rightarrow> 'a::comm_ring_1"
  assumes inv: "\<And>n. P1 n = conv (qpart L1 L2 (Suc I) A) P2 n + rpart (Suc I) A n"
    and I: "L2 \<le> I" "I \<le> L1"
    and P2: "\<And>j. L2 < j \<Longrightarrow> P2 j = 0"
    and su: "s * P2 L2 = A I"
    and A': "\<And>n. A' n = (if n = I then s else if I - L2 \<le> n \<and> n < I then A n - s * P2 (L2 - (I - n)) else A n)"
  shows "P1 n = conv (qpart L1 L2 I A') P2 n + rpart I A' n"
proof -
  define J where "J = I - L2"
  have Q: "qpart L1 L2 I A' j = qpart L1 L2 (Suc I) A j + (if j = J then s else 0)" for j
    using I by (auto simp: qpart_def A' J_def)
  have "conv (qpart L1 L2 I A') P2 n = conv (qpart L1 L2 (Suc I) A) P2 n + conv (\<lambda>j. if j = J then s else 0) P2 n"
    unfolding Q[abs_def] by (rule conv_add_left')
  also have "conv (\<lambda>j. if j = J then s else 0) P2 n = (if J \<le> n then s * P2 (n - J) else 0)"
    by (rule conv_single)
  finally have c: "conv (qpart L1 L2 I A') P2 n
      = conv (qpart L1 L2 (Suc I) A) P2 n + (if J \<le> n then s * P2 (n - J) else 0)" .
  have "rpart (Suc I) A n = (if J \<le> n then s * P2 (n - J) else 0) + rpart I A' n"
  proof -
    consider "I < n" | "n = I" | "J \<le> n" "n < I" | "n < J" by arith
    then show ?thesis
    proof cases
      case 1
      then have "L2 < n - J" using I by (simp add: J_def)
      then have "P2 (n - J) = 0" by (rule P2)
      then show ?thesis using 1 by (simp add: rpart_def)
    next
      case 2
      then have "n - J = L2" "J \<le> n" using I by (simp_all add: J_def)
      then show ?thesis using 2 su by (simp add: rpart_def)
    next
      case 3
      then have "L2 - (I - n) = n - J" using I by (simp add: J_def)
      then show ?thesis using 3 by (simp add: rpart_def A' J_def)
    next
      case 4
      then show ?thesis using I by (auto simp: rpart_def A' J_def)
    qed
  qed
  then show ?thesis by (simp add: inv c)
qed

lemma rev_upto_as_upt:
  "rev [a..b] = map (\<lambda>d. b - int d) [0..<nat (b - a + 1)]"
proof -
  have "rev (map (\<lambda>i. a + int i) [0..<n]) = map (\<lambda>d. a + int n - 1 - int d) [0..<n]" for n
    by (rule nth_equalityI) (auto simp: rev_nth)
  from this[of "nat (b - a + 1)"] show ?thesis
    by (cases "a \<le> b") (simp_all add: upto_as_upt)
qed

lemma cfp_at: "ZERO_COEFF p = 0 \<Longrightarrow> cfp p n = at_p p (int n)"
  by (simp add: cfp_wf at_p_def size_p_def)

lemma long_loop_inv:
  fixes p1 p2 :: "'a::{comm_ring_1,divide} polynom"
  assumes wf: "ZERO_COEFF p1 = 0" and wf2: "ZERO_COEFF p2 = 0"
    and l: "0 \<le> l2" "l2 \<le> l1" "l1 = deg p1" "l2 = deg p2"
    and ex: "\<And>x. x div at_p p2 l2 * at_p p2 l2 = x"
    and d: "d \<le> nat (l1 - l2 + 1)"
  shows "ZERO_COEFF (fold (long_body p1 p2 l2) (map (\<lambda>d. l1 - int d) [0..<d]) p1) = 0
    \<and> (\<forall>n. cfp p1 n = conv (qpart (nat l1) (nat l2) (nat l1 + 1 - d)
                 (\<lambda>n. at_p (fold (long_body p1 p2 l2) (map (\<lambda>d. l1 - int d) [0..<d]) p1) (int n))) (cfp p2) n
              + rpart (nat l1 + 1 - d)
                 (\<lambda>n. at_p (fold (long_body p1 p2 l2) (map (\<lambda>d. l1 - int d) [0..<d]) p1) (int n)) n)"
  using d
proof (induction d)
  case 0
  have "cfp p1 n = rpart (nat l1 + 1) (\<lambda>n. at_p p1 (int n)) n" for n
    using l(3) cfp_support[of p1 n] by (auto simp: rpart_def cfp_at[OF wf])
  moreover have "conv (qpart (nat l1) (nat l2) (nat l1 + 1) A) (cfp p2) n = 0" for A :: "nat \<Rightarrow> 'a" and n
    by (rule conv_zero_left) (auto simp: qpart_def)
  ultimately show ?case by (simp add: wf)
next
  case (Suc d)
  define pr where "pr = fold (long_body p1 p2 l2) (map (\<lambda>d. l1 - int d) [0..<d]) p1"
  define i where "i = l1 - int d"
  define I where "I = nat i"
  have i: "l2 \<le> i" "i \<le> l1" "0 \<le> i" using Suc.prems l by (simp_all add: i_def)
  have I: "nat l2 \<le> I" "I \<le> nat l1" "int I = i" "nat l1 + 1 - d = Suc I" "nat l1 + 1 - Suc d = I"
    using i l Suc.prems by (simp_all add: I_def i_def) 
  have IH: "ZERO_COEFF pr = 0"
    "\<And>n. cfp p1 n = conv (qpart (nat l1) (nat l2) (Suc I) (\<lambda>n. at_p pr (int n))) (cfp p2) n
              + rpart (Suc I) (\<lambda>n. at_p pr (int n)) n"
  proof -
    from Suc.prems have "d \<le> nat (l1 - l2 + 1)" by simp
    note ih = Suc.IH[OF this, folded pr_def, unfolded I(4)]
    from ih show "ZERO_COEFF pr = 0" by simp
    from ih show "\<And>n. cfp p1 n = conv (qpart (nat l1) (nat l2) (Suc I) (\<lambda>n. at_p pr (int n))) (cfp p2) n
              + rpart (Suc I) (\<lambda>n. at_p pr (int n)) n" by simp
  qed
  have f: "fold (long_body p1 p2 l2) (map (\<lambda>d. l1 - int d) [0..<Suc d]) p1 = long_body p1 p2 l2 i pr"
    by (simp add: pr_def i_def)
  note B = long_body_at[OF l(1) i(1) wf, of p2 pr]
  have P2: "cfp p2 j = 0" if "nat l2 < j" for j
    by (rule cfp_support) (use that l in simp)
  have P2L: "cfp p2 (nat l2) = at_p p2 l2"
    using l(1) by (simp add: cfp_at[OF wf2])
  have P2n: "at_p p2 (l2 - (i - int n)) = cfp p2 (nat l2 - (I - n))" if "I - nat l2 \<le> n" "n < I" for n
  proof -
    have "l2 - (i - int n) = int (nat l2 - (I - n))" using that I l by simp
    then show ?thesis
      by (simp only: cfp_at[OF wf2])
  qed
  have step: "cfp p1 n = conv (qpart (nat l1) (nat l2) I (\<lambda>n. at_p (long_body p1 p2 l2 i pr) (int n))) (cfp p2) n
              + rpart I (\<lambda>n. at_p (long_body p1 p2 l2 i pr) (int n)) n" for n
  proof (rule long_div_step[where A = "\<lambda>n. at_p pr (int n)" and s = "at_p pr i div at_p p2 l2", OF IH(2) I(1,2) P2])
    show "at_p pr i div at_p p2 l2 * cfp p2 (nat l2) = at_p pr (int I)"
      by (simp add: P2L ex I(3))
    show "at_p (long_body p1 p2 l2 i pr) (int n) =
         (if n = I then at_p pr i div at_p p2 l2
          else if I - nat l2 \<le> n \<and> n < I
               then at_p pr (int n) - at_p pr i div at_p p2 l2 * cfp p2 (nat l2 - (I - n))
               else at_p pr (int n))" for n
    proof -
      consider "n = I" | "I - nat l2 \<le> n" "n < I" | "n \<noteq> I" "\<not> (I - nat l2 \<le> n \<and> n < I)"
        by blast
      then show ?thesis
      proof cases
        case 1
        have "int n = i" using 1 I(3) by simp
        then show ?thesis using 1 by (simp only: B(2) if_True simp_thms)
      next
        case 2
        have "int n \<noteq> i" "i - l2 \<le> int n \<and> int n < i" "n \<noteq> I" using 2 I(3) l(1) by arith+
        then show ?thesis using 2 by (simp only: B(2) if_True if_False P2n[OF 2] simp_thms)
      next
        case 3
        have "int n \<noteq> i" "\<not> (i - l2 \<le> int n \<and> int n < i)" using 3 I(3) l(1) by arith+
        then show ?thesis using 3 by (simp only: B(2) if_True if_False simp_thms)
      qed
    qed
  qed
  show ?case
    unfolding f I(5) using step B(1) IH(1) by simp
qed

lemma lowest_loop_prop:
  assumes "0 \<le> i" and "i \<le> k" and "k < size_p p" and "c p ! nat k \<noteq> ZERO_COEFF p"
  shows "i \<le> lowest_loop p i \<and> lowest_loop p i \<le> k
       \<and> (\<forall>j. i \<le> j \<and> j < lowest_loop p i \<longrightarrow> c p ! nat j = ZERO_COEFF p)"
  using assms
proof (induction p i rule: lowest_loop.induct)
  case (1 p i)
  have i: "i < size_p p" using "1.prems" by simp
  show ?case
  proof (cases "c p ! nat i = ZERO_COEFF p")
    case False
    then have "lowest_loop p i = i"
      using i by (subst lowest_loop.simps) simp
    then show ?thesis using "1.prems" by auto
  next
    case True
    then have eq: "lowest_loop p i = lowest_loop p (i + 1)"
      using i by (subst lowest_loop.simps) simp
    have "i \<noteq> k" using True "1.prems"(4) by auto
    then have ik: "i + 1 \<le> k" using "1.prems"(2) by simp
    have IH: "i + 1 \<le> lowest_loop p (i + 1) \<and> lowest_loop p (i + 1) \<le> k
       \<and> (\<forall>j. i + 1 \<le> j \<and> j < lowest_loop p (i + 1) \<longrightarrow> c p ! nat j = ZERO_COEFF p)"
      by (rule "1.IH") (use i True ik "1.prems" in simp_all)
    have "c p ! nat j = ZERO_COEFF p" if "i \<le> j" "j < lowest_loop p (i + 1)" for j
    proof (cases "j = i")
      case True
      then show ?thesis using \<open>c p ! nat i = ZERO_COEFF p\<close> by simp
    next
      case False
      then show ?thesis using IH that by simp
    qed
    then show ?thesis using IH by (simp add: eq)
  qed
qed

lemma is_power_cfp:
  fixes p :: "'a::comm_ring_1 polynom"
  assumes wf: "ZERO_COEFF p = 0" and pw: "is_power p"
  shows "cfp p j = (if j = nat (deg p) then 1 else 0)"
proof -
  have lc: "at_p p (deg p) = 1" and lw: "lowest p = deg p"
    using pw by (simp_all add: is_power_def leading_coeff_def id_coeff_def)
  have in_range: "deg p < size_p p" "c p ! nat (deg p) = 1"
    using lc wf deg_nonneg[of p] by (auto simp: at_p_def split: if_splits)
  have "c p ! nat (deg p) \<noteq> ZERO_COEFF p" using in_range wf by simp
  from lowest_loop_prop[OF order_refl deg_nonneg in_range(1) this]
  have low: "\<And>j. 0 \<le> j \<Longrightarrow> j < deg p \<Longrightarrow> c p ! nat j = 0"
    using lw wf by (simp add: lowest_def)
  consider "int j < deg p" | "int j = deg p" | "deg p < int j" by arith
  then show ?thesis
  proof cases
    case 1
    then have "c p ! j = 0" using low[of "int j"] by simp
    moreover have "j \<noteq> nat (deg p)" "int j \<le> deg p" "j < length (c p)"
      using 1 in_range(1) by (simp_all add: size_p_def)
    ultimately show ?thesis by (simp add: cfp_def)
  next
    case 2
    then have "j = nat (deg p)" by simp
    then show ?thesis using in_range deg_nonneg[of p] by (simp add: cfp_def size_p_def)
  next
    case 3
    then have "j \<noteq> nat (deg p)" using deg_nonneg[of p] by auto
    then show ?thesis using 3 by (simp add: cfp_support)
  qed
qed

text \<open>
  What both division algorithms leave in \<open>pr\<close>: with \<open>Q\<close> the coefficients from \<open>l2\<close> to
  \<open>l1\<close> and \<open>R\<close> the coefficients below \<open>l2\<close>, \<open>p1 = Q * p2 + R\<close>.
\<close>

definition qr_ok :: "'a::comm_ring_1 polynom \<Rightarrow> 'a polynom \<Rightarrow> 'a polynom \<Rightarrow> bool" where
  "qr_ok p1 p2 pr = (ZERO_COEFF pr = 0 \<and>
     (\<forall>n. cfp p1 n = conv (qpart (nat (deg p1)) (nat (deg p2)) (nat (deg p2)) (\<lambda>n. at_p pr (int n))) (cfp p2) n
                    + rpart (nat (deg p2)) (\<lambda>n. at_p pr (int n)) n))"

lemma qr_ok_power:
  fixes p1 p2 :: "'a::comm_ring_1 polynom"
  assumes wf: "ZERO_COEFF p1 = 0" and wf2: "ZERO_COEFF p2 = 0" and pw: "is_power p2"
  shows "qr_ok p1 p2 p1"
proof -
  define L1 where "L1 = nat (deg p1)"
  define L2 where "L2 = nat (deg p2)"
  have P2: "cfp p2 = (\<lambda>j. if j = L2 then 1 else 0)"
    by (rule ext) (simp add: is_power_cfp[OF wf2 pw] L2_def)
  have "cfp p1 n = conv (qpart L1 L2 L2 (\<lambda>n. at_p p1 (int n))) (cfp p2) n + rpart L2 (\<lambda>n. at_p p1 (int n)) n" for n
  proof -
    have "conv (qpart L1 L2 L2 (\<lambda>n. at_p p1 (int n))) (cfp p2) n
        = (if L2 \<le> n then qpart L1 L2 L2 (\<lambda>n. at_p p1 (int n)) (n - L2) else 0)"
      unfolding P2 by (subst conv_comm) (simp add: conv_single)
    moreover have "cfp p1 n = 0" if "L1 < n"
      by (rule cfp_support) (use that in \<open>simp add: L1_def\<close>)
    ultimately show ?thesis
      by (auto simp: qpart_def rpart_def cfp_at[OF wf])
  qed
  then show ?thesis by (simp add: qr_ok_def wf L1_def L2_def)
qed

lemma quot_rem_long_eq:
  "quot_rem_long p1 p2 =
     (if deg p1 - deg p2 < 0 \<or> is_power p2 then p1
      else fold (long_body p1 p2 (deg p2)) (rev [deg p2..deg p1]) p1)"
  by (simp add: quot_rem_long_def Let_def)

lemma quot_rem_long_spec:
  fixes p1 p2 :: "'a::{comm_ring_1,divide} polynom"
  assumes wf: "ZERO_COEFF p1 = 0" and wf2: "ZERO_COEFF p2 = 0"
    and l: "deg p2 \<le> deg p1"
    and ex: "\<And>x. x div at_p p2 (deg p2) * at_p p2 (deg p2) = x"
  shows "qr_ok p1 p2 (quot_rem_long p1 p2)"
proof (cases "is_power p2")
  case True
  then show ?thesis by (simp add: quot_rem_long_eq qr_ok_power[OF wf wf2])
next
  case False
  define d where "d = nat (deg p1 - deg p2 + 1)"
  have eq: "quot_rem_long p1 p2 = fold (long_body p1 p2 (deg p2)) (map (\<lambda>d. deg p1 - int d) [0..<d]) p1"
    using False l by (simp add: quot_rem_long_eq rev_upto_as_upt d_def)
  have e: "nat (deg p1) + 1 - d = nat (deg p2)"
    using l deg_nonneg[of p2] by (simp add: d_def)
  show ?thesis
    unfolding qr_ok_def eq
    using long_loop_inv[OF wf wf2 deg_nonneg l refl refl ex, of d, unfolded e] by (simp add: d_def)
qed

section \<open>Addition, subtraction and reversal\<close>

lemma fold_idx_mapi_aux:
  assumes "n \<le> length (c pr)"
  shows "fold (\<lambda>i pr. idx_set pr (int i) (F i (at_p pr (int i)))) [0..<n] pr
       = pr\<lparr>c := map (\<lambda>i. F i (c pr ! i)) [0..<n] @ drop n (c pr)\<rparr>"
  using assms
proof (induction n)
  case 0
  show ?case by simp
next
  case (Suc n)
  define q where "q = pr\<lparr>c := map (\<lambda>i. F i (c pr ! i)) [0..<n] @ drop n (c pr)\<rparr>"
  have q: "fold (\<lambda>i pr. idx_set pr (int i) (F i (at_p pr (int i)))) [0..<n] pr = q"
    unfolding q_def by (rule Suc.IH) (use Suc.prems in simp)
  have lq: "length (c q) = length (c pr)" using Suc.prems by (simp add: q_def)
  have qn: "c q ! n = c pr ! n" using Suc.prems by (simp add: q_def nth_append)
  have "idx_set q (int n) (F n (at_p q (int n))) = q\<lparr>c := (c q)[n := F n (c pr ! n)]\<rparr>"
    using Suc.prems lq qn by (simp add: idx_set_in size_p_def at_p_def)
  also have "\<dots> = pr\<lparr>c := map (\<lambda>i. F i (c pr ! i)) [0..<Suc n] @ drop (Suc n) (c pr)\<rparr>"
  proof -
    have "(map (\<lambda>i. F i (c pr ! i)) [0..<n] @ drop n (c pr))[n := F n (c pr ! n)]
        = map (\<lambda>i. F i (c pr ! i)) [0..<Suc n] @ drop (Suc n) (c pr)"
      using Suc.prems
      by (simp add: list_update_append Cons_nth_drop_Suc[symmetric])
    then show ?thesis by (simp add: q_def)
  qed
  finally show ?case by (simp add: q)
qed

lemma fold_idx_mapi:
  assumes "int (length (c pr)) = lr + 1"
  shows "fold (\<lambda>i pr. idx_set pr i (F i (at_p pr i))) [0..lr] pr
       = pr\<lparr>c := map (\<lambda>i. F (int i) (c pr ! i)) [0..<length (c pr)]\<rparr>"
proof -
  have n: "nat (lr + 1) = length (c pr)" using assms by arith
  have "fold (\<lambda>i pr. idx_set pr i (F i (at_p pr i))) [0..lr] pr
      = fold (\<lambda>i pr. idx_set pr (int i) (F (int i) (at_p pr (int i)))) [0..<length (c pr)] pr"
    by (simp add: upto_as_upt fold_map comp_def n)
  then show ?thesis
    by (simp add: fold_idx_mapi_aux[where F = "\<lambda>i. F (int i)"])
qed

lemma at_zero_above:
  assumes "ZERO_COEFF p = 0" and "deg p < i"
  shows "at_p p i = 0"
  using at_above_deg[OF assms(2)] assms(1) by simp

lemma sub_p_at:
  fixes p1 p2 :: "'a::comm_ring_1 polynom"
  assumes wf1: "ZERO_COEFF p1 = 0" and wf2: "ZERO_COEFF p2 = 0"
  shows "ZERO_COEFF (sub_p p1 p2) = 0" and "at_p (sub_p p1 p2) (int n) = at_p p1 (int n) - at_p p2 (int n)"
proof -
  define lr where "lr = max (deg p1) (deg p2)"
  define pr where "pr = resize_z p1 (nat (lr + 1)) (ZERO_COEFF p1)"
  have lr: "0 \<le> lr" using deg_nonneg[of p1] by (simp add: lr_def)
  have len: "int (length (c pr)) = lr + 1" using lr by (simp add: pr_def c_resize_z)
  have eq: "sub_p p1 p2 = pr\<lparr>c := map (\<lambda>i. c pr ! i - at_p p2 (int i)) [0..<length (c pr)]\<rparr>"
    unfolding sub_p_def Let_def lr_def[symmetric] pr_def[symmetric]
    by (rule fold_idx_mapi[OF len])
  show "ZERO_COEFF (sub_p p1 p2) = 0" by (simp add: eq pr_def ZERO_resize_z wf1)
  show "at_p (sub_p p1 p2) (int n) = at_p p1 (int n) - at_p p2 (int n)"
  proof (cases "int n \<le> lr")
    case True
    then have n: "n < nat (lr + 1)" by simp
    have len': "length (c pr) = nat (lr + 1)" using len by arith
    have "c pr ! n = at_p p1 (int n)"
      using n wf1 by (simp add: pr_def c_resize_z nth_vector_resize at_p_def size_p_def)
    moreover have cs: "c (sub_p p1 p2) = map (\<lambda>i. c pr ! i - at_p p2 (int i)) [0..<nat (lr + 1)]"
      by (simp add: eq len')
    have "int n < size_p (sub_p p1 p2)" using n by (simp add: size_p_def cs)
    then have "at_p (sub_p p1 p2) (int n) = c (sub_p p1 p2) ! n"
      by (simp add: at_p_def)
    moreover have "c (sub_p p1 p2) ! n = c pr ! n - at_p p2 (int n)"
      using n by (simp add: cs)
    ultimately show ?thesis by simp
  next
    case False
    then have "at_p p1 (int n) = 0" "at_p p2 (int n) = 0"
      by (auto intro!: at_zero_above wf1 wf2 simp: lr_def)
    moreover have "at_p (sub_p p1 p2) (int n) = 0"
      using False len by (simp add: eq at_p_def size_p_def pr_def ZERO_resize_z wf1)
    ultimately show ?thesis by simp
  qed
qed

lemma add_p_at:
  fixes p1 p2 :: "'a::comm_ring_1 polynom"
  assumes wf1: "ZERO_COEFF p1 = 0" and wf2: "ZERO_COEFF p2 = 0"
  shows "ZERO_COEFF (add_p p1 p2) = 0" and "at_p (add_p p1 p2) (int n) = at_p p1 (int n) + at_p p2 (int n)"
proof -
  define lr where "lr = max (deg p1) (deg p2)"
  define pr where "pr = resize_z p1 (nat (lr + 1)) (ZERO_COEFF p1)"
  have lr: "0 \<le> lr" using deg_nonneg[of p1] by (simp add: lr_def)
  have len: "int (length (c pr)) = lr + 1" using lr by (simp add: pr_def c_resize_z)
  have eq: "add_p p1 p2 = pr\<lparr>c := map (\<lambda>i. c pr ! i + at_p p2 (int i)) [0..<length (c pr)]\<rparr>"
    unfolding add_p_def Let_def lr_def[symmetric] pr_def[symmetric]
    by (rule fold_idx_mapi[OF len])
  show "ZERO_COEFF (add_p p1 p2) = 0" by (simp add: eq pr_def ZERO_resize_z wf1)
  show "at_p (add_p p1 p2) (int n) = at_p p1 (int n) + at_p p2 (int n)"
  proof (cases "int n \<le> lr")
    case True
    then have n: "n < nat (lr + 1)" by simp
    have len': "length (c pr) = nat (lr + 1)" using len by arith
    have "c pr ! n = at_p p1 (int n)"
      using n wf1 by (simp add: pr_def c_resize_z nth_vector_resize at_p_def size_p_def)
    moreover have cs: "c (add_p p1 p2) = map (\<lambda>i. c pr ! i + at_p p2 (int i)) [0..<nat (lr + 1)]"
      by (simp add: eq len')
    have "int n < size_p (add_p p1 p2)" using n by (simp add: size_p_def cs)
    then have "at_p (add_p p1 p2) (int n) = c (add_p p1 p2) ! n"
      by (simp add: at_p_def)
    moreover have "c (add_p p1 p2) ! n = c pr ! n + at_p p2 (int n)"
      using n by (simp add: cs)
    ultimately show ?thesis by simp
  next
    case False
    then have "at_p p1 (int n) = 0" "at_p p2 (int n) = 0"
      by (auto intro!: at_zero_above wf1 wf2 simp: lr_def)
    moreover have "at_p (add_p p1 p2) (int n) = 0"
      using False len by (simp add: eq at_p_def size_p_def pr_def ZERO_resize_z wf1)
    ultimately show ?thesis by simp
  qed
qed

lemma operator_mul_at:
  fixes p q :: "'a::comm_ring_1 polynom"
  assumes wf: "ZERO_COEFF p = 0"
  shows "ZERO_COEFF (operator_mul p q) = 0"
    and "at_p (operator_mul p q) (int n) = conv (cfp p) (cfp q) n"
proof -
  have m: "operator_mul p q
      = \<lparr>ZERO_COEFF = 0, c = map (conv (cfp p) (cfp q)) [0..<nat (deg p + deg q + 1)]\<rparr>"
    unfolding operator_mul_def
    using mul_result[of 0 "[p, q]" 0 1 "deg p + deg q" "- 1"] wf by simp
  show "ZERO_COEFF (operator_mul p q) = 0" by (simp add: m)
  show "at_p (operator_mul p q) (int n) = conv (cfp p) (cfp q) n"
  proof (cases "n < nat (deg p + deg q + 1)")
    case True
    moreover from True have "int n \<le> deg p + deg q" by arith
    ultimately show ?thesis by (simp add: m at_p_def size_p_def)
  next
    case False
    have "conv (cfp p) (cfp q) n = 0"
    proof (rule conv_support[where a = "nat (deg p)" and b = "nat (deg q)"])
      show "cfp p j = 0" if "nat (deg p) < j" for j by (rule cfp_support) (use that in simp)
      show "cfp q j = 0" if "nat (deg q) < j" for j by (rule cfp_support) (use that in simp)
      show "nat (deg p) + nat (deg q) < n" using False deg_nonneg[of p] deg_nonneg[of q] by simp
    qed
    moreover have "\<not> int n < int (nat (deg p + deg q + 1))"
      using False by arith
    then have "\<not> int n < size_p (operator_mul p q)"
      by (simp only: m size_p_def polynom.simps length_map length_upt diff_zero simp_thms)
    ultimately show ?thesis by (simp add: at_p_def) (simp add: m)
  qed
qed

definition revf :: "nat \<Rightarrow> (nat \<Rightarrow> 'a::zero) \<Rightarrow> nat \<Rightarrow> 'a" where
  "revf a f j = (if j \<le> a then f (a - j) else 0)"

lemma cfp_reverse:
  fixes p :: "'a::comm_ring_1 polynom"
  assumes wf: "ZERO_COEFF p = 0"
  shows "ZERO_COEFF (reverse p) = 0" and "cfp (reverse p) j = revf (nat (deg p)) (cfp p) j"
proof -
  show wfr: "ZERO_COEFF (reverse p) = 0" by (simp add: reverse_def Let_def wf)
  show "cfp (reverse p) j = revf (nat (deg p)) (cfp p) j"
  proof (cases "c p = []")
    case True
    then have "reverse p = p" by (simp add: reverse_def)
    then show ?thesis using True by (simp add: cfp_empty revf_def)
  next
    case False
    define L where "L = nat (deg p)"
    have L: "L < length (c p)" using deg_less_size[OF False] deg_nonneg[of p] by (simp add: L_def size_p_def)
    have cr: "c (reverse p) = rev (take (Suc L) (c p)) @ drop (Suc L) (c p)"
      using False deg_nonneg[of p] by (simp add: reverse_def Let_def L_def nat_add_distrib)
    have len: "length (c (reverse p)) = length (c p)" using L by (simp add: cr)
    show ?thesis
    proof (cases "j \<le> L")
      case True
      have lt: "length (take (Suc L) (c p)) = Suc L" using L by simp
      have "c (reverse p) ! j = rev (take (Suc L) (c p)) ! j"
        using True lt by (simp add: cr nth_append)
      also have "\<dots> = take (Suc L) (c p) ! (L - j)"
        using True lt by (simp add: rev_nth)
      also have "\<dots> = c p ! (L - j)" by simp
      finally have "c (reverse p) ! j = c p ! (L - j)" .
      moreover have "L - j < length (c p)" "j < length (c p)" using L True by arith+
      ultimately show ?thesis
        using True by (simp add: cfp_wf[OF wfr] len cfp_wf[OF wf] revf_def L_def[symmetric])
    next
      case False
      have "cfp (reverse p) j = (if j < length (c p) then c p ! j else 0)"
        using False L by (simp add: cfp_wf[OF wfr] len) (simp add: cr nth_append min_def)
      also have "\<dots> = cfp p j" by (simp add: cfp_wf[OF wf])
      also have "\<dots> = 0" by (rule cfp_support) (use False in \<open>simp add: L_def\<close>)
      finally show ?thesis using False by (simp add: revf_def L_def)
    qed
  qed
qed

lemma conv_reverse:
  fixes f g :: "nat \<Rightarrow> 'a::comm_semiring_0"
  assumes f: "\<And>j. a < j \<Longrightarrow> f j = 0" and g: "\<And>j. b < j \<Longrightarrow> g j = 0" and i: "i \<le> a + b"
  shows "conv (revf a f) (revf b g) i = conv f g (a + b - i)"
proof -
  define n where "n = a + b - i"
  define S where "S = {j. j \<le> i \<and> j \<le> a \<and> i - j \<le> b}"
  define T where "T = {k. k \<le> n \<and> k \<le> a \<and> n - k \<le> b}"
  have "conv (revf a f) (revf b g) i = (\<Sum>j\<in>S. revf a f j * revf b g (i - j))"
    unfolding conv_def
    by (rule sum.mono_neutral_right) (auto simp: S_def revf_def)
  also have "\<dots> = (\<Sum>k\<in>T. f k * g (n - k))"
  proof (rule sum.reindex_bij_witness[where i = "\<lambda>k. a - k" and j = "\<lambda>j. a - j"])
    fix j assume "j \<in> S"
    then have j: "j \<le> i" "j \<le> a" "i - j \<le> b" by (simp_all add: S_def)
    show "a - (a - j) = j" using j by simp
    show "a - j \<in> T" using j i by (auto simp: T_def n_def)
    have "n - (a - j) = b - (i - j)" using j i by (simp add: n_def)
    then show "f (a - j) * g (n - (a - j)) = revf a f j * revf b g (i - j)"
      using j by (simp add: revf_def)
  next
    fix k assume "k \<in> T"
    then have k: "k \<le> n" "k \<le> a" "n - k \<le> b" by (simp_all add: T_def)
    show "a - (a - k) = k" using k by simp
    show "a - k \<in> S" using k i by (auto simp: S_def n_def)
  qed
  also have "\<dots> = conv f g n"
    unfolding conv_def
  proof (rule sum.mono_neutral_left)
    show "finite {..n}" by simp
    show "T \<subseteq> {..n}" by (auto simp: T_def)
    show "\<forall>k\<in>{..n} - T. f k * g (n - k) = 0"
    proof
      fix k assume "k \<in> {..n} - T"
      then have "a < k \<or> b < n - k" by (auto simp: T_def)
      then show "f k * g (n - k) = 0" using f[of k] g[of "n - k"] by auto
    qed
  qed
  finally show ?thesis by (simp add: n_def)
qed

section \<open>Division by the inverse of the reversed divisor\<close>

lemma hensel_identity:
  fixes P1 P2 IV :: "nat \<Rightarrow> 'a::comm_ring_1"
  assumes inv: "\<And>i. i \<le> LQ \<Longrightarrow> conv (revf L2 P2) IV i = delta i"
    and P2: "\<And>j. L2 < j \<Longrightarrow> P2 j = 0"
    and Q: "Q = revf LQ (conv IV (revf L1 P1))"
    and L: "L1 = L2 + LQ" and n: "L2 \<le> n" "n \<le> L1"
  shows "conv Q P2 n = P1 n"
proof -
  define i where "i = L1 - n"
  have i: "i \<le> LQ" "i \<le> L2 + LQ" "L2 + LQ - i = n" "L1 - i = n" "i \<le> L1"
    using n L by (simp_all add: i_def)
  have Q0: "Q j = 0" if "LQ < j" for j using that by (simp add: Q revf_def)
  have "conv (revf L2 P2) (revf LQ Q) i = conv P2 Q (L2 + LQ - i)"
    by (rule conv_reverse[OF P2 Q0 i(2)])
  moreover have "conv (revf L2 P2) (revf LQ Q) i = conv (revf L2 P2) (conv IV (revf L1 P1)) i"
    by (rule conv_cong) (use i in \<open>simp_all add: Q revf_def\<close>)
  moreover have "conv (revf L2 P2) (conv IV (revf L1 P1)) i = conv (conv (revf L2 P2) IV) (revf L1 P1) i"
    by (simp add: conv_assoc)
  moreover have "conv (conv (revf L2 P2) IV) (revf L1 P1) i = conv delta (revf L1 P1) i"
    by (rule conv_cong) (use i inv in simp_all)
  moreover have "conv delta (revf L1 P1) i = P1 n"
    using i by (simp add: conv_delta_left revf_def)
  ultimately have "conv P2 Q n = P1 n" by (simp add: i(3))
  then show ?thesis by (simp add: conv_comm)
qed

lemma exact_nonzero:
  fixes u :: "'a::{comm_ring_1,divide}"
  assumes "\<And>x. x div u * u = x"
  shows "u \<noteq> 0"
proof
  assume "u = 0"
  with assms[of 1] show False by simp
qed

lemma quot_rem_hensel_spec:
  fixes p1 p2 :: "'a::{comm_ring_1,divide} polynom"
  assumes wf: "ZERO_COEFF p1 = 0" and wf2: "ZERO_COEFF p2 = 0"
    and l: "deg p2 \<le> deg p1"
    and ex: "\<And>x. x div at_p p2 (deg p2) * at_p p2 (deg p2) = x"
  shows "\<exists>pr. quot_rem_hensel p1 p2 = Some pr \<and> qr_ok p1 p2 pr"
proof (cases "is_power p2")
  case True
  then show ?thesis by (simp add: quot_rem_hensel_def qr_ok_power[OF wf wf2])
next
  case False
  define l1 where "l1 = deg p1"
  define l2 where "l2 = deg p2"
  define lq where "lq = l1 - l2"
  define L1 where "L1 = nat l1"
  define L2 where "L2 = nat l2"
  define LQ where "LQ = nat lq"
  have ints: "0 \<le> l2" "0 \<le> lq" "0 \<le> l1"
    using l deg_nonneg[of p2] by (simp_all add: l1_def l2_def lq_def)
  have nats: "L1 = L2 + LQ" "nat (lq + 1) = Suc LQ" "int LQ = lq" "int L2 = l2"
    using ints by (simp_all add: L1_def L2_def LQ_def lq_def)
  define rp2 where "rp2 = reverse p2"
  have ne2: "c p2 \<noteq> []"
  proof
    assume "c p2 = []"
    then have "at_p p2 (deg p2) = 0" using deg_nonneg[of p2] by (auto simp: at_p_def size_p_def wf2)
    with exact_nonzero[of "at_p p2 (deg p2)", OF ex] show False by simp
  qed
  have wfr2: "ZERO_COEFF rp2 = 0" unfolding rp2_def by (rule cfp_reverse(1)[OF wf2])
  have RP2: "cfp rp2 = revf L2 (cfp p2)"
    unfolding rp2_def L2_def l2_def by (rule ext) (rule cfp_reverse(2)[OF wf2])
  have ner: "c rp2 \<noteq> []"
    using ne2 by (auto simp: rp2_def reverse_def Let_def)
  have "c rp2 ! 0 = cfp rp2 0" using ner by (simp add: cfp_wf[OF wfr2])
  also have "\<dots> = at_p p2 (deg p2)"
    using ints by (simp add: RP2 revf_def cfp_at[OF wf2] L2_def l2_def)
  finally have r0: "c rp2 ! 0 = at_p p2 (deg p2)" .
  have exr: "x div (c rp2 ! 0) * (c rp2 ! 0) = x" for x
    unfolding r0 by (rule ex)
  have "1 \<le> lq + 1" using ints by simp
  from inverse_p_correct[OF wfr2 ner exr this]
  obtain iv where iv: "inverse_p rp2 (lq + 1) = Some iv" "ZERO_COEFF iv = 0"
      "\<And>i. int i < lq + 1 \<Longrightarrow> conv (cfp rp2) (cfp iv) i = delta i"
    by blast
  define q0 :: "'a polynom" where "q0 = polynom_c0 0"
  define q1 where "q1 = mul [q0, iv, reverse p1] 0 1 2 lq ! 0"
  define q2 where "q2 = q1\<lparr>c := rev (take (nat (lq + 1)) (c q1)) @ drop (nat (lq + 1)) (c q1)\<rparr>"
  define pr1 where "pr1 = sub_p p1 (operator_mul q2 p2)"
  define q3 where "q3 = q2\<lparr>c := replicate (nat l2) (ZERO_COEFF q2) @ c q2\<rparr>"
  define pr2 where "pr2 = add_p pr1 q3"
  have res: "quot_rem_hensel p1 p2 = Some pr2"
  proof -
    have nl: "\<not> (deg p1 - deg p2 < 0 \<or> is_power p2)" using False l by simp
    have i: "inverse_p (reverse p2) (deg p1 - deg p2 + 1) = Some iv"
      using iv(1) by (simp add: rp2_def lq_def l1_def l2_def)
    show ?thesis
      unfolding quot_rem_hensel_def Let_def pr2_def pr1_def q3_def q2_def q1_def q0_def lq_def l1_def l2_def
      by (simp only: nl if_False i option.case)
  qed
  define RP1 where "RP1 = revf L1 (cfp p1)"
  have RP1: "cfp (reverse p1) = RP1"
    unfolding RP1_def L1_def l1_def by (rule ext) (rule cfp_reverse(2)[OF wf])
  have q1: "q1 = \<lparr>ZERO_COEFF = 0, c = map (conv (cfp iv) RP1) [0..<Suc LQ]\<rparr>"
    unfolding q1_def
    using mul_result[of 0 "[q0, iv, reverse p1]" 1 2 lq lq] ints(2) iv(2)
    by (simp add: RP1 nats(2))
  define Q where "Q = revf LQ (conv (cfp iv) RP1)"
  have wfq2: "ZERO_COEFF q2 = 0" by (simp add: q2_def q1)
  have cq2: "c q2 = rev (map (conv (cfp iv) RP1) [0..<Suc LQ])"
    by (simp add: q2_def q1 nats(2))
  have Q2: "cfp q2 = Q"
  proof
    fix j
    show "cfp q2 j = Q j"
    proof (cases "j \<le> LQ")
      case True
      then have "rev (map (conv (cfp iv) RP1) [0..<Suc LQ]) ! j = conv (cfp iv) RP1 (LQ - j)"
        by (simp add: rev_nth del: upt_Suc)
      then show ?thesis using True by (simp add: cfp_wf[OF wfq2] cq2 Q_def revf_def del: upt_Suc)
    next
      case False
      then show ?thesis by (simp add: cfp_wf[OF wfq2] cq2 Q_def revf_def)
    qed
  qed
  have wfm: "ZERO_COEFF (operator_mul q2 p2) = 0" by (rule operator_mul_at(1)[OF wfq2])
  have atm: "at_p (operator_mul q2 p2) (int n) = conv Q (cfp p2) n" for n
    by (simp add: operator_mul_at(2)[OF wfq2] Q2)
  have wf1': "ZERO_COEFF pr1 = 0" unfolding pr1_def by (rule sub_p_at(1)[OF wf wfm])
  have at1: "at_p pr1 (int n) = cfp p1 n - conv Q (cfp p2) n" for n
    unfolding pr1_def by (simp add: sub_p_at(2)[OF wf wfm] atm cfp_at[OF wf])
  have wfq3: "ZERO_COEFF q3 = 0" by (simp add: q3_def wfq2)
  have at3: "at_p q3 (int n) = shift L2 Q n" for n
  proof -
    have "at_p q3 (int n) = cfp q3 n" by (simp add: cfp_at[OF wfq3])
    also have "\<dots> = (if n < L2 + length (c q2) then (replicate L2 0 @ c q2) ! n else 0)"
      by (simp add: cfp_wf[OF wfq3]) (simp add: q3_def wfq2 L2_def add.commute)
    also have "\<dots> = shift L2 Q n"
      using cfp_wf[OF wfq2, of "n - L2"] by (auto simp: shift_def nth_append Q2)
    finally show ?thesis .
  qed
  have wf2': "ZERO_COEFF pr2 = 0" unfolding pr2_def by (rule add_p_at(1)[OF wf1' wfq3])
  have at2: "at_p pr2 (int n) = cfp p1 n - conv Q (cfp p2) n + shift L2 Q n" for n
    unfolding pr2_def by (simp add: add_p_at(2)[OF wf1' wfq3] at1 at3)
  have P2s: "cfp p2 j = 0" if "L2 < j" for j
    by (rule cfp_support) (use that in \<open>simp add: L2_def l2_def\<close>)
  have P1s: "cfp p1 j = 0" if "L1 < j" for j
    by (rule cfp_support) (use that in \<open>simp add: L1_def l1_def\<close>)
  have Qs: "Q j = 0" if "LQ < j" for j using that by (simp add: Q_def revf_def)
  have key: "conv Q (cfp p2) n = cfp p1 n" if "L2 \<le> n" "n \<le> L1" for n
  proof (rule hensel_identity[where IV = "cfp iv" and LQ = LQ and ?L2.0 = L2 and ?L1.0 = L1, OF _ P2s _ nats(1) that])
    show "conv (revf L2 (cfp p2)) (cfp iv) i = delta i" if "i \<le> LQ" for i
      using iv(3)[of i] that nats(3) by (simp add: RP2)
    show "Q = revf LQ (conv (cfp iv) (revf L1 (cfp p1)))"
      by (simp add: Q_def RP1_def)
  qed
  have high: "conv Q (cfp p2) n = 0" if "L1 < n" for n
  proof (rule conv_support[where a = LQ and b = L2])
    show "Q j = 0" if "LQ < j" for j by (rule Qs[OF that])
    show "cfp p2 j = 0" if "L2 < j" for j by (rule P2s[OF that])
    show "LQ + L2 < n" using \<open>L1 < n\<close> nats(1) by simp
  qed
  have qp: "qpart L1 L2 L2 (\<lambda>n. at_p pr2 (int n)) = Q"
  proof
    fix j
    show "qpart L1 L2 L2 (\<lambda>n. at_p pr2 (int n)) j = Q j"
    proof (cases "j \<le> LQ")
      case True
      then have "L2 \<le> j + L2" "j + L2 \<le> L1" using nats(1) by simp_all
      from key[OF this] this show ?thesis by (simp add: qpart_def at2 shift_def)
    next
      case False
      then show ?thesis using nats(1) by (simp add: qpart_def Qs)
    qed
  qed
  have main: "cfp p1 n = conv Q (cfp p2) n + rpart L2 (\<lambda>n. at_p pr2 (int n)) n" for n
  proof -
    consider "n < L2" | "L2 \<le> n" "n \<le> L1" | "L1 < n" by arith
    then show ?thesis
    proof cases
      case 1
      then show ?thesis by (simp add: rpart_def at2 shift_def)
    next
      case 2
      then show ?thesis by (simp add: rpart_def key)
    next
      case 3
      then have "\<not> n < L2" using nats(1) by simp
      then show ?thesis using 3 by (simp add: rpart_def high P1s)
    qed
  qed
  have "qr_ok p1 p2 pr2"
    unfolding qr_ok_def l1_def[symmetric] l2_def[symmetric] L1_def[symmetric] L2_def[symmetric] qp
    using wf2' main by simp
  then show ?thesis using res by simp
qed

section \<open>Quotient and remainder\<close>

lemma cmp_loop_equal:
  fixes p1 p2 :: "'a::preorder polynom"
  assumes "\<And>n. at_p p1 (int n) = at_p p2 (int n)"
  shows "cmp_loop p1 p2 i = 0"
proof (induction "nat (i + 1)" arbitrary: i)
  case 0
  then have "\<not> 0 \<le> i" by simp
  then show ?case by (subst cmp_loop.simps) simp
next
  case (Suc k)
  then have i: "0 \<le> i" and k: "k = nat (i - 1 + 1)" by simp_all
  have e: "at_p p1 i = at_p p2 i" using assms[of "nat i"] i by simp
  have "cmp_loop p1 p2 i = cmp_loop p1 p2 (i - 1)"
    using i e by (subst cmp_loop.simps) simp
  also have "\<dots> = 0" by (rule Suc.hyps(1)[OF k])
  finally show ?case .
qed

lemma operator_eq_coeffs:
  fixes p1 p2 :: "'a::preorder polynom"
  assumes "\<And>n. at_p p1 (int n) = at_p p2 (int n)"
  shows "operator_eq p1 p2"
  by (simp add: operator_eq_def cmp_def cmp_loop_equal[OF assms])

lemma quot_rem_spec:
  fixes p1 p2 :: "'a::{comm_ring_1,divide} polynom"
  assumes wf: "ZERO_COEFF p1 = 0" and wf2: "ZERO_COEFF p2 = 0"
    and l: "deg p2 \<le> deg p1"
    and ex: "\<And>x. x div at_p p2 (deg p2) * at_p p2 (deg p2) = x"
  shows "\<exists>pr. quot_rem lt p1 p2 = Some pr \<and> qr_ok p1 p2 pr"
  using quot_rem_long_spec[OF assms] quot_rem_hensel_spec[OF assms]
  by (auto simp: quot_rem_def Let_def)

lemma idx_set_as_upd: "idx_set p i v = idx_upd p i (\<lambda>_. v)"
  by (simp add: idx_set_def idx_upd_def idx_get_def Let_def)

lemma at_idx_set: "0 \<le> i \<Longrightarrow> at_p (idx_set p i v) n = (if n = i then v else at_p p n)"
  by (simp add: idx_set_as_upd at_idx_upd)

lemma at_reserve [simp]: "at_p (reserve p k) n = at_p p n"
  by (auto simp: reserve_def at_p_def size_p_def vector_resize_def nth_append)

lemma idx_get_at: "0 \<le> k \<Longrightarrow> idx_get p k = (reserve p (k + 1), at_p p k)"
proof -
  assume k: "0 \<le> k"
  have "k < size_p (reserve p (k + 1))"
    by (auto simp: reserve_def size_p_def vector_resize_def)
  then have "c (reserve p (k + 1)) ! nat k = at_p (reserve p (k + 1)) k"
    using k by (simp add: at_p_def)
  then show ?thesis by (simp add: idx_get_def Let_def)
qed

text \<open>The loop \<open>pr[i] = pr[i + l2]\<close> of \<open>div\<close>.\<close>

lemma shift_down:
  assumes l2: "0 \<le> l2"
  shows "ZERO_COEFF (fold (\<lambda>i pr. let (pr', v) = idx_get pr (i + l2) in idx_set pr' i v) (map int [0..<m]) pr) = ZERO_COEFF pr
       \<and> (\<forall>n. at_p (fold (\<lambda>i pr. let (pr', v) = idx_get pr (i + l2) in idx_set pr' i v) (map int [0..<m]) pr) n
             = (if 0 \<le> n \<and> n < int m then at_p pr (n + l2) else at_p pr n))"
proof (induction m)
  case 0
  show ?case by auto
next
  case (Suc m)
  define q where "q = fold (\<lambda>i pr. let (pr', v) = idx_get pr (i + l2) in idx_set pr' i v) (map int [0..<m]) pr"
  have IH: "ZERO_COEFF q = ZERO_COEFF pr"
    "\<And>n. at_p q n = (if 0 \<le> n \<and> n < int m then at_p pr (n + l2) else at_p pr n)"
    using Suc by (simp_all add: q_def)
  have k: "0 \<le> int m + l2" using l2 by simp
  have f: "fold (\<lambda>i pr. let (pr', v) = idx_get pr (i + l2) in idx_set pr' i v) (map int [0..<Suc m]) pr
      = idx_set (reserve q (int m + l2 + 1)) (int m) (at_p q (int m + l2))"
    by (simp add: q_def idx_get_at[OF k])
  have "at_p q (int m + l2) = at_p pr (int m + l2)" using l2 by (simp add: IH)
  then show ?case
    unfolding f by (auto simp: at_idx_set IH)
qed

lemma c_resize: "c (resize p n) = vector_resize (c p) n (ZERO_COEFF p)"
  by (simp add: resize_def size_p_def vector_resize_def)

lemma c_resize_at: "c (resize p n) = map (\<lambda>i. at_p p (int i)) [0..<n]"
  by (rule nth_equalityI) (simp_all add: c_resize nth_vector_resize at_p_def size_p_def)

lemma div_p_extract:
  assumes "quot_rem lt p1 p2 = Some pr" and "deg p2 \<le> deg p1"
  shows "\<exists>q. div_p lt pr0 p1 p2 = Some q \<and> ZERO_COEFF q = ZERO_COEFF pr
           \<and> c q = map (\<lambda>i. at_p pr (int i + deg p2)) [0..<nat (deg p1 - deg p2 + 1)]"
proof -
  define lr where "lr = deg p1 - deg p2"
  define sh where "sh = fold (\<lambda>i pr. let (pr', v) = idx_get pr (i + deg p2) in idx_set pr' i v) [0..lr] pr"
  have lr: "0 \<le> lr" using assms(2) by (simp add: lr_def)
  have up: "[0..lr] = map int [0..<nat (lr + 1)]"
    by (simp add: upto_as_upt)
  note S = shift_down[OF deg_nonneg, of p2 "nat (lr + 1)" pr, folded up, folded sh_def]
  have d: "div_p lt pr0 p1 p2 = Some (resize sh (nat (lr + 1)))"
    using lr assms by (simp add: div_p_def Let_def lr_def[symmetric] sh_def)
  have "c (resize sh (nat (lr + 1))) = map (\<lambda>i. at_p pr (int i + deg p2)) [0..<nat (lr + 1)]"
    unfolding c_resize_at by (rule map_cong) (use S lr in auto)
  moreover have "ZERO_COEFF (resize sh (nat (lr + 1))) = ZERO_COEFF pr"
    using S by (simp add: resize_def)
  ultimately show ?thesis by (simp add: d lr_def)
qed

lemma mod_p_extract:
  assumes "quot_rem lt p1 p2 = Some pr" and "deg p2 \<le> deg p1"
  shows "\<exists>r. mod_p lt p1 p2 = Some r \<and> ZERO_COEFF r = ZERO_COEFF pr
           \<and> c r = map (\<lambda>i. at_p pr (int i)) [0..<nat (deg p2)]"
proof -
  have "mod_p lt p1 p2 = Some (resize pr (nat (deg p2)))"
    using assms by (simp add: mod_p_def Let_def)
  then show ?thesis by (simp add: c_resize_at) (simp add: resize_def)
qed

lemma quot_rem_extract:
  fixes p1 p2 :: "'a::{comm_ring_1,divide} polynom"
  assumes wf: "ZERO_COEFF p1 = 0" and wf2: "ZERO_COEFF p2 = 0"
    and l: "deg p2 \<le> deg p1"
    and ex: "\<And>x. x div leading_coeff p2 * leading_coeff p2 = x"
  shows "\<exists>pr q r. quot_rem lt p1 p2 = Some pr
      \<and> div_p lt pr0 p1 p2 = Some q \<and> mod_p lt p1 p2 = Some r
      \<and> c q = map (\<lambda>i. at_p pr (int i + deg p2)) [0..<nat (deg p1 - deg p2 + 1)]
      \<and> c r = map (\<lambda>i. at_p pr (int i)) [0..<nat (deg p2)]
      \<and> (\<forall>n. at_p (operator_add (operator_mul q p2) r) (int n) = at_p p1 (int n))"
proof -
  define L1 where "L1 = nat (deg p1)"
  define L2 where "L2 = nat (deg p2)"
  have L: "L2 \<le> L1" "nat (deg p1 - deg p2 + 1) = Suc (L1 - L2)" "int L2 = deg p2"
    using l deg_nonneg[of p2] by (simp_all add: L1_def L2_def)
  obtain pr where pr: "quot_rem lt p1 p2 = Some pr" "qr_ok p1 p2 pr"
    using quot_rem_spec[OF wf wf2 l ex[unfolded leading_coeff_def]] by blast
  have wfpr: "ZERO_COEFF pr = 0"
    and id: "\<And>n. cfp p1 n = conv (qpart L1 L2 L2 (\<lambda>n. at_p pr (int n))) (cfp p2) n
               + rpart L2 (\<lambda>n. at_p pr (int n)) n"
    using pr(2) by (simp_all add: qr_ok_def L1_def L2_def)
  obtain q where q: "div_p lt pr0 p1 p2 = Some q" "ZERO_COEFF q = ZERO_COEFF pr"
      "c q = map (\<lambda>i. at_p pr (int i + deg p2)) [0..<nat (deg p1 - deg p2 + 1)]"
    using div_p_extract[OF pr(1) l] by blast
  obtain r where r: "mod_p lt p1 p2 = Some r" "ZERO_COEFF r = ZERO_COEFF pr"
      "c r = map (\<lambda>i. at_p pr (int i)) [0..<nat (deg p2)]"
    using mod_p_extract[OF pr(1) l] by blast
  have wfq: "ZERO_COEFF q = 0" and wfr: "ZERO_COEFF r = 0" using q(2) r(2) wfpr by simp_all
  have cq: "c q = map (\<lambda>i. at_p pr (int i + int L2)) [0..<Suc (L1 - L2)]"
    using q(3) by (simp only: L(2) L(3))
  have Q: "cfp q = qpart L1 L2 L2 (\<lambda>n. at_p pr (int n))"
  proof
    fix j
    show "cfp q j = qpart L1 L2 L2 (\<lambda>n. at_p pr (int n)) j"
    proof (cases "j < Suc (L1 - L2)")
      case True
      then have "j + L2 \<le> L1" using L(1) by simp
      moreover have "c q ! j = at_p pr (int (j + L2))"
        using True by (simp add: cq del: upt_Suc)
      moreover have "j < length (c q)" using True by (simp add: cq)
      ultimately show ?thesis
        by (simp add: cfp_wf[OF wfq] qpart_def)
    next
      case False
      then have "\<not> j + L2 \<le> L1" using L(1) by simp
      moreover have "\<not> j < length (c q)" using False by (simp add: cq)
      ultimately show ?thesis
        by (simp add: cfp_wf[OF wfq] qpart_def)
    qed
  qed
  have cr: "c r = map (\<lambda>i. at_p pr (int i)) [0..<L2]"
    using r(3) by (simp only: L2_def)
  have R: "at_p r (int n) = rpart L2 (\<lambda>n. at_p pr (int n)) n" for n
  proof (cases "n < L2")
    case True
    then have "int n < size_p r" by (simp add: size_p_def cr)
    then have "at_p r (int n) = c r ! n" by (simp add: at_p_def)
    then show ?thesis using True by (simp add: cr rpart_def)
  next
    case False
    then have "\<not> int n < size_p r" by (simp add: size_p_def cr)
    then show ?thesis using False by (simp add: at_p_def wfr rpart_def)
  qed
  have wfm: "ZERO_COEFF (operator_mul q p2) = 0" by (rule operator_mul_at(1)[OF wfq])
  have "at_p (operator_add (operator_mul q p2) r) (int n) = at_p p1 (int n)" for n
    unfolding operator_add_def
    by (simp add: add_p_at(2)[OF wfm wfr] operator_mul_at(2)[OF wfq] Q R id[symmetric] cfp_at[OF wf])
  then show ?thesis using pr(1) q(1,3) r(1,3) by blast
qed

text \<open>
  C10. For \<open>l2 = deg(p2) \<le> l1 = deg(p1)\<close> and a leading coefficient of \<open>p2\<close> by which
  division is exact, \<open>quot_rem\<close> returns one buffer \<open>pr\<close>, whichever algorithm the
  heuristic chooses; \<open>div\<close> returns the \<open>l1 - l2 + 1\<close> coefficients of \<open>pr\<close> from position
  \<open>l2\<close> on, shifted down by \<open>l2\<close>, and \<open>mod\<close> returns the \<open>l2\<close> coefficients of \<open>pr\<close> below
  position \<open>l2\<close>; these two are a quotient and a remainder: every coefficient of
  \<open>q * p2 + r\<close> is that of \<open>p1\<close>.
\<close>

theorem C10_quot_rem_layout:
  fixes p1 p2 :: "'a::{comm_ring_1,divide} polynom"
  assumes "ZERO_COEFF p1 = 0" and "ZERO_COEFF p2 = 0"
    and "deg p2 \<le> deg p1"
    and "\<And>x. x div leading_coeff p2 * leading_coeff p2 = x"
  shows "\<exists>pr q r. quot_rem lt_log2 p1 p2 = Some pr
      \<and> div_p lt_log2 pr0 p1 p2 = Some q \<and> mod_p lt_log2 p1 p2 = Some r
      \<and> c q = map (\<lambda>i. at_p pr (int i + deg p2)) [0..<nat (deg p1 - deg p2 + 1)]
      \<and> c r = map (\<lambda>i. at_p pr (int i)) [0..<nat (deg p2)]
      \<and> (\<forall>n. at_p (operator_add (operator_mul q p2) r) (int n) = at_p p1 (int n))"
  using assms by (rule quot_rem_extract)

theorem C10_witness:
  "quot_rem (\<lambda>_ _. False) (polynom_list [1, 2, 3 :: int]) (polynom_list [1, 1])
      = Some \<lparr>ZERO_COEFF = 0, c = [2, - 1, 3]\<rparr>
   \<and> (\<exists>pr q r. quot_rem (\<lambda>_ _. False) (polynom_list [1, 2, 3 :: int]) (polynom_list [1, 1]) = Some pr
      \<and> div_p (\<lambda>_ _. False) (polynom_list [7]) (polynom_list [1, 2, 3]) (polynom_list [1, 1]) = Some q
      \<and> mod_p (\<lambda>_ _. False) (polynom_list [1, 2, 3]) (polynom_list [1, 1]) = Some r
      \<and> c q = map (\<lambda>i. at_p pr (int i + deg (polynom_list [1, 1 :: int])))
                 [0..<nat (deg (polynom_list [1, 2, 3 :: int]) - deg (polynom_list [1, 1 :: int]) + 1)]
      \<and> c r = map (\<lambda>i. at_p pr (int i)) [0..<nat (deg (polynom_list [1, 1 :: int]))]
      \<and> (\<forall>n. at_p (operator_add (operator_mul q (polynom_list [1, 1])) r) (int n)
               = at_p (polynom_list [1, 2, 3]) (int n)))"
proof -
  have v: "quot_rem (\<lambda>_ _. False) (polynom_list [1, 2, 3 :: int]) (polynom_list [1, 1])
      = Some \<lparr>ZERO_COEFF = 0, c = [2, - 1, 3]\<rparr>"
    by code_simp
  have z: "ZERO_COEFF (polynom_list [1, 2, 3 :: int]) = 0" "ZERO_COEFF (polynom_list [1, 1 :: int]) = 0"
    by (simp_all add: polynom_list_def make_zero_def)
  have d: "deg (polynom_list [1, 1 :: int]) \<le> deg (polynom_list [1, 2, 3 :: int])"
    by code_simp
  have "leading_coeff (polynom_list [1, 1 :: int]) = 1"
    by code_simp
  then have e: "\<And>x. x div leading_coeff (polynom_list [1, 1 :: int]) * leading_coeff (polynom_list [1, 1 :: int]) = x"
    by simp
  from C10_quot_rem_layout[OF z d e] v show ?thesis by blast
qed

text \<open>
  C1, as stated, on a constant divisor: the remainder of \<open>1 + 2x\<close> by the constant \<open>2\<close>
  over the rationals is the empty polynomial, whose degree is \<open>0\<close> like that of the
  divisor, so \<open>deg(r) < deg(b)\<close> does not hold.
\<close>

theorem C1_constant_divisor:
  "(\<forall>x :: rat. x div leading_coeff (polynom_list [2]) * leading_coeff (polynom_list [2]) = x)
   \<and> operator_mod (\<lambda>_ _. False) (polynom_list [1, 2 :: rat]) (polynom_list [2])
       = Some \<lparr>ZERO_COEFF = 0, c = []\<rparr>
   \<and> \<not> deg \<lparr>ZERO_COEFF = 0 :: rat, c = []\<rparr> < deg (polynom_list [2 :: rat])"
proof -
  have "leading_coeff (polynom_list [2 :: rat]) = 2" by code_simp
  then have "\<forall>x :: rat. x div leading_coeff (polynom_list [2]) * leading_coeff (polynom_list [2]) = x"
    by simp
  moreover have "operator_mod (\<lambda>_ _. False) (polynom_list [1, 2 :: rat]) (polynom_list [2])
       = Some \<lparr>ZERO_COEFF = 0, c = []\<rparr>"
    by code_simp
  moreover have "\<not> deg \<lparr>ZERO_COEFF = 0 :: rat, c = []\<rparr> < deg (polynom_list [2 :: rat])"
    by code_simp
  ultimately show ?thesis by blast
qed

lemma short_division:
  fixes p1 p2 :: "'a::{comm_ring_1,divide} polynom"
  assumes wf: "ZERO_COEFF p1 = 0" and l: "deg p1 < deg p2"
  shows "operator_div lt p1 p2 = Some (p1\<lparr>c := []\<rparr>)" and "operator_mod lt p1 p2 = Some p1"
    and "at_p (operator_add (operator_mul (p1\<lparr>c := []\<rparr>) p2) p1) (int n) = at_p p1 (int n)"
proof -
  show "operator_div lt p1 p2 = Some (p1\<lparr>c := []\<rparr>)"
    using l by (simp add: operator_div_def div_p_def Let_def)
  show "operator_mod lt p1 p2 = Some p1"
    using l by (simp add: operator_mod_def mod_p_def Let_def quot_rem_short)
  define q where "q = p1\<lparr>c := []\<rparr>"
  have wfq: "ZERO_COEFF q = 0" by (simp add: q_def wf)
  have wfm: "ZERO_COEFF (operator_mul q p2) = 0" by (rule operator_mul_at(1)[OF wfq])
  have "cfp q = (\<lambda>_. 0)" by (rule cfp_empty) (simp add: q_def)
  then have "conv (cfp q) (cfp p2) n = 0" by (simp add: conv_def)
  then show "at_p (operator_add (operator_mul (p1\<lparr>c := []\<rparr>) p2) p1) (int n) = at_p p1 (int n)"
    unfolding operator_add_def q_def[symmetric]
    by (simp add: add_p_at(2)[OF wfm wf] operator_mul_at(2)[OF wfq])
qed

text \<open>
  C1, amended. For polynomials \<open>a\<close> and \<open>b\<close> with a leading coefficient of \<open>b\<close> by which
  division is exact, \<open>a / b\<close> and \<open>a % b\<close> return \<open>q\<close> and \<open>r\<close> with \<open>a == q * b + r\<close>;
  \<open>deg(r) < deg(b)\<close> when \<open>deg(b) \<ge> 1\<close>, and \<open>r\<close> is the empty polynomial when
  \<open>deg(b) = 0\<close>.
\<close>

theorem C1_division_identity:
  fixes a b :: "'a::{comm_ring_1,divide,preorder} polynom"
  assumes "ZERO_COEFF a = 0" and "ZERO_COEFF b = 0"
    and "\<And>x. x div leading_coeff b * leading_coeff b = x"
  shows "\<exists>q r. operator_div lt_log2 a b = Some q \<and> operator_mod lt_log2 a b = Some r
       \<and> operator_eq a (operator_add (operator_mul q b) r)
       \<and> (0 < deg b \<longrightarrow> deg r < deg b) \<and> (deg b = 0 \<longrightarrow> c r = [])"
proof (cases "deg b \<le> deg a")
  case True
  from quot_rem_extract[OF assms(1,2) True assms(3), of lt_log2 a]
  obtain q r where qr: "div_p lt_log2 a a b = Some q" "mod_p lt_log2 a b = Some r"
      "length (c r) = nat (deg b)"
      "\<And>n. at_p (operator_add (operator_mul q b) r) (int n) = at_p a (int n)"
    by (metis length_map length_upt diff_zero)
  have "operator_eq a (operator_add (operator_mul q b) r)"
    by (rule operator_eq_coeffs) (simp add: qr(4))
  moreover have "deg r < deg b" if "0 < deg b"
    using deg_le[of r] that qr(3) by (simp add: size_p_def)
  moreover have "c r = []" if "deg b = 0"
    using qr(3) that by simp
  ultimately show ?thesis
    using qr(1,2) by (auto simp: operator_div_def operator_mod_def)
next
  case False
  then have l: "deg a < deg b" by simp
  note S = short_division[OF assms(1) l]
  have "operator_eq a (operator_add (operator_mul (a\<lparr>c := []\<rparr>) b) a)"
    by (rule operator_eq_coeffs) (simp add: S(3))
  then show ?thesis
    using S(1,2) l deg_nonneg[of a] by auto
qed

theorem C1_witness:
  "operator_div (\<lambda>_ _. False) (polynom_list [1, 2, 3 :: int]) (polynom_list [1, 1])
      = Some \<lparr>ZERO_COEFF = 0, c = [- 1, 3]\<rparr>
   \<and> operator_mod (\<lambda>_ _. False) (polynom_list [1, 2, 3 :: int]) (polynom_list [1, 1])
      = Some \<lparr>ZERO_COEFF = 0, c = [2]\<rparr>
   \<and> (\<exists>q r. operator_div (\<lambda>_ _. False) (polynom_list [1, 2, 3 :: int]) (polynom_list [1, 1]) = Some q
       \<and> operator_mod (\<lambda>_ _. False) (polynom_list [1, 2, 3 :: int]) (polynom_list [1, 1]) = Some r
       \<and> operator_eq (polynom_list [1, 2, 3 :: int]) (operator_add (operator_mul q (polynom_list [1, 1])) r)
       \<and> (0 < deg (polynom_list [1, 1 :: int]) \<longrightarrow> deg r < deg (polynom_list [1, 1 :: int]))
       \<and> (deg (polynom_list [1, 1 :: int]) = 0 \<longrightarrow> c r = []))"
proof -
  have v: "operator_div (\<lambda>_ _. False) (polynom_list [1, 2, 3 :: int]) (polynom_list [1, 1])
      = Some \<lparr>ZERO_COEFF = 0, c = [- 1, 3]\<rparr>"
    "operator_mod (\<lambda>_ _. False) (polynom_list [1, 2, 3 :: int]) (polynom_list [1, 1])
      = Some \<lparr>ZERO_COEFF = 0, c = [2]\<rparr>"
    by code_simp+
  have z: "ZERO_COEFF (polynom_list [1, 2, 3 :: int]) = 0" "ZERO_COEFF (polynom_list [1, 1 :: int]) = 0"
    by (simp_all add: polynom_list_def make_zero_def)
  have "leading_coeff (polynom_list [1, 1 :: int]) = 1"
    by code_simp
  then have e: "\<And>x. x div leading_coeff (polynom_list [1, 1 :: int]) * leading_coeff (polynom_list [1, 1 :: int]) = x"
    by simp
  from C1_division_identity[OF z e, of "\<lambda>_ _. False"] v show ?thesis by blast
qed

section \<open>The discrete Fourier transform\<close>

definition dft :: "'a::comm_ring_1 \<Rightarrow> nat \<Rightarrow> (nat \<Rightarrow> 'a) \<Rightarrow> nat \<Rightarrow> 'a" where
  "dft w n f k = (\<Sum>j<n. f j * w ^ (j * k))"

lemma sum_even_odd:
  fixes g :: "nat \<Rightarrow> 'a::comm_monoid_add"
  shows "(\<Sum>j<2 * h. g j) = (\<Sum>j<h. g (2 * j)) + (\<Sum>j<h. g (2 * j + 1))"
proof (induction h)
  case 0
  show ?case by simp
next
  case (Suc h)
  have "(\<Sum>j<2 * Suc h. g j) = (\<Sum>j<2 * h. g j) + g (2 * h) + g (2 * h + 1)"
    by simp
  then show ?case by (simp add: Suc.IH add_ac)
qed

lemma dft_split:
  fixes w :: "'a::comm_ring_1"
  assumes w: "w ^ h = - 1" and k: "k < h"
  shows "dft w (2 * h) f k = dft (w * w) h (\<lambda>j. f (2 * j)) k + w ^ k * dft (w * w) h (\<lambda>j. f (2 * j + 1)) k"
    and "dft w (2 * h) f (k + h) = dft (w * w) h (\<lambda>j. f (2 * j)) k - w ^ k * dft (w * w) h (\<lambda>j. f (2 * j + 1)) k"
proof -
  have ww: "(w * w) ^ n = w ^ (2 * n)" for n
    by (simp add: power2_eq_square[symmetric] power_mult)
  have e: "f (2 * j) * w ^ (2 * j * k) = f (2 * j) * (w * w) ^ (j * k)" for j
    by (simp add: ww mult.assoc)
  have o: "f (2 * j + 1) * w ^ ((2 * j + 1) * k) = w ^ k * (f (2 * j + 1) * (w * w) ^ (j * k))" for j
  proof -
    have "(2 * j + 1) * k = 2 * (j * k) + k" by (simp add: algebra_simps)
    then show ?thesis by (simp add: power_add ww mult_ac)
  qed
  show "dft w (2 * h) f k = dft (w * w) h (\<lambda>j. f (2 * j)) k + w ^ k * dft (w * w) h (\<lambda>j. f (2 * j + 1)) k"
    unfolding dft_def sum_even_odd e o by (simp add: sum_distrib_left)
  have w2: "w ^ (2 * h * j) = 1" for j
  proof -
    have "2 * h * j = h * (2 * j)" by simp
    then have "w ^ (2 * h * j) = (w ^ h) ^ (2 * j)" by (simp only: power_mult)
    then show ?thesis by (simp add: w)
  qed
  have e': "f (2 * j) * w ^ (2 * j * (k + h)) = f (2 * j) * (w * w) ^ (j * k)" for j
  proof -
    have "2 * j * (k + h) = 2 * (j * k) + 2 * h * j" by (simp add: algebra_simps)
    then show ?thesis by (simp add: power_add w2 ww)
  qed
  have o': "f (2 * j + 1) * w ^ ((2 * j + 1) * (k + h)) = - (w ^ k * (f (2 * j + 1) * (w * w) ^ (j * k)))" for j
  proof -
    have "(2 * j + 1) * (k + h) = 2 * (j * k) + k + 2 * h * j + h" by (simp add: algebra_simps)
    then show ?thesis by (simp add: power_add w2 ww w)
  qed
  show "dft w (2 * h) f (k + h) = dft (w * w) h (\<lambda>j. f (2 * j)) k - w ^ k * dft (w * w) h (\<lambda>j. f (2 * j + 1)) k"
    unfolding dft_def sum_even_odd e' o' by (simp add: sum_distrib_left sum_negf)
qed

text \<open>The combining loop of \<open>fft_rec\<close>.\<close>

lemma butterfly:
  fixes dest :: "'a::comm_ring_1 list"
  assumes "d + 2 * h \<le> length dest" and "n \<le> h"
  shows "fold (\<lambda>i (dest, rooti).
            let z = dest ! (d + i + h) * rooti;
                dest' = dest[d + i + h := dest ! (d + i) - z];
                dest'' = dest'[d + i := dest' ! (d + i) + z]
            in (dest'', rooti * w)) [0..<n] (dest, 1)
       = (map (\<lambda>a. if d \<le> a \<and> a < d + n then dest ! a + w ^ (a - d) * dest ! (a + h)
                     else if d + h \<le> a \<and> a < d + h + n then dest ! (a - h) - w ^ (a - d - h) * dest ! a
                     else dest ! a) [0..<length dest], w ^ n)"
  using assms(2)
proof (induction n)
  case 0
  have "dest = map (\<lambda>a. dest ! a) [0..<length dest]" by (simp add: map_nth)
  also have "\<dots> = map (\<lambda>a. if d \<le> a \<and> a < d + 0 then dest ! a + w ^ (a - d) * dest ! (a + h)
                     else if d + h \<le> a \<and> a < d + h + 0 then dest ! (a - h) - w ^ (a - d - h) * dest ! a
                     else dest ! a) [0..<length dest]"
    by (rule map_cong) auto
  finally show ?case by simp
next
  case (Suc n)
  define st where "st = map (\<lambda>a. if d \<le> a \<and> a < d + n then dest ! a + w ^ (a - d) * dest ! (a + h)
                     else if d + h \<le> a \<and> a < d + h + n then dest ! (a - h) - w ^ (a - d - h) * dest ! a
                     else dest ! a) [0..<length dest]"
  have IH: "fold (\<lambda>i (dest, rooti).
            let z = dest ! (d + i + h) * rooti;
                dest' = dest[d + i + h := dest ! (d + i) - z];
                dest'' = dest'[d + i := dest' ! (d + i) + z]
            in (dest'', rooti * w)) [0..<n] (dest, 1) = (st, w ^ n)"
    unfolding st_def by (rule Suc.IH) (use Suc.prems in simp)
  have b: "d + n + h < length dest" "d + n < length dest" "n < h"
    using assms(1) Suc.prems by simp_all
  have s1: "st ! (d + n + h) = dest ! (d + n + h)" and s2: "st ! (d + n) = dest ! (d + n)"
    using b by (simp_all add: st_def)
  have len: "length st = length dest" by (simp add: st_def)
  show ?case
    unfolding upt_Suc_append[OF le0] fold_append comp_def IH
  proof (simp add: Let_def s1 s2, rule nth_equalityI, goal_cases)
    case 1
    show ?case by (simp add: len)
  next
    case (2 a)
    then have a: "a < length dest" by (simp add: len)
    show ?case
      using a b by (auto simp: nth_list_update len st_def mult.commute)
  qed
qed

lemma fft_rec_spec:
  fixes dest src :: "'a::comm_ring_1 list"
  assumes "d + 2 ^ m \<le> length dest" and "0 < m \<Longrightarrow> w ^ (2 ^ (m - 1)) = - 1"
  shows "fft_rec dest d src s (2 ^ m) w off
       = blkupd dest d (2 ^ m) (dft w (2 ^ m) (\<lambda>j. src ! (s + j * off)))"
  using assms
proof (induction m arbitrary: dest d s w off)
  case 0
  have "dest[d := src ! s] = blkupd dest d 1 (dft w 1 (\<lambda>j. src ! (s + j * off)))"
    by (rule nth_equalityI) (auto simp: nth_blkupd nth_list_update dft_def)
  then show ?case by (subst fft_rec.simps) simp
next
  case (Suc m)
  define h :: nat where "h = 2 ^ m"
  define f where "f = (\<lambda>j. src ! (s + j * off))"
  define E where "E = dft (w * w) h (\<lambda>j. f (2 * j))"
  define Od where "Od = dft (w * w) h (\<lambda>j. f (2 * j + 1))"
  have h0: "0 < h" by (simp add: h_def)
  have h4: "\<not> 2 * h \<le> 1" using h0 by arith
  have h: "0 < h" "2 ^ Suc m = 2 * h" "2 * h div 2 = h" "\<not> 2 * h \<le> 1"
    using h0 h4 by (simp_all add: h_def)
  have wh: "w ^ h = - 1" using Suc.prems(2) by (simp add: h_def)
  have w2: "(w * w) ^ (2 ^ (m - 1)) = - 1" if "0 < m"
  proof -
    have "(w * w) ^ (2 ^ (m - 1)) = w ^ (2 * 2 ^ (m - 1))"
      by (simp add: power2_eq_square[symmetric] power_mult)
    also have "2 * 2 ^ (m - 1) = (2 ^ m :: nat)" using that by (cases m) simp_all
    finally show ?thesis using wh by (simp add: h_def)
  qed
  have len: "d + 2 * h \<le> length dest" using Suc.prems(1) by (simp add: h_def)
  define dest1 where "dest1 = fft_rec dest d src s h (w * w) (off * 2)"
  define dest2 where "dest2 = fft_rec dest1 (d + h) src (s + off) h (w * w) (off * 2)"
  have d1: "dest1 = blkupd dest d h E"
  proof -
    have "(\<lambda>j. src ! (s + j * (off * 2))) = (\<lambda>j. f (2 * j))"
      by (rule ext) (simp add: f_def mult_ac)
    then show ?thesis
      unfolding dest1_def h_def E_def
      using Suc.IH[of d dest "w * w" s "off * 2"] len w2 by (simp add: h_def)
  qed
  have d2: "dest2 = blkupd dest1 (d + h) h Od"
  proof -
    have "(\<lambda>j. src ! (s + off + j * (off * 2))) = (\<lambda>j. f (2 * j + 1))"
      by (rule ext) (simp add: f_def algebra_simps)
    then show ?thesis
      unfolding dest2_def h_def Od_def
      using Suc.IH[of "d + 2 ^ m" dest1 "w * w" "s + off" "off * 2"] len w2 by (simp add: h_def d1)
  qed
  have l2: "length dest2 = length dest" by (simp add: d2 d1)
  have len2: "d + 2 * h \<le> length dest2" using len by (simp add: l2)
  have step: "fft_rec dest d src s (2 * h) w off
      = fst (fold (\<lambda>i (dest, rooti).
            let z = dest ! (d + i + h) * rooti;
                dest' = dest[d + i + h := dest ! (d + i) - z];
                dest'' = dest'[d + i := dest' ! (d + i) + z]
            in (dest'', rooti * w)) [0..<h] (dest2, 1))"
    by (subst fft_rec.simps) (simp only: h if_False Let_def dest1_def dest2_def)
  have "fft_rec dest d src s (2 * h) w off = blkupd dest d (2 * h) (dft w (2 * h) f)"
    unfolding step butterfly[OF len2 order_refl] fst_conv
  proof (rule nth_equalityI, goal_cases)
    case 1
    show ?case by (simp add: l2)
  next
    case (2 a)
    then have a: "a < length dest" by (simp add: l2)
    consider "d \<le> a" "a < d + h" | "d + h \<le> a" "a < d + 2 * h" | "a < d \<or> d + 2 * h \<le> a" by arith
    then show ?case
    proof cases
      case 1
      then have k: "a - d < h" by simp
      have "dest2 ! a = E (a - d)" "dest2 ! (a + h) = Od (a - d)"
        using 1 a len by (simp_all add: d2 d1 nth_blkupd)
      then show ?thesis
        using 1 a by (simp add: l2 nth_blkupd dft_split(1)[OF wh k] E_def Od_def)
    next
      case 2
      define b where "b = a - h"
      have b: "a = b + h" "d \<le> b" "b < d + h" "b + h < length dest"
        using 2 a by (simp_all add: b_def)
      have k: "b - d < h" using b by simp
      have i1: "b + h - h = b" by simp
      have i2: "b + h - d - h = b - d" using b(2) by arith
      have i3: "b + h - d = b - d + h" using b(2) by arith
      have c1: "\<not> (d \<le> b + h \<and> b + h < d + h)" using b by arith
      have c2: "d + h \<le> b + h \<and> b + h < d + h + h" using b by arith
      have c3: "d \<le> b + h \<and> b + h < d + 2 * h \<and> b + h < length dest" using b by arith
      have c4: "b + h < length [0..<length dest2]" "[0..<length dest2] ! (b + h) = b + h"
        using b by (simp_all add: l2)
      have v: "dest2 ! b = E (b - d)" "dest2 ! (b + h) = Od (b - d)"
        using b len by (simp_all add: d2 d1 nth_blkupd)
      have t: "dft w (2 * h) f (b - d + h) = E (b - d) - w ^ (b - d) * Od (b - d)"
        by (simp only: dft_split(2)[OF wh k] E_def Od_def)
      show ?thesis
        unfolding b(1)
        by (simp only: nth_map[OF c4(1)] c4(2) c1 c2 c3 if_True if_False i1 i2 i3 nth_blkupd v t)
          (use b(2) in simp)
    next
      case 3
      then have "dest2 ! a = dest ! a" using a by (auto simp: d2 d1 nth_blkupd)
      then show ?thesis using 3 a by (auto simp: l2 nth_blkupd)
    qed
  qed
  then show ?case by (simp only: h(2) f_def)
qed

lemma sum_halves:
  fixes g :: "nat \<Rightarrow> 'a::comm_monoid_add"
  shows "(\<Sum>j<2 * N. g j) = (\<Sum>j<N. g j) + (\<Sum>j<N. g (N + j))"
proof -
  have "(\<Sum>j<2 * N. g j) = sum g {0..<N} + sum g {N..<2 * N}"
    by (simp add: lessThan_atLeast0 sum.atLeastLessThan_concat)
  also have "sum g {N..<2 * N} = sum g {0 + N..<N + N}" by (simp add: mult_2)
  also have "\<dots> = (\<Sum>j\<in>{0..<N}. g (j + N))" by (rule sum.shift_bounds_nat_ivl)
  finally show ?thesis by (simp add: lessThan_atLeast0 add.commute)
qed

text \<open>The powers of a principal root of unity add up to zero.\<close>

lemma root_sum_zero:
  fixes u :: "'a::comm_ring_1"
  assumes "u ^ (2 ^ m) = - 1" and "0 < t" and "t < 2 ^ Suc m"
  shows "(\<Sum>j<2 ^ Suc m. u ^ (t * j)) = 0"
  using assms
proof (induction m arbitrary: u t)
  case 0
  then have "t = 1" by simp
  then show ?case using "0.prems"(1) by (simp add: lessThan_Suc numeral_2_eq_2)
next
  case (Suc m)
  define N :: nat where "N = 2 ^ Suc m"
  have uN: "u ^ N = - 1" using Suc.prems(1) by (simp add: N_def)
  have sh: "u ^ (t * (N + j)) = (- 1) ^ t * u ^ (t * j)" for j
  proof -
    have "u ^ (t * (N + j)) = (u ^ N) ^ t * u ^ (t * j)"
      by (simp add: power_add power_mult[symmetric] distrib_left mult.commute)
    then show ?thesis by (simp add: uN)
  qed
  have split: "(\<Sum>j<2 ^ Suc (Suc m). u ^ (t * j)) = (\<Sum>j<N. u ^ (t * j)) + (- 1) ^ t * (\<Sum>j<N. u ^ (t * j))"
  proof -
    have "(2::nat) ^ Suc (Suc m) = 2 * N" by (simp add: N_def)
    then show ?thesis by (simp only: sum_halves sh sum_distrib_left)
  qed
  show ?case
  proof (cases "even t")
    case False
    then have "(- 1 :: 'a) ^ t = - 1" by simp
    then show ?thesis unfolding split by simp
  next
    case True
    then obtain t' where t': "t = 2 * t'" by (elim evenE)
    have b: "0 < t'" "t' < 2 ^ Suc m" using Suc.prems(2,3) by (simp_all add: t')
    have u2: "(u * u) ^ (2 ^ m) = - 1"
    proof -
      have "(u * u) ^ (2 ^ m) = u ^ (2 * 2 ^ m)"
        by (simp add: power2_eq_square[symmetric] power_mult)
      then show ?thesis using Suc.prems(1) by simp
    qed
    have "(\<Sum>j<N. u ^ (t * j)) = (\<Sum>j<2 ^ Suc m. (u * u) ^ (t' * j))"
      unfolding N_def t'
      by (rule sum.cong) (simp_all add: power2_eq_square[symmetric] power_mult[symmetric] mult.assoc)
    also have "\<dots> = 0" by (rule Suc.IH[OF u2 b])
    finally show ?thesis unfolding split by simp
  qed
qed

lemma dft_cong: "(\<And>j. j < n \<Longrightarrow> f j = g j) \<Longrightarrow> dft w n f k = dft w n g k"
  unfolding dft_def by (rule sum.cong) simp_all

text \<open>The transform with \<open>w\<close> followed by the transform with \<open>w ^ (n - 1)\<close> multiplies by \<open>n\<close>.\<close>

lemma dft_inverse:
  fixes w :: "'a::comm_ring_1"
  assumes w: "0 < m \<Longrightarrow> w ^ (2 ^ (m - 1)) = - 1" and k: "k < 2 ^ m"
  shows "dft (w ^ (2 ^ m - 1)) (2 ^ m) (dft w (2 ^ m) f) k = of_nat (2 ^ m) * f k"
proof (cases m)
  case 0
  then show ?thesis using k by (simp add: dft_def)
next
  case (Suc m0)
  define n :: nat where "n = 2 ^ m"
  define v where "v = w ^ (n - 1)"
  have n: "0 < n" by (simp add: n_def)
  have wn: "w ^ n = 1"
  proof -
    have "w ^ (2 ^ m0) = - 1" using w Suc by simp
    moreover have "w ^ n = (w ^ (2 ^ m0)) ^ 2" by (simp add: n_def Suc power_mult[symmetric] mult.commute)
    ultimately show ?thesis by simp
  qed
  have wv: "w * v = 1"
  proof -
    have "w * v = w ^ Suc (n - 1)" by (simp add: v_def)
    then show ?thesis using n wn by simp
  qed
  have vw: "v * w = 1" using wv by (simp add: mult.commute)
  have vh: "v ^ (2 ^ m') = - 1" if "m = Suc m'" for m'
  proof -
    have wm: "w ^ (2 ^ m') = - 1" using w that by simp
    have "v ^ (2 ^ m') = (w ^ (2 ^ m')) ^ (n - 1)"
      by (simp add: v_def power_mult[symmetric] mult.commute)
    moreover have "odd (n - 1)" using that by (simp add: n_def)
    ultimately show ?thesis by (simp add: wm)
  qed
  have inner: "(\<Sum>j<n. w ^ (l * j) * v ^ (j * k)) = (if l = k then of_nat n else 0)" if "l < n" for l
  proof -
    consider "l = k" | "k < l" | "l < k" by arith
    then show ?thesis
    proof cases
      case 1
      have "w ^ (l * j) * v ^ (j * k) = 1" for j
        using 1 by (simp add: power_mult_distrib[symmetric] wv vw mult.commute)
      then show ?thesis using 1 by simp
    next
      case 2
      have m: "m = Suc m0" by (rule Suc)
      have t: "0 < l - k" "l - k < 2 ^ Suc m0" using 2 that by (simp_all add: n_def m)
      have "w ^ (l * j) * v ^ (j * k) = w ^ ((l - k) * j)" for j
      proof -
        have "l * j = (l - k) * j + k * j" using 2 by (simp add: algebra_simps)
        then have "w ^ (l * j) * v ^ (j * k) = w ^ ((l - k) * j) * (w ^ (k * j) * v ^ (k * j))"
          by (simp add: power_add mult.assoc mult.commute[of j k])
        then show ?thesis by (simp add: power_mult_distrib[symmetric] wv vw)
      qed
      moreover have "(\<Sum>j<2 ^ Suc m0. w ^ ((l - k) * j)) = 0"
        by (rule root_sum_zero[OF _ t]) (use w m in simp)
      ultimately show ?thesis using 2 by (simp add: n_def m)
    next
      case 3
      have m: "m = Suc m0" by (rule Suc)
      have t: "0 < k - l" "k - l < 2 ^ Suc m0" using 3 k by (simp_all add: m)
      have "w ^ (l * j) * v ^ (j * k) = v ^ ((k - l) * j)" for j
      proof -
        have "j * k = (k - l) * j + l * j" using 3 by (simp add: algebra_simps)
        then have "w ^ (l * j) * v ^ (j * k) = v ^ ((k - l) * j) * (w ^ (l * j) * v ^ (l * j))"
          by (simp add: power_add mult_ac)
        then show ?thesis by (simp add: power_mult_distrib[symmetric] wv vw)
      qed
      moreover have "(\<Sum>j<2 ^ Suc m0. v ^ ((k - l) * j)) = 0"
        by (rule root_sum_zero[OF vh[OF m] t])
      ultimately show ?thesis using 3 by (simp add: n_def m)
    qed
  qed
  have "dft v n (dft w n f) k = (\<Sum>j<n. \<Sum>l<n. f l * (w ^ (l * j) * v ^ (j * k)))"
    by (simp add: dft_def sum_distrib_right mult.assoc)
  also have "\<dots> = (\<Sum>l<n. \<Sum>j<n. f l * (w ^ (l * j) * v ^ (j * k)))"
    by (rule sum.swap)
  also have "\<dots> = (\<Sum>l<n. f l * (if l = k then of_nat n else 0))"
    by (rule sum.cong) (simp_all add: sum_distrib_left[symmetric] inner)
  also have "\<dots> = of_nat n * f k"
    using k by (simp add: n_def[symmetric] mult.commute if_distrib[of "\<lambda>x. _ * x"] cong: if_cong)
  finally show ?thesis by (simp add: v_def n_def)
qed

lemma inverse_root:
  fixes w :: "'a::comm_ring_1"
  assumes "w ^ (2 ^ (m - 1)) = - 1" and "0 < m"
  shows "(w ^ (2 ^ m - 1)) ^ (2 ^ (m - 1)) = - 1"
proof -
  have "(w ^ (2 ^ m - 1)) ^ (2 ^ (m - 1)) = (w ^ (2 ^ (m - 1))) ^ (2 ^ m - 1)"
    by (simp only: power_mult[symmetric] mult.commute)
  also have "\<dots> = (- 1) ^ (2 ^ m - 1)" by (simp only: assms(1))
  also have "\<dots> = - 1"
  proof -
    have "odd ((2::nat) ^ m - 1)" using assms(2) by simp
    then show ?thesis by simp
  qed
  finally show ?thesis .
qed

lemma fold_scale:
  assumes "n \<le> length b"
  shows "fold (\<lambda>i b. b[i := b ! i * s]) [0..<n] b
       = map (\<lambda>a. if a < n then b ! a * s else b ! a) [0..<length b]"
  using assms
proof (induction n)
  case 0
  show ?case by (simp add: map_nth)
next
  case (Suc n)
  then have IH: "fold (\<lambda>i b. b[i := b ! i * s]) [0..<n] b
       = map (\<lambda>a. if a < n then b ! a * s else b ! a) [0..<length b]"
    by simp
  show ?case
    unfolding upt_Suc_append[OF le0] fold_append comp_def IH
    by (rule nth_equalityI) (use Suc.prems in \<open>auto simp: nth_list_update less_Suc_eq\<close>)
qed

text \<open>
  The transform \<open>fft_rec\<close> with root \<open>w\<close>, then \<open>fft_rec\<close> with root \<open>w ^ (n - 1)\<close>, then the
  multiplication of every element by \<open>1 / n\<close>, as \<open>fft_cyclic_convolution\<close> does them.
\<close>

lemma fft_rec_round_trip:
  fixes x :: "'a::{comm_ring_1,divide} list"
  assumes "length x = 2 ^ m" and "2 ^ m \<le> length d" and "2 ^ m \<le> length d'"
    and "0 < m \<Longrightarrow> w ^ (2 ^ (m - 1)) = - 1"
    and "of_nat (2 ^ m) * (1 div of_nat (2 ^ m)) = (1 :: 'a)"
  shows "fold (\<lambda>i b. b[i := b ! i * (1 div of_nat (2 ^ m))]) [0..<2 ^ m]
           (fft_rec d' 0 (fft_rec d 0 x 0 (2 ^ m) w 1) 0 (2 ^ m) (w ^ (2 ^ m - 1)) 1)
         = x @ drop (2 ^ m) d'"
proof -
  define n :: nat where "n = 2 ^ m"
  define v where "v = w ^ (n - 1)"
  define s :: 'a where "s = 1 div of_nat n"
  define X where "X = fft_rec d 0 x 0 n w 1"
  define Y where "Y = fft_rec d' 0 X 0 n v 1"
  have X: "X = blkupd d 0 n (dft w n (\<lambda>j. x ! j))"
    unfolding X_def n_def
    using fft_rec_spec[of 0 m d w x 0 1] assms(2,4) by simp
  have vr: "v ^ (2 ^ (m - 1)) = - 1" if "0 < m"
    unfolding v_def n_def by (rule inverse_root[OF assms(4)[OF that] that])
  have Y: "Y = blkupd d' 0 n (dft v n (\<lambda>j. X ! j))"
    unfolding Y_def n_def
    using fft_rec_spec[of 0 m d' v X 0 1] assms(3) vr by simp
  have Xj: "X ! j = dft w n (\<lambda>j. x ! j) j" if "j < n" for j
    using that assms(2) by (simp add: X nth_blkupd n_def)
  have Yk: "Y ! k = of_nat n * x ! k" if "k < n" for k
  proof -
    have "Y ! k = dft v n (\<lambda>j. X ! j) k"
      using that assms(3) by (simp add: Y nth_blkupd n_def)
    also have "\<dots> = dft v n (dft w n (\<lambda>j. x ! j)) k"
      by (rule dft_cong) (rule Xj)
    also have "\<dots> = of_nat n * x ! k"
      unfolding v_def n_def by (rule dft_inverse[OF assms(4)]) (use that in \<open>simp_all add: n_def\<close>)
    finally show ?thesis .
  qed
  have lY: "length Y = length d'" by (simp add: Y)
  have nY: "n \<le> length Y" using assms(3) by (simp add: lY n_def)
  have ns: "of_nat n * s = 1" using assms(5) by (simp add: s_def n_def)
  have "fold (\<lambda>i b. b[i := b ! i * s]) [0..<n] Y = x @ drop n d'"
    unfolding fold_scale[OF nY]
  proof (rule nth_equalityI, goal_cases)
    case 1
    show ?case using assms(1,3) by (simp add: lY n_def)
  next
    case (2 a)
    then have a: "a < length d'" by (simp add: lY)
    show ?case
    proof (cases "a < n")
      case True
      have "Y ! a * s = x ! a * (of_nat n * s)" by (simp add: Yk[OF True] mult_ac)
      then have "Y ! a * s = x ! a" by (simp add: ns)
      moreover have "a < length x" using True assms(1) by (simp add: n_def)
      ultimately show ?thesis using True a by (simp add: lY nth_append)
    next
      case False
      then have "Y ! a = d' ! a" using a by (simp add: Y nth_blkupd)
      then show ?thesis using False a assms(1) by (simp add: lY nth_append n_def)
    qed
  qed
  then show ?thesis by (simp add: s_def Y_def X_def v_def n_def)
qed

section \<open>Bit reversal\<close>

fun brev :: "nat \<Rightarrow> nat \<Rightarrow> nat" where
  "brev 0 r = 0"
| "brev (Suc k) r = brev k (r div 2) + (r mod 2) * 2 ^ k"

lemma brev_Suc: "brev (Suc k) r = brev k (r div 2) + (r mod 2) * 2 ^ k"
  by simp

declare brev.simps(2) [simp del]

lemma brev_less: "brev k r < 2 ^ k"
proof (induction k arbitrary: r)
  case 0
  show ?case by simp
next
  case (Suc k)
  have "r mod 2 = 0 \<or> r mod 2 = 1" by arith
  then have "r mod 2 * 2 ^ k \<le> (2 ^ k :: nat)" by auto
  with Suc[of "r div 2"] show ?case
    unfolding brev_Suc power_Suc by linarith
qed

lemma brev_zero [simp]: "brev k 0 = 0"
  by (induction k) (simp_all add: brev_Suc)

lemma brev_top:
  assumes "r < 2 ^ Suc k"
  shows "brev (Suc k) r = (if r < 2 ^ k then 2 * brev k r else 2 * brev k (r - 2 ^ k) + 1)"
  using assms
proof (induction k arbitrary: r)
  case 0
  then have "r = 0 \<or> r = 1" by auto
  then show ?case by (auto simp: brev_Suc)
next
  case (Suc k)
  define q where "q = r div 2"
  define b where "b = r mod 2"
  have r: "r = 2 * q + b" by (simp add: q_def b_def)
  have q: "q < 2 ^ Suc k" using Suc.prems by (simp add: q_def)
  have IH: "brev (Suc k) q = (if q < 2 ^ k then 2 * brev k q else 2 * brev k (q - 2 ^ k) + 1)"
    by (rule Suc.IH[OF q])
  have L: "brev (Suc (Suc k)) r = brev (Suc k) q + b * 2 ^ Suc k"
    by (simp add: q_def b_def brev_Suc[of "Suc k"])
  show ?case
  proof (cases "r < 2 ^ Suc k")
    case True
    then have "q < 2 ^ k" by (simp add: q_def)
    then have "brev (Suc (Suc k)) r = 2 * (brev k q + b * 2 ^ k)"
      by (simp add: L IH)
    also have "brev k q + b * 2 ^ k = brev (Suc k) r" by (simp add: q_def b_def brev_Suc)
    finally show ?thesis using True by simp
  next
    case False
    then have qq: "\<not> q < 2 ^ k" by (simp add: q_def)
    have d: "(r - 2 ^ Suc k) div 2 = q - 2 ^ k" "(r - 2 ^ Suc k) mod 2 = b"
    proof -
      define P :: nat where "P = 2 ^ k"
      have "2 * P \<le> r" using False by (simp add: P_def)
      then obtain x where x: "r = x + P * 2" "r - 2 * P = x"
        by (metis add.commute le_add_diff_inverse mult.commute)
      have "(x + P * 2) div 2 = P + x div 2" "(x + P * 2) mod 2 = x mod 2"
        by simp_all
      then have "(r - 2 * P) div 2 = r div 2 - P" "(r - 2 * P) mod 2 = r mod 2"
        by (simp_all add: x)
      then show "(r - 2 ^ Suc k) div 2 = q - 2 ^ k" "(r - 2 ^ Suc k) mod 2 = b"
        by (simp_all add: P_def q_def b_def)
    qed
    have "brev (Suc (Suc k)) r = 2 * (brev k (q - 2 ^ k) + b * 2 ^ k) + 1"
      by (simp add: L IH qq)
    also have "brev k (q - 2 ^ k) + b * 2 ^ k = brev (Suc k) (r - 2 ^ Suc k)"
      by (simp only: brev_Suc d)
    finally show ?thesis using False by simp
  qed
qed

lemma brev_brev:
  assumes "r < 2 ^ k"
  shows "brev k (brev k r) = r"
  using assms
proof (induction k arbitrary: r)
  case 0
  then show ?case by simp
next
  case (Suc k)
  define q where "q = r div 2"
  define b where "b = r mod 2"
  have r: "r = 2 * q + b" by (simp add: q_def b_def)
  have q: "q < 2 ^ k" using Suc.prems by (simp add: q_def)
  have s: "brev (Suc k) r = brev k q + b * 2 ^ k" by (simp add: q_def b_def brev_Suc)
  have sl: "brev (Suc k) r < 2 ^ Suc k" by (rule brev_less)
  have bq: "brev k q < 2 ^ k" by (rule brev_less)
  have b: "b = 0 \<or> b = 1" by (auto simp: b_def)
  then show ?case
  proof
    assume b0: "b = 0"
    then have "brev (Suc k) r = brev k q" by (simp add: s)
    then show ?thesis
      using bq brev_top[OF sl] Suc.IH[OF q] b0 r by simp
  next
    assume b1: "b = 1"
    then have e: "brev (Suc k) r = brev k q + 2 ^ k" by (simp add: s)
    then have "\<not> brev (Suc k) r < 2 ^ k" "brev (Suc k) r - 2 ^ k = brev k q" by simp_all
    then show ?thesis
      using brev_top[OF sl] Suc.IH[OF q] b1 r by simp
  qed
qed

lemma xor_pow2_low:
  assumes "i < 2 ^ a"
  shows "i XOR 2 ^ a = i + (2 ^ a :: nat)"
proof -
  have nb: "\<not> bit i a" using assms by (simp add: bit_iff_odd)
  have "i XOR 2 ^ a = flip_bit a i" by (simp add: flip_bit_eq_xor)
  also have "\<dots> = set_bit a i" using nb by (simp add: flip_bit_eq_if)
  also have "\<dots> = i + 2 ^ a" using nb by (simp add: set_bit_eq)
  finally show ?thesis .
qed

lemma xor_pow2_high:
  assumes "i < 2 ^ a"
  shows "(i + 2 ^ a) XOR 2 ^ a = (i :: nat)"
proof -
  have "(i + 2 ^ a) XOR 2 ^ a = (i XOR 2 ^ a) XOR 2 ^ a" by (simp add: xor_pow2_low[OF assms])
  also have "\<dots> = i" by (simp add: xor.assoc)
  finally show ?thesis .
qed

lemma brev_next:
  assumes "Suc j < 2 ^ m"
  shows "fft_bitrev_next (brev m j) (2 ^ m div 2) = brev m (Suc j)"
  using assms
proof (induction m arbitrary: j)
  case 0
  then show ?case by simp
next
  case (Suc m)
  define i0 where "i0 = brev m (j div 2)"
  have i0: "i0 < 2 ^ m" unfolding i0_def by (rule brev_less)
  have k: "(2::nat) ^ Suc m div 2 = 2 ^ m" by simp
  show ?case
  proof (cases "even j")
    case True
    then have i: "brev (Suc m) j = i0" by (simp add: i0_def brev_Suc)
    have "Suc j mod 2 = 1" "Suc j div 2 = j div 2"
      using True by presburger+
    then have n: "brev (Suc m) (Suc j) = i0 + 2 ^ m"
      by (simp add: i0_def brev_Suc)
    show ?thesis
      unfolding k i n
      by (subst fft_bitrev_next.simps) (simp add: xor_pow2_low[OF i0] Let_def)
  next
    case False
    then have j1: "j mod 2 = 1" by (simp add: odd_iff_mod_2_eq_one)
    then have i: "brev (Suc m) j = i0 + 2 ^ m" by (simp add: i0_def brev_Suc)
    have d: "Suc j div 2 = Suc (j div 2)" "Suc j mod 2 = 0" using j1 by arith+
    have n: "brev (Suc m) (Suc j) = brev m (Suc (j div 2))"
      by (simp add: d brev_Suc)
    have "Suc j div 2 < 2 ^ m" using Suc.prems by simp
    then have lt: "Suc (j div 2) < 2 ^ m" by (simp only: d)
    have "fft_bitrev_next (i0 + 2 ^ m) (2 ^ m) = fft_bitrev_next i0 (2 ^ m div 2)"
      by (subst fft_bitrev_next.simps) (simp add: xor_pow2_high[OF i0] Let_def i0)
    also have "\<dots> = brev m (Suc (j div 2))"
      unfolding i0_def by (rule Suc.IH[OF lt])
    finally show ?thesis unfolding k i n .
  qed
qed

lemma brev_eq_iff:
  assumes "p < 2 ^ m" and "q < 2 ^ m"
  shows "brev m p = q \<longleftrightarrow> p = brev m q"
  using assms brev_brev by auto

text \<open>The swapping loop of \<open>fft\<close>.\<close>

lemma reorder_inv:
  assumes "length data = 2 ^ m" and "0 < J"
    and "\<And>p. p < 2 ^ m \<Longrightarrow> data ! p = orig ! (if p < J \<or> brev m p < J then brev m p else p)"
  shows "length (fft_reorder data (2 ^ m) (brev m (J - 1)) J) = 2 ^ m
       \<and> (\<forall>p < 2 ^ m. fft_reorder data (2 ^ m) (brev m (J - 1)) J ! p = orig ! brev m p)"
  using assms
proof (induction "2 ^ m - J" arbitrary: J data rule: less_induct)
  case less
  define n :: nat where "n = 2 ^ m"
  note inv = less.prems(3)
  show ?case
  proof (cases "int J < int (2 ^ m) - 1")
    case False
    then have out: "fft_reorder data (2 ^ m) (brev m (J - 1)) J = data"
      by (subst fft_reorder.simps) simp
    have "data ! p = orig ! brev m p" if p: "p < 2 ^ m" for p
    proof (cases "p < J \<or> brev m p < J")
      case True
      then show ?thesis using inv[OF p] by simp
    next
      case nl: False
      have "\<not> int J < int n - 1" using False by (simp add: n_def)
      then have "n \<le> Suc J" by arith
      moreover have "brev m p < n" unfolding n_def by (rule brev_less)
      moreover have "p < n" using p by (simp add: n_def)
      ultimately have "brev m p = p" using nl by arith
      then show ?thesis using inv[OF p] nl by simp
    qed
    then show ?thesis unfolding out using less.prems(1) by simp
  next
    case True
    then have "int J < int n - 1" by (simp add: n_def)
    then have "Suc J < n" by arith
    then have J: "Suc J < 2 ^ m" by (simp add: n_def)
    define i where "i = brev m J"
    have il: "i < 2 ^ m" unfolding i_def by (rule brev_less)
    have Jl: "J < 2 ^ m" using J by simp
    have bi: "brev m i = J" unfolding i_def by (rule brev_brev[OF Jl])
    have nx: "fft_bitrev_next (brev m (J - 1)) (2 ^ m div 2) = i"
      using brev_next[of "J - 1" m] less.prems(2) Jl by (simp add: i_def)
    define data' where "data' = (if J < i then data[i := data ! J, J := data ! i] else data)"
    have step: "fft_reorder data (2 ^ m) (brev m (J - 1)) J = fft_reorder data' (2 ^ m) i (J + 1)"
      by (subst fft_reorder.simps) (simp only: True if_True nx Let_def data'_def)
    have e: "brev m (Suc J - 1) = i" "Suc J = J + 1" by (simp_all add: i_def)
    have len': "length data' = 2 ^ m" using less.prems(1) by (simp add: data'_def)
    have inv': "data' ! p = orig ! (if p < Suc J \<or> brev m p < Suc J then brev m p else p)"
      if p: "p < 2 ^ m" for p
    proof -
      have bp: "brev m p = J \<longleftrightarrow> p = i"
        using brev_eq_iff[OF p Jl] by (simp add: i_def)
      consider "p = J" | "p = i" "p \<noteq> J" | "p \<noteq> J" "p \<noteq> i" by blast
      then show ?thesis
      proof cases
        case 1
        show ?thesis
        proof (cases "J < i")
          case True
          then have "data' ! J = data ! i"
            using Jl less.prems(1) by (simp add: data'_def)
          also have "\<dots> = orig ! i" using inv[OF il] True bi by simp
          finally show ?thesis using 1 by (simp add: i_def)
        next
          case False
          then have "data' ! J = data ! J" by (simp add: data'_def)
          also have "\<dots> = orig ! i"
          proof (cases "i = J")
            case True
            then show ?thesis using inv[OF Jl] by (simp add: i_def)
          next
            case ne: False
            then have "i < J" using False by simp
            then show ?thesis using inv[OF Jl] by (simp add: i_def)
          qed
          finally show ?thesis using 1 by (simp add: i_def)
        qed
      next
        case 2
        have t: "(if p < Suc J \<or> brev m p < Suc J then brev m p else p) = J"
          using 2 bi by simp
        show ?thesis
        proof (cases "J < i")
          case True
          then have "data' ! i = data ! J"
            using il less.prems(1) by (simp add: data'_def nth_list_update)
          also have "\<dots> = orig ! J" using inv[OF Jl] True by (simp add: i_def)
          finally show ?thesis using 2 t by simp
        next
          case False
          then have "i < J" using 2 by simp
          then have "data' ! i = orig ! J"
            using inv[OF il] bi by (simp add: data'_def)
          then show ?thesis using 2 t by simp
        qed
      next
        case 3
        then have "data' ! p = data ! p" by (simp add: data'_def)
        moreover have "(p < Suc J \<or> brev m p < Suc J) = (p < J \<or> brev m p < J)"
          using 3 bp by (auto simp: less_Suc_eq)
        ultimately show ?thesis using inv[OF p] by simp
      qed
    qed
    have "length (fft_reorder data' (2 ^ m) (brev m (Suc J - 1)) (Suc J)) = 2 ^ m
       \<and> (\<forall>p < 2 ^ m. fft_reorder data' (2 ^ m) (brev m (Suc J - 1)) (Suc J) ! p = orig ! brev m p)"
      by (rule less.hyps) (use Jl len' inv' in auto)
    then show ?thesis unfolding step by (simp add: i_def)
  qed
qed

lemma fft_reorder_eq:
  assumes "length data = 2 ^ m"
  shows "fft_reorder data (2 ^ m) 0 1 = map (\<lambda>p. data ! brev m p) [0..<2 ^ m]"
proof -
  have inv: "data ! p = data ! (if p < 1 \<or> brev m p < 1 then brev m p else p)" if "p < 2 ^ m" for p
  proof -
    have "brev m p = 0 \<longleftrightarrow> p = brev m 0"
      by (rule brev_eq_iff[OF that]) simp
    then show ?thesis by auto
  qed
  from reorder_inv[where J = 1 and orig = data, OF assms _ inv]
  have "length (fft_reorder data (2 ^ m) 0 1) = 2 ^ m"
    and "\<And>p. p < 2 ^ m \<Longrightarrow> fft_reorder data (2 ^ m) 0 1 ! p = data ! brev m p"
    by simp_all
  then show ?thesis by (intro nth_equalityI) simp_all
qed

section \<open>The passes of the iterative transform\<close>

lemma fft_inner_eq:
  fixes data :: "'a::comm_ring_1 list"
  assumes "cnt \<le> h" and "b + h + cnt \<le> length data"
  shows "fft_inner data h wt b (b + cnt) w0
       = (map (\<lambda>a. if b \<le> a \<and> a < b + cnt then data ! a + data ! (a + h)
                     else if b + h \<le> a \<and> a < b + h + cnt then (data ! (a - h) - data ! a) * (w0 * wt ^ (a - h - b))
                     else data ! a) [0..<length data], b + cnt)"
  using assms
proof (induction cnt arbitrary: data b w0)
  case 0
  have "fft_inner data h wt b b w0 = (data, b)"
    by (subst fft_inner.simps) simp
  moreover have "map (\<lambda>a. if b \<le> a \<and> a < b + 0 then data ! a + data ! (a + h)
                     else if b + h \<le> a \<and> a < b + h + 0 then (data ! (a - h) - data ! a) * (w0 * wt ^ (a - h - b))
                     else data ! a) [0..<length data] = data"
    by (rule nth_equalityI) auto
  ultimately show ?case by simp
next
  case (Suc cnt)
  define d2 where "d2 = data[b := data ! b + data ! (b + h), b + h := (data ! b - data ! (b + h)) * w0]"
  have h: "0 < h" "cnt < h" using Suc.prems(1) by simp_all
  have l2: "length d2 = length data" by (simp add: d2_def)
  have step: "fft_inner data h wt b (b + Suc cnt) w0 = fft_inner d2 h wt (b + 1) (b + 1 + cnt) (w0 * wt)"
    by (subst fft_inner.simps) (simp add: Let_def d2_def)
  have IH: "fft_inner d2 h wt (b + 1) (b + 1 + cnt) (w0 * wt)
       = (map (\<lambda>a. if b + 1 \<le> a \<and> a < b + 1 + cnt then d2 ! a + d2 ! (a + h)
                     else if b + 1 + h \<le> a \<and> a < b + 1 + h + cnt then (d2 ! (a - h) - d2 ! a) * (w0 * wt * wt ^ (a - h - (b + 1)))
                     else d2 ! a) [0..<length d2], b + 1 + cnt)"
    by (rule Suc.IH) (use Suc.prems in \<open>simp_all add: l2\<close>)
  have v: "d2 ! a = (if a = b + h then (data ! b - data ! (b + h)) * w0
                     else if a = b then data ! b + data ! (b + h) else data ! a)"
    if "a < length data" for a
    using that h by (simp add: d2_def nth_list_update)
  have "map (\<lambda>a. if b + 1 \<le> a \<and> a < b + 1 + cnt then d2 ! a + d2 ! (a + h)
                     else if b + 1 + h \<le> a \<and> a < b + 1 + h + cnt then (d2 ! (a - h) - d2 ! a) * (w0 * wt * wt ^ (a - h - (b + 1)))
                     else d2 ! a) [0..<length d2]
      = map (\<lambda>a. if b \<le> a \<and> a < b + Suc cnt then data ! a + data ! (a + h)
                     else if b + h \<le> a \<and> a < b + h + Suc cnt then (data ! (a - h) - data ! a) * (w0 * wt ^ (a - h - b))
                     else data ! a) [0..<length data]"
    unfolding l2
  proof (rule map_cong[OF refl])
    fix a assume "a \<in> set [0..<length data]"
    then have a: "a < length data" by simp
    consider "a < b" | "a = b" | "b + 1 \<le> a" "a < b + 1 + cnt" | "b + 1 + cnt \<le> a" "a < b + h"
      | "a = b + h" | "b + 1 + h \<le> a" "a < b + 1 + h + cnt" | "b + 1 + h + cnt \<le> a"
      by arith
    then show "(if b + 1 \<le> a \<and> a < b + 1 + cnt then d2 ! a + d2 ! (a + h)
                     else if b + 1 + h \<le> a \<and> a < b + 1 + h + cnt then (d2 ! (a - h) - d2 ! a) * (w0 * wt * wt ^ (a - h - (b + 1)))
                     else d2 ! a)
         = (if b \<le> a \<and> a < b + Suc cnt then data ! a + data ! (a + h)
                     else if b + h \<le> a \<and> a < b + h + Suc cnt then (data ! (a - h) - data ! a) * (w0 * wt ^ (a - h - b))
                     else data ! a)"
    proof cases
      case 1
      then show ?thesis using a h by (simp add: v)
    next
      case 2
      then show ?thesis using a h by (simp add: v)
    next
      case 3
      have ah: "a + h < length data" using 3 Suc.prems(2) by simp
      have ne: "a \<noteq> b" "a \<noteq> b + h" "a + h \<noteq> b" "a + h \<noteq> b + h" using 3 h by arith+
      have "d2 ! a = data ! a" "d2 ! (a + h) = data ! (a + h)"
        by (simp_all add: v[OF a] v[OF ah] ne)
      then show ?thesis using 3 by simp
    next
      case 4
      then show ?thesis using a h by (simp add: v)
    next
      case 5
      then show ?thesis using a h by (simp add: v)
    next
      case 6
      have ah: "a - h < length data" using a by simp
      have ne: "a \<noteq> b" "a \<noteq> b + h" "a - h \<noteq> b" "a - h \<noteq> b + h" using 6 h by arith+
      have "d2 ! a = data ! a" "d2 ! (a - h) = data ! (a - h)"
        by (simp_all add: v[OF a] v[OF ah] ne)
      moreover have "a - h - b = Suc (a - h - (b + 1))" using 6 by simp
      ultimately show ?thesis using 6 h by (simp add: mult.assoc)
    next
      case 7
      then show ?thesis using a h by (simp add: v)
    qed
  qed
  then show ?case by (simp only: step IH) simp
qed

definition dif_pass :: "nat \<Rightarrow> 'a::comm_ring_1 \<Rightarrow> (nat \<Rightarrow> 'a) \<Rightarrow> nat \<Rightarrow> 'a" where
  "dif_pass h w f a =
     (if a mod (2 * h) < h then f a + f (a + h) else (f (a - h) - f a) * w ^ (a mod (2 * h) - h))"

lemma block_mod:
  assumes "s * M \<le> a" and "a < s * M + M"
  shows "a mod M = a - s * (M::nat)"
proof -
  define x where "x = a - s * M"
  have x: "a = x + s * M" "x < M" using assms by (simp_all add: x_def)
  have "(x + s * M) mod M = x" using x(2) by simp
  then show ?thesis by (simp add: x(1))
qed

lemma block_bounds:
  fixes M :: nat
  assumes "0 < M" and "S * M \<le> a" and "a < T * M"
  shows "S * M \<le> (a div M) * M" and "(a div M) * M + M \<le> T * M"
proof -
  have "S \<le> a div M" using assms(1,2) by (simp add: less_eq_div_iff_mult_less_eq)
  then show "S * M \<le> (a div M) * M" by (rule mult_le_mono1)
  have "a div M < T" using assms(1,3) by (simp add: div_less_iff_less_mult)
  then have "Suc (a div M) \<le> T" by simp
  then have "Suc (a div M) * M \<le> T * M" by (rule mult_le_mono1)
  then show "(a div M) * M + M \<le> T * M" by (simp add: add.commute)
qed

lemma fft_middle_eq:
  fixes data :: "'a::comm_ring_1 list"
  assumes "0 < h" and "b = s * (2 * h)" and "length data = (s + t) * (2 * h)"
  shows "fft_middle data (length data) h wt b
       = map (\<lambda>a. if b \<le> a then dif_pass h wt (\<lambda>i. data ! i) a else data ! a) [0..<length data]"
  using assms(2,3)
proof (induction t arbitrary: data s b)
  case 0
  then have bl: "b = length data" by simp
  have "fft_middle data (length data) h wt b = data"
    by (subst fft_middle.simps) (simp add: bl)
  moreover have "map (\<lambda>a. if b \<le> a then dif_pass h wt (\<lambda>i. data ! i) a else data ! a) [0..<length data] = data"
    by (rule nth_equalityI) (simp_all add: bl)
  ultimately show ?case by simp
next
  case (Suc t)
  define M where "M = 2 * h"
  have M: "0 < M" "h < M" "h + h = M" using assms(1) by (simp_all add: M_def)
  have bM: "b = s * M" and lM: "length data = (s + Suc t) * M"
    using Suc.prems by (simp_all add: M_def)
  define d1 where "d1 = map (\<lambda>a. if b \<le> a \<and> a < b + h then data ! a + data ! (a + h)
                     else if b + h \<le> a \<and> a < b + h + h then (data ! (a - h) - data ! a) * (1 * wt ^ (a - h - b))
                     else data ! a) [0..<length data]"
  have "b + M \<le> length data" by (simp add: bM lM)
  then have len: "b + h + h \<le> length data" "b < length data"
    using M by simp_all
  have inner: "fft_inner data h wt b (b + h) 1 = (d1, b + h)"
    unfolding d1_def by (rule fft_inner_eq[OF order_refl len(1)])
  have l1: "length d1 = length data" by (simp add: d1_def)
  have step: "fft_middle data (length data) h wt b = fft_middle d1 (length d1) h wt (b + h + h)"
    by (subst fft_middle.simps) (simp add: len(2) assms(1) inner l1)
  have IH: "fft_middle d1 (length d1) h wt (b + h + h)
       = map (\<lambda>a. if b + h + h \<le> a then dif_pass h wt (\<lambda>i. d1 ! i) a else d1 ! a) [0..<length d1]"
  proof (rule Suc.IH)
    show "b + h + h = Suc s * (2 * h)" using Suc.prems(1) by simp
    show "length d1 = (Suc s + t) * (2 * h)" using Suc.prems(2) by (simp add: l1)
  qed
  have v: "d1 ! a = (if b \<le> a \<and> a < b + h then data ! a + data ! (a + h)
                     else if b + h \<le> a \<and> a < b + h + h then (data ! (a - h) - data ! a) * wt ^ (a - h - b)
                     else data ! a)" if "a < length data" for a
    using that by (simp add: d1_def)
  have "map (\<lambda>a. if b + h + h \<le> a then dif_pass h wt (\<lambda>i. d1 ! i) a else d1 ! a) [0..<length d1]
      = map (\<lambda>a. if b \<le> a then dif_pass h wt (\<lambda>i. data ! i) a else data ! a) [0..<length data]"
    unfolding l1
  proof (rule map_cong[OF refl])
    fix a assume "a \<in> set [0..<length data]"
    then have a: "a < length data" by simp
    show "(if b + h + h \<le> a then dif_pass h wt (\<lambda>i. d1 ! i) a else d1 ! a)
        = (if b \<le> a then dif_pass h wt (\<lambda>i. data ! i) a else data ! a)"
    proof (cases "b + h + h \<le> a")
      case True
      define u where "u = a div M"
      have "Suc s * M \<le> a" using True M(3) by (simp add: bM add.assoc)
      from block_bounds[OF M(1) this a[unfolded lM]]
      have ub: "b + M \<le> u * M" "u * M + M \<le> length data"
        by (simp_all add: u_def bM lM add.commute)
      define r where "r = a mod M"
      define q where "q = u * M"
      have am: "a = q + r" by (simp add: u_def r_def q_def)
      have ub': "b + M \<le> q" "q + M \<le> length data" using ub by (simp_all add: q_def)
      have i1: "d1 ! a = data ! a" using True by (simp add: v[OF a])
      show ?thesis
      proof (cases "a mod M < h")
        case lo: True
        have "r < h" using lo by (simp add: r_def)
        then have "a + h < q + M" using am M(2,3) by linarith
        then have ah: "a + h < length data" using ub'(2) by linarith
        have "b + h + h \<le> a + h" using True by simp
        then have i2: "d1 ! (a + h) = data ! (a + h)" by (simp add: v[OF ah])
        show ?thesis using True lo i1 i2 by (simp add: dif_pass_def M_def[symmetric])
      next
        case hi: False
        have "h \<le> r" using hi by (simp add: r_def)
        then have "b + M \<le> a - h" using ub'(1) am by linarith
        then have "b + h + h \<le> a - h" using M(3) by linarith
        moreover have "a - h < length data" using a by simp
        ultimately have i2: "d1 ! (a - h) = data ! (a - h)" by (simp add: v)
        show ?thesis using True hi i1 i2 by (simp add: dif_pass_def M_def[symmetric])
      qed
    next
      case False
      show ?thesis
      proof (cases "b \<le> a")
        case lt: False
        then show ?thesis using False by (simp add: v[OF a])
      next
        case True
        have "a < s * M + M" using False M(3) by (simp add: bM add.assoc)
        then have am: "a mod M = a - b"
          using block_mod[of s M a] True by (simp add: bM)
        show ?thesis
        proof (cases "a < b + h")
          case lo: True
          then have "d1 ! a = data ! a + data ! (a + h)"
            using True by (simp add: v[OF a])
          moreover have "a mod M < h" using lo True by (simp add: am)
          ultimately show ?thesis using False True by (simp add: dif_pass_def M_def[symmetric])
        next
          case hi: False
          then have "d1 ! a = (data ! (a - h) - data ! a) * wt ^ (a - h - b)"
            using False by (simp add: v[OF a])
          moreover have "\<not> a mod M < h" "a mod M - h = a - h - b" using hi by (simp_all add: am)
          ultimately show ?thesis using False True by (simp add: dif_pass_def M_def[symmetric])
        qed
      qed
    qed
  qed
  then show ?case by (simp only: step IH)
qed

lemma dft_dif:
  fixes w :: "'a::comm_ring_1"
  assumes w: "w ^ h = - 1"
  shows "dft w (2 * h) f (2 * q) = dft (w * w) h (\<lambda>j. f j + f (j + h)) q"
    and "dft w (2 * h) f (2 * q + 1) = dft (w * w) h (\<lambda>j. (f j - f (j + h)) * w ^ j) q"
proof -
  have ww: "(w * w) ^ n = w ^ (2 * n)" for n
    by (simp add: power2_eq_square[symmetric] power_mult)
  have wh: "w ^ (h * t) = (- 1) ^ t" for t
    by (simp add: power_mult w)
  have e1: "f j * w ^ (j * (2 * q)) = f j * (w * w) ^ (j * q)" for j
  proof -
    have "j * (2 * q) = 2 * (j * q)" by simp
    then show ?thesis by (simp only: ww)
  qed
  have e2: "f (h + j) * w ^ ((h + j) * (2 * q)) = f (j + h) * (w * w) ^ (j * q)" for j
  proof -
    have "(h + j) * (2 * q) = h * (2 * q) + 2 * (j * q)" by (simp add: algebra_simps)
    then have "w ^ ((h + j) * (2 * q)) = (- 1) ^ (2 * q) * (w * w) ^ (j * q)"
      by (simp only: power_add wh ww)
    then show ?thesis by (simp add: add.commute)
  qed
  have A: "(\<Sum>j<h. f j * w ^ (j * (2 * q))) = (\<Sum>j<h. f j * (w * w) ^ (j * q))"
    by (simp only: e1)
  have B: "(\<Sum>j<h. f (h + j) * w ^ ((h + j) * (2 * q))) = (\<Sum>j<h. f (j + h) * (w * w) ^ (j * q))"
    by (simp only: e2)
  show "dft w (2 * h) f (2 * q) = dft (w * w) h (\<lambda>j. f j + f (j + h)) q"
    unfolding dft_def sum_halves A B by (simp add: sum.distrib distrib_right)
  have o1: "f j * w ^ (j * (2 * q + 1)) = f j * w ^ j * (w * w) ^ (j * q)" for j
  proof -
    have "j * (2 * q + 1) = 2 * (j * q) + j" by (simp add: algebra_simps)
    then show ?thesis by (simp add: power_add ww mult_ac)
  qed
  have o2: "f (h + j) * w ^ ((h + j) * (2 * q + 1)) = - (f (j + h) * w ^ j * (w * w) ^ (j * q))" for j
  proof -
    have "(h + j) * (2 * q + 1) = h * (2 * q + 1) + (2 * (j * q) + j)" by (simp add: algebra_simps)
    then have "w ^ ((h + j) * (2 * q + 1)) = (- 1) ^ (2 * q + 1) * ((w * w) ^ (j * q) * w ^ j)"
      by (simp only: power_add wh ww)
    then show ?thesis by (simp add: add.commute mult_ac)
  qed
  have C: "(\<Sum>j<h. f j * w ^ (j * (2 * q + 1))) = (\<Sum>j<h. f j * w ^ j * (w * w) ^ (j * q))"
    by (simp only: o1)
  have D: "(\<Sum>j<h. f (h + j) * w ^ ((h + j) * (2 * q + 1))) = (\<Sum>j<h. - (f (j + h) * w ^ j * (w * w) ^ (j * q)))"
    by (simp only: o2)
  have "(\<Sum>j<h. f j * w ^ j * (w * w) ^ (j * q)) + (\<Sum>j<h. - (f (j + h) * w ^ j * (w * w) ^ (j * q)))
      = (\<Sum>j<h. (f j - f (j + h)) * w ^ j * (w * w) ^ (j * q))"
    unfolding sum.distrib[symmetric] by (rule sum.cong) (simp_all add: algebra_simps)
  then show "dft w (2 * h) f (2 * q + 1) = dft (w * w) h (\<lambda>j. (f j - f (j + h)) * w ^ j) q"
    unfolding dft_def sum_halves C D by simp
qed

lemma block_div_mod:
  fixes h :: nat
  assumes "x < h"
  shows "(q * h + x) div h = q" and "(q * h + x) mod h = x"
  using assms by simp_all

lemma dif_pass_block:
  fixes data :: "'a::comm_ring_1 list"
  assumes h: "0 < h" and j: "j < h"
  shows "dif_pass h w (\<lambda>i. data ! i) (B * (2 * h) + j) = data ! (B * (2 * h) + j) + data ! (B * (2 * h) + (j + h))"
    and "dif_pass h w (\<lambda>i. data ! i) (B * (2 * h) + (j + h))
         = (data ! (B * (2 * h) + j) - data ! (B * (2 * h) + (j + h))) * w ^ j"
proof -
  have m1: "(B * (2 * h) + j) mod (2 * h) = j" using j by simp
  have m2: "(B * (2 * h) + (j + h)) mod (2 * h) = j + h" using j by simp
  show "dif_pass h w (\<lambda>i. data ! i) (B * (2 * h) + j) = data ! (B * (2 * h) + j) + data ! (B * (2 * h) + (j + h))"
    unfolding dif_pass_def m1 using j by (simp add: add.assoc)
  have "B * (2 * h) + (j + h) - h = B * (2 * h) + j" by simp
  then show "dif_pass h w (\<lambda>i. data ! i) (B * (2 * h) + (j + h))
         = (data ! (B * (2 * h) + j) - data ! (B * (2 * h) + (j + h))) * w ^ j"
    unfolding dif_pass_def m2 by simp
qed

lemma fft_outer_eq:
  fixes data :: "'a::comm_ring_1 list"
  assumes "length data = 2 ^ mm" and "k \<le> mm" and "0 < k \<Longrightarrow> w ^ (2 ^ (k - 1)) = - 1"
  shows "fft_outer data (2 ^ mm) (2 ^ k) w
       = map (\<lambda>p. dft w (2 ^ k) (\<lambda>j. data ! (p div 2 ^ k * 2 ^ k + j)) (brev k (p mod 2 ^ k))) [0..<2 ^ mm]"
  using assms
proof (induction k arbitrary: data w)
  case 0
  have "fft_outer data (2 ^ mm) (2 ^ 0) w = data"
    by (subst fft_outer.simps) simp
  moreover have "map (\<lambda>p. dft w (2 ^ 0) (\<lambda>j. data ! (p div 2 ^ 0 * 2 ^ 0 + j)) (brev 0 (p mod 2 ^ 0))) [0..<2 ^ mm] = data"
    by (rule nth_equalityI) (simp_all add: 0 dft_def)
  ultimately show ?case by simp
next
  case (Suc k)
  define h :: nat where "h = 2 ^ k"
  define M :: nat where "M = 2 * h"
  define N :: nat where "N = 2 ^ mm"
  define T :: nat where "T = 2 ^ (mm - Suc k)"
  have h: "0 < h" by (simp add: h_def)
  have M: "0 < M" "M = 2 ^ Suc k" by (simp_all add: M_def h_def)
  have N: "N = T * M"
  proof -
    have "(2::nat) ^ mm = 2 ^ (mm - Suc k + Suc k)" using Suc.prems(2) by simp
    then show ?thesis unfolding N_def T_def M(2) by (simp only: power_add)
  qed
  have len: "length data = N" using Suc.prems(1) by (simp add: N_def)
  have wh: "w ^ h = - 1" using Suc.prems(3) by (simp add: h_def)
  have w2: "(w * w) ^ (2 ^ (k - 1)) = - 1" if "0 < k"
  proof -
    have "(w * w) ^ (2 ^ (k - 1)) = w ^ (2 * 2 ^ (k - 1))"
      by (simp add: power2_eq_square[symmetric] power_mult)
    also have "2 * 2 ^ (k - 1) = (2 ^ k :: nat)" using that by (cases k) simp_all
    finally show ?thesis using wh by (simp add: h_def)
  qed
  define d1 where "d1 = fft_middle data (length data) h w 0"
  have d1: "d1 = map (dif_pass h w (\<lambda>i. data ! i)) [0..<N]"
  proof -
    have "length data = (0 + T) * (2 * h)" using len N by (simp add: M_def)
    from fft_middle_eq[OF h _ this, of 0 w] show ?thesis
      by (simp add: d1_def len)
  qed
  have l1: "length d1 = 2 ^ mm" by (simp add: d1 N_def)
  have step: "fft_outer data (2 ^ mm) (2 ^ Suc k) w = fft_outer d1 (2 ^ mm) (2 ^ k) (w * w)"
  proof -
    have "(0::nat) < 2 ^ k" by simp
    then have "(1::nat) < 2 * 2 ^ k" by linarith
    then have a: "(2::nat) ^ Suc k > 1" by simp
    have b: "(2::nat) ^ Suc k div 2 = 2 ^ k" by simp
    show ?thesis
      by (subst fft_outer.simps) (simp only: a b if_True Let_def d1_def Suc.prems(1) h_def)
  qed
  have IH: "fft_outer d1 (2 ^ mm) (2 ^ k) (w * w)
       = map (\<lambda>p. dft (w * w) h (\<lambda>j. d1 ! (p div h * h + j)) (brev k (p mod h))) [0..<2 ^ mm]"
    unfolding h_def by (rule Suc.IH[OF l1 _ w2]) (use Suc.prems(2) in simp_all)
  have "map (\<lambda>p. dft (w * w) h (\<lambda>j. d1 ! (p div h * h + j)) (brev k (p mod h))) [0..<2 ^ mm]
      = map (\<lambda>p. dft w M (\<lambda>j. data ! (p div M * M + j)) (brev (Suc k) (p mod M))) [0..<2 ^ mm]"
  proof (rule map_cong[OF refl])
    fix p assume "p \<in> set [0..<2 ^ mm]"
    then have p: "p < T * M" by (simp add: N[symmetric] N_def)
    define B where "B = p div M"
    define r where "r = p mod M"
    define f where "f = (\<lambda>j. data ! (B * M + j))"
    have pr: "p = B * M + r" and r: "r < M" using M(1) by (simp_all add: B_def r_def)
    have "0 * M \<le> p" by simp
    from block_bounds(2)[OF M(1) this p] have top: "B * M + M \<le> N" by (simp add: B_def N)
    have in1: "d1 ! (B * M + j) = f j + f (j + h)" if "j < h" for j
    proof -
      have "B * M + j < N" using top that by (simp add: M_def)
      then have "d1 ! (B * M + j) = dif_pass h w (\<lambda>i. data ! i) (B * M + j)" by (simp add: d1)
      then show ?thesis unfolding M_def f_def by (simp only: dif_pass_block(1)[OF h that])
    qed
    have in2: "d1 ! (B * M + (j + h)) = (f j - f (j + h)) * w ^ j" if "j < h" for j
    proof -
      have "B * M + (j + h) < N" using top that by (simp add: M_def)
      then have "d1 ! (B * M + (j + h)) = dif_pass h w (\<lambda>i. data ! i) (B * M + (j + h))" by (simp add: d1)
      then show ?thesis unfolding M_def f_def by (simp only: dif_pass_block(2)[OF h that])
    qed
    have rl: "r < 2 ^ Suc k" using r by (simp add: M(2))
    show "dft (w * w) h (\<lambda>j. d1 ! (p div h * h + j)) (brev k (p mod h))
        = dft w M (\<lambda>j. data ! (p div M * M + j)) (brev (Suc k) (p mod M))"
    proof (cases "r < h")
      case True
      have "p = (2 * B) * h + r" by (simp add: pr M_def)
      then have dm: "p div h = 2 * B" "p mod h = r"
        using block_div_mod[OF True, of "2 * B"] by (simp_all only:)
      have i: "p div h * h + j = B * M + j" for j by (simp add: dm M_def)
      have "dft (w * w) h (\<lambda>j. d1 ! (p div h * h + j)) (brev k (p mod h))
          = dft (w * w) h (\<lambda>j. f j + f (j + h)) (brev k r)"
        unfolding i dm(2) by (rule dft_cong) (rule in1)
      also have "\<dots> = dft w (2 * h) f (2 * brev k r)" by (rule dft_dif(1)[OF wh, symmetric])
      also have "2 * brev k r = brev (Suc k) r" using brev_top[OF rl] True by (simp add: h_def)
      finally show ?thesis by (simp add: f_def B_def r_def M_def)
    next
      case False
      define x where "x = r - h"
      have x: "r = x + h" "x < h" using False r by (simp_all add: x_def M_def)
      have "p = (2 * B + 1) * h + x" by (simp add: pr M_def x(1) algebra_simps)
      then have dm: "p div h = 2 * B + 1" "p mod h = x"
        using block_div_mod[OF x(2), of "2 * B + 1"] by (simp_all only:)
      have i: "p div h * h + j = B * M + (j + h)" for j by (simp add: dm M_def algebra_simps)
      have "dft (w * w) h (\<lambda>j. d1 ! (p div h * h + j)) (brev k (p mod h))
          = dft (w * w) h (\<lambda>j. (f j - f (j + h)) * w ^ j) (brev k x)"
        unfolding i dm(2) by (rule dft_cong) (rule in2)
      also have "\<dots> = dft w (2 * h) f (2 * brev k x + 1)" by (rule dft_dif(2)[OF wh, symmetric])
      also have "2 * brev k x + 1 = brev (Suc k) r" using brev_top[OF rl] False by (simp add: h_def x_def)
      finally show ?thesis by (simp add: f_def B_def r_def M_def)
    qed
  qed
  then show ?case unfolding step IH by (simp only: M(2))
qed

lemma pow2_guard: "(int (2 ^ m) AND (int (2 ^ m) - 1)) = 0"
proof -
  have "(2 ^ m :: int) AND mask m = 0"
    by (rule bit_eqI) (auto simp: bit_and_iff bit_exp_iff bit_mask_iff)
  then show ?thesis by (simp add: mask_eq_exp_minus_1)
qed

lemma fft_eq:
  fixes data :: "'a::comm_ring_1 list"
  assumes "length data = 2 ^ m" and "0 < m \<Longrightarrow> w ^ (2 ^ (m - 1)) = - 1"
  shows "fft data (2 ^ m) w = map (dft w (2 ^ m) (\<lambda>j. data ! j)) [0..<2 ^ m]"
proof -
  define Ou where "Ou = fft_outer data (2 ^ m) (2 ^ m) w"
  have Ou: "Ou = map (\<lambda>p. dft w (2 ^ m) (\<lambda>j. data ! (p div 2 ^ m * 2 ^ m + j)) (brev m (p mod 2 ^ m))) [0..<2 ^ m]"
    unfolding Ou_def by (rule fft_outer_eq[OF assms(1) order_refl assms(2)])
  have lO: "length Ou = 2 ^ m" by (simp add: Ou)
  have "fft data (2 ^ m) w = fft_reorder Ou (2 ^ m) 0 1"
    by (simp only: fft_def pow2_guard Ou_def) simp
  also have "\<dots> = map (\<lambda>p. Ou ! brev m p) [0..<2 ^ m]"
    by (rule fft_reorder_eq[OF lO])
  also have "\<dots> = map (dft w (2 ^ m) (\<lambda>j. data ! j)) [0..<2 ^ m]"
  proof (rule map_cong[OF refl])
    fix p assume "p \<in> set [0..<2 ^ m]"
    then have p: "p < 2 ^ m" by simp
    have q: "brev m p < 2 ^ m" by (rule brev_less)
    have "Ou ! brev m p = dft w (2 ^ m) (\<lambda>j. data ! j) (brev m (brev m p))"
      using q by (simp add: Ou)
    then show "Ou ! brev m p = dft w (2 ^ m) (\<lambda>j. data ! j) p"
      by (simp add: brev_brev[OF p])
  qed
  finally show ?thesis .
qed

lemma fft_round_trip:
  fixes x :: "'a::{comm_ring_1,divide} list"
  assumes "length x = 2 ^ m"
    and "0 < m \<Longrightarrow> w ^ (2 ^ (m - 1)) = - 1"
    and "of_nat (2 ^ m) * (1 div of_nat (2 ^ m)) = (1 :: 'a)"
  shows "fold (\<lambda>i b. b[i := b ! i * (1 div of_nat (2 ^ m))]) [0..<2 ^ m]
           (fft (fft x (2 ^ m) w) (2 ^ m) (w ^ (2 ^ m - 1))) = x"
proof -
  define n :: nat where "n = 2 ^ m"
  define v where "v = w ^ (n - 1)"
  define s :: 'a where "s = 1 div of_nat n"
  define X where "X = fft x n w"
  define Y where "Y = fft X n v"
  have X: "X = map (dft w n (\<lambda>j. x ! j)) [0..<n]"
    unfolding X_def n_def by (rule fft_eq[OF assms(1,2)])
  have lX: "length X = 2 ^ m" by (simp add: X n_def)
  have vr: "v ^ (2 ^ (m - 1)) = - 1" if "0 < m"
    unfolding v_def n_def by (rule inverse_root[OF assms(2)[OF that] that])
  have Y: "Y = map (dft v n (\<lambda>j. X ! j)) [0..<n]"
    unfolding Y_def n_def by (rule fft_eq[OF lX vr])
  have Yk: "Y ! k = of_nat n * x ! k" if "k < n" for k
  proof -
    have "Y ! k = dft v n (\<lambda>j. X ! j) k" using that by (simp add: Y)
    also have "\<dots> = dft v n (dft w n (\<lambda>j. x ! j)) k"
      by (rule dft_cong) (simp add: X)
    also have "\<dots> = of_nat n * x ! k"
      unfolding v_def n_def by (rule dft_inverse[OF assms(2)]) (use that in \<open>simp_all add: n_def\<close>)
    finally show ?thesis .
  qed
  have lY: "length Y = n" by (simp add: Y)
  have ns: "of_nat n * s = 1" using assms(3) by (simp add: s_def n_def)
  have "fold (\<lambda>i b. b[i := b ! i * s]) [0..<n] Y = x"
    unfolding fold_scale[OF eq_refl[OF lY[symmetric]]]
  proof (rule nth_equalityI, goal_cases)
    case 1
    show ?case using assms(1) by (simp add: lY n_def)
  next
    case (2 a)
    then have a: "a < n" by (simp add: lY)
    have "Y ! a * s = x ! a * (of_nat n * s)" by (simp add: Yk[OF a] mult_ac)
    then have "Y ! a * s = x ! a" by (simp add: ns)
    then show ?case using a by (simp add: lY)
  qed
  then show ?thesis by (simp add: s_def Y_def X_def v_def n_def)
qed

text \<open>
  C4, as stated, on a root of larger order. Modulo \<open>17\<close> the element \<open>2\<close> is a principal
  root of unity of order \<open>8\<close>, and \<open>13\<close> is \<open>1 / 4\<close>. On the buffer \<open>[0, 1, 0, 0]\<close> of length
  \<open>4\<close> the transform with root \<open>2\<close>, then the transform with root \<open>2 ^ 3\<close>, then the
  multiplication of every element by \<open>1 / 4\<close> give \<open>[0, 0, 0, 1]\<close>, with \<open>fft\<close> and with
  \<open>fft_rec\<close>.
\<close>

theorem C4_root_of_larger_order:
  "(2 :: 17) ^ 8 = 1 \<and> (2 :: 17) ^ 4 \<noteq> 1 \<and> (4 :: 17) * 13 = 1
   \<and> fold (\<lambda>i b. b[i := b ! i * 13]) [0..<4] (fft (fft [0, 1, 0, 0] 4 2) 4 (2 ^ (4 - 1)))
       = [0, 0, 0, 1 :: 17]
   \<and> fold (\<lambda>i b. b[i := b ! i * 13]) [0..<4]
        (fft_rec [0, 0, 0, 0] 0 (fft_rec [0, 0, 0, 0] 0 [0, 1, 0, 0] 0 4 2 1) 0 4 (2 ^ (4 - 1)) 1)
       = [0, 0, 0, 1 :: 17]
   \<and> [0, 0, 0, 1] \<noteq> [0, 1, 0, 0 :: 17]"
  by (simp add: fft_rec.simps fft_def fft_outer.simps fft_middle.simps fft_inner.simps
      fft_reorder.simps fft_bitrev_next.simps Let_def upt_rec)

text \<open>
  C4, amended. For a buffer \<open>x\<close> of length \<open>n = 2 ^ m\<close> and a root \<open>w\<close> with
  \<open>w ^ (n / 2) = - 1\<close> (a principal \<open>n\<close>-th root of unity: its order is \<open>n\<close>; no condition
  when \<open>n = 1\<close>), in a ring where \<open>n * (1 / n) = 1\<close>: the transform with root \<open>w\<close>, then the
  transform with root \<open>w ^ (n - 1)\<close>, then the multiplication of every element by \<open>1 / n\<close>
  give \<open>x\<close> back, with the in-place \<open>fft\<close> and with \<open>fft_rec\<close> (in the first \<open>n\<close> places of
  its destination buffer).
\<close>

theorem C4_round_trip:
  fixes x :: "'a::{comm_ring_1,divide} list"
  assumes "length x = 2 ^ m" and "2 ^ m \<le> length d" and "2 ^ m \<le> length d'"
    and "0 < m \<Longrightarrow> w ^ (2 ^ (m - 1)) = - 1"
    and "of_nat (2 ^ m) * (1 div of_nat (2 ^ m)) = (1 :: 'a)"
  shows "fold (\<lambda>i b. b[i := b ! i * (1 div of_nat (2 ^ m))]) [0..<2 ^ m]
           (fft (fft x (2 ^ m) w) (2 ^ m) (w ^ (2 ^ m - 1))) = x
       \<and> fold (\<lambda>i b. b[i := b ! i * (1 div of_nat (2 ^ m))]) [0..<2 ^ m]
           (fft_rec d' 0 (fft_rec d 0 x 0 (2 ^ m) w 1) 0 (2 ^ m) (w ^ (2 ^ m - 1)) 1)
         = x @ drop (2 ^ m) d'"
  using fft_round_trip[OF assms(1,4,5)] fft_rec_round_trip[OF assms] by (rule conjI)

theorem C4_witness:
  "fold (\<lambda>i b. b[i := b ! i * (1 div of_nat (2 ^ 2))]) [0..<2 ^ 2]
     (fft (fft [1, 2, 3, 4 :: complex] (2 ^ 2) \<i>) (2 ^ 2) (\<i> ^ (2 ^ 2 - 1))) = [1, 2, 3, 4]
   \<and> fold (\<lambda>i b. b[i := b ! i * (1 div of_nat (2 ^ 2))]) [0..<2 ^ 2]
     (fft_rec [0, 0, 0, 0] 0 (fft_rec [0, 0, 0, 0] 0 [1, 2, 3, 4 :: complex] 0 (2 ^ 2) \<i> 1) 0 (2 ^ 2) (\<i> ^ (2 ^ 2 - 1)) 1)
   = [1, 2, 3, 4] @ drop (2 ^ 2) [0, 0, 0, 0]"
  by (rule C4_round_trip) simp_all

end
